theory Spec2Isabelle
  imports Main "HOL-Library.Word" "HOL-Library.Multiset"
begin

section \<open>Andersson trees of jsw\_atree.c: the program\<close>

text \<open>
  The C code works on a pointer structure: nodes allocated one by one, a sentinel node
  \<open>nil\<close> that stands for every missing child, and a tree header. The model keeps
  that shape. An address is a natural number, the memory is a function from addresses
  to nodes, and the header is a record that carries the memory it lives in.

  \<^item> \<open>int level\<close> is an \<open>int\<close>: levels stay far below the range of a C int.
  \<^item> \<open>void *data\<close> is an \<open>'a option\<close>, \<open>None\<close> being \<open>NULL\<close>.
  \<open>link[2]\<close> is a function from \<open>bool\<close>: \<open>link[0]\<close> is \<open>link n False\<close>
  and \<open>link[1]\<close> is \<open>link n True\<close>, so that the C idiom \<open>link[cmp < 0]\<close> reads
  the same.
  \<^item> \<open>size_t size\<close> is a 64-bit word.
  \<^item> \<open>malloc\<close> is an argument of the operation that calls it: \<open>None\<close> when
  it fails, \<open>Some a\<close> when it returns the address \<open>a\<close>. \<open>free\<close> removes an
  address from the set \<open>live\<close> of allocated nodes.
  \<^item> \<open>rel\<close>, the user's release function, is observed through the log
  \<open>released\<close> of its arguments, in call order.
  \<^item> The arrays \<open>path[HEIGHT_LIMIT]\<close> are lists; the bound 64 is not modelled.
\<close>

type_synonym addr = nat

record 'a jsw_anode =
  level :: int
  data :: "'a option"
  link :: "bool \<Rightarrow> addr"

type_synonym 'a memory = "addr \<Rightarrow> 'a jsw_anode"

record 'a jsw_atree =
  root :: addr
  nil :: addr
  cmp :: "'a \<Rightarrow> 'a \<Rightarrow> int"
  dup :: "'a \<Rightarrow> 'a"
  tsize :: "64 word"
  heap :: "'a memory"
  live :: "addr set"
  released :: "'a option list"

record 'a jsw_atrav =
  t_tree :: "'a jsw_atree"
  t_it :: addr
  t_path :: "addr list"
  t_top :: nat

text \<open>The assignment \<open>n->link[d] = x\<close>.\<close>

definition set_link :: "'a jsw_anode \<Rightarrow> bool \<Rightarrow> addr \<Rightarrow> 'a jsw_anode" where
  "set_link n d x = n\<lparr>link := (link n)(d := x)\<rparr>"

subsection \<open>The macros skew and split\<close>

text \<open>
  Both macros take an lvalue \<open>t\<close> and may assign to it. Here they take the value of
  \<open>t\<close> and return the memory and the new value of \<open>t\<close>; the caller stores it
  where the lvalue lives.
\<close>

definition skew :: "'a memory \<Rightarrow> addr \<Rightarrow> 'a memory \<times> addr" where
  "skew h t =
     (if level (h (link (h t) False)) = level (h t) \<and> level (h t) \<noteq> 0 then
        let save = link (h t) False;
            h1 = h(t := set_link (h t) False (link (h save) True));
            h2 = h1(save := set_link (h1 save) True t)
        in (h2, save)
      else (h, t))"

definition split :: "'a memory \<Rightarrow> addr \<Rightarrow> 'a memory \<times> addr" where
  "split h t =
     (if level (h (link (h (link (h t) True)) True)) = level (h t) \<and> level (h t) \<noteq> 0 then
        let save = link (h t) True;
            h1 = h(t := set_link (h t) True (link (h save) False));
            h2 = h1(save := set_link (h1 save) False t);
            h3 = h2(save := (h2 save)\<lparr>level := level (h2 save) + 1\<rparr>)
        in (h3, save)
      else (h, t))"

subsection \<open>Construction\<close>

definition new_node :: "'a jsw_atree \<Rightarrow> 'a \<Rightarrow> addr option \<Rightarrow> 'a jsw_atree \<times> addr" where
  "new_node tree dat m =
     (case m of
        None \<Rightarrow> (tree, nil tree)
      | Some rn \<Rightarrow>
          (tree\<lparr>heap := (heap tree)
                  (rn := \<lparr>level = 1, data = Some (dup tree dat), link = (\<lambda>_. nil tree)\<rparr>),
                live := insert rn (live tree)\<rparr>, rn))"

text \<open>
  \<open>jsw_anew\<close> allocates the header and then the sentinel. \<open>rt_ok\<close> tells whether the
  first \<open>malloc\<close> succeeds, \<open>m\<close> is the result of the second, and \<open>mem\<close> is the
  memory the tree is created in.
\<close>

definition jsw_anew ::
  "('a \<Rightarrow> 'a \<Rightarrow> int) \<Rightarrow> ('a \<Rightarrow> 'a) \<Rightarrow> 'a memory \<Rightarrow> bool \<Rightarrow> addr option \<Rightarrow> 'a jsw_atree option" where
  "jsw_anew cmpf dupf mem rt_ok m =
     (if \<not> rt_ok then None
      else case m of
        None \<Rightarrow> None
      | Some n \<Rightarrow>
          Some \<lparr>root = n, nil = n, cmp = cmpf, dup = dupf, tsize = 0,
                heap = mem(n := \<lparr>level = 0, data = None, link = (\<lambda>_. n)\<rparr>),
                live = {n}, released = []\<rparr>)"

subsection \<open>Lookup\<close>

text \<open>
  A loop over the memory need not end, so it is a partial function: \<open>None\<close> means that
  the loop does not return. Calling the user's comparison on a \<open>NULL\<close> element is
  outside the model and is \<open>None\<close> as well.
\<close>

partial_function (option) afind_loop :: "'a jsw_atree \<Rightarrow> 'a \<Rightarrow> addr \<Rightarrow> addr option" where
  "afind_loop tree dat it =
     (if it \<noteq> nil tree then
        (case data (heap tree it) of
           None \<Rightarrow> None
         | Some d \<Rightarrow>
             if cmp tree d dat = 0 then Some it
             else afind_loop tree dat (link (heap tree it) (cmp tree d dat < 0)))
      else Some it)"

definition jsw_afind :: "'a jsw_atree \<Rightarrow> 'a \<Rightarrow> 'a option option" where
  "jsw_afind tree dat =
     (case afind_loop tree dat (root tree) of
        None \<Rightarrow> None
      | Some it \<Rightarrow> Some (data (heap tree it)))"

subsection \<open>Insertion\<close>

partial_function (option) ainsert_descend ::
  "'a jsw_atree \<Rightarrow> 'a \<Rightarrow> addr \<Rightarrow> addr list \<Rightarrow> (addr list \<times> addr \<times> bool) option" where
  "ainsert_descend tree dat it path =
     (case data (heap tree it) of
        None \<Rightarrow> None
      | Some d \<Rightarrow>
          if link (heap tree it) (cmp tree d dat < 0) = nil tree
          then Some (path @ [it], it, cmp tree d dat < 0)
          else ainsert_descend tree dat (link (heap tree it) (cmp tree d dat < 0)) (path @ [it]))"

text \<open>
  The loop \<open>while ( --top >= 0 )\<close>: the argument is the value of \<open>top\<close> before the
  decrement.
\<close>

fun ainsert_rebalance :: "'a jsw_atree \<Rightarrow> addr list \<Rightarrow> nat \<Rightarrow> 'a jsw_atree" where
  "ainsert_rebalance tree path 0 = tree"
| "ainsert_rebalance tree path (Suc tp) =
     (let (h1, p1) = skew (heap tree) (path ! tp);
          (h2, p2) = split h1 p1
      in if tp \<noteq> 0 then
           let dir = (link (heap tree (path ! (tp - 1))) True = path ! tp);
               up = path ! (tp - 1)
           in ainsert_rebalance (tree\<lparr>heap := h2(up := set_link (h2 up) dir p2)\<rparr>)
                (path[tp := p2]) tp
         else ainsert_rebalance (tree\<lparr>heap := h2, root := p2\<rparr>) (path[tp := p2]) tp)"

definition jsw_ainsert ::
  "'a jsw_atree \<Rightarrow> 'a \<Rightarrow> addr option \<Rightarrow> (int \<times> 'a jsw_atree) option" where
  "jsw_ainsert tree dat m =
     (if root tree = nil tree then
        let (tree1, rn) = new_node tree dat m;
            tree2 = tree1\<lparr>root := rn\<rparr>
        in if root tree2 = nil tree2 then Some (0, tree2)
           else Some (1, tree2\<lparr>tsize := tsize tree2 + 1\<rparr>)
      else
        case ainsert_descend tree dat (root tree) [] of
          None \<Rightarrow> None
        | Some (path, it, dir) \<Rightarrow>
            let (tree1, rn) = new_node tree dat m;
                tree2 = tree1\<lparr>heap := (heap tree1)(it := set_link (heap tree1 it) dir rn)\<rparr>
            in if link (heap tree2 it) dir = nil tree2 then Some (0, tree2)
               else
                 let tree3 = ainsert_rebalance tree2 path (length path)
                 in Some (1, tree3\<lparr>tsize := tsize tree3 + 1\<rparr>))"

subsection \<open>Erasure\<close>

text \<open>
  The search loop of \<open>jsw_aerase\<close> either returns 0 (the inner \<open>None\<close>) or breaks
  with the path, the node found and the last direction taken. \<open>dir\<close> is not
  initialised in C; it is read only after a step of the loop has assigned it, and the
  model starts it at \<open>False\<close>.
\<close>

partial_function (option) aerase_descend ::
  "'a jsw_atree \<Rightarrow> 'a \<Rightarrow> addr \<Rightarrow> addr list \<Rightarrow> bool \<Rightarrow> (addr list \<times> addr \<times> bool) option option" where
  "aerase_descend tree dat it path dir =
     (if it = nil tree then Some None
      else
        case data (heap tree it) of
          None \<Rightarrow> None
        | Some d \<Rightarrow>
            if cmp tree d dat = 0 then Some (Some (path @ [it], it, dir))
            else aerase_descend tree dat (link (heap tree it) (cmp tree d dat < 0))
                   (path @ [it]) (cmp tree d dat < 0))"

text \<open>The loop that looks for the heir: the leftmost node of the right subtree.\<close>

partial_function (option) aerase_heir ::
  "'a jsw_atree \<Rightarrow> addr \<Rightarrow> addr \<Rightarrow> addr list \<Rightarrow> (addr list \<times> addr \<times> addr) option" where
  "aerase_heir tree heir prev path =
     (if link (heap tree heir) False \<noteq> nil tree
      then aerase_heir tree (link (heap tree heir) False) heir (path @ [heir])
      else Some (path, prev, heir))"

text \<open>
  The macros applied to a link of a node, as in \<open>skew ( up->link[1] )\<close>: the macro
  works on the value of the link and its result is stored back in the link.
\<close>

definition skew_at :: "'a memory \<Rightarrow> addr \<Rightarrow> bool \<Rightarrow> 'a memory" where
  "skew_at h n d = (let (h1, s) = skew h (link (h n) d) in h1(n := set_link (h1 n) d s))"

definition split_at :: "'a memory \<Rightarrow> addr \<Rightarrow> bool \<Rightarrow> 'a memory" where
  "split_at h n d = (let (h1, s) = split h (link (h n) d) in h1(n := set_link (h1 n) d s))"

text \<open>The body of the block marked \<open>Rebalance (aka. black magic)\<close>, on the node \<open>up\<close>.\<close>

definition aerase_fix :: "'a memory \<Rightarrow> addr \<Rightarrow> 'a memory \<times> addr" where
  "aerase_fix h up =
     (if level (h (link (h up) False)) < level (h up) - 1
         \<or> level (h (link (h up) True)) < level (h up) - 1 then
        let h1 = h(up := (h up)\<lparr>level := level (h up) - 1\<rparr>);
            r = link (h1 up) True;
            h2 = (if level (h1 r) > level (h1 up)
                  then h1(r := (h1 r)\<lparr>level := level (h1 up)\<rparr>) else h1);
            (h3, up1) = skew h2 up;
            h4 = skew_at h3 up1 True;
            h5 = skew_at h4 (link (h4 up1) True) True;
            (h6, up2) = split h5 up1;
            h7 = split_at h6 up2 True
        in (h7, up2)
      else (h, up))"

fun aerase_rebalance :: "'a jsw_atree \<Rightarrow> addr list \<Rightarrow> nat \<Rightarrow> 'a jsw_atree" where
  "aerase_rebalance tree path 0 = tree"
| "aerase_rebalance tree path (Suc tp) =
     (let (h1, up) = aerase_fix (heap tree) (path ! tp)
      in if tp \<noteq> 0 then
           let dir = (link (heap tree (path ! (tp - 1))) True = path ! tp);
               par = path ! (tp - 1)
           in aerase_rebalance (tree\<lparr>heap := h1(par := set_link (h1 par) dir up)\<rparr>) path tp
         else aerase_rebalance (tree\<lparr>heap := h1, root := up\<rparr>) path tp)"

definition jsw_aerase :: "'a jsw_atree \<Rightarrow> 'a \<Rightarrow> (int \<times> 'a jsw_atree) option" where
  "jsw_aerase tree dat =
     (if root tree = nil tree then Some (0, tree)
      else
        case aerase_descend tree dat (root tree) [] False of
          None \<Rightarrow> None
        | Some None \<Rightarrow> Some (0, tree)
        | Some (Some (path, it, dir)) \<Rightarrow>
            let h = heap tree in
            if link (h it) False = nil tree \<or> link (h it) True = nil tree then
              let dir2 = (link (h it) False = nil tree);
                  tp = length path - 1;
                  par = path ! (tp - 1);
                  tree1 = (if tp \<noteq> 0
                           then tree\<lparr>heap := h(par := set_link (h par) dir (link (h it) dir2))\<rparr>
                           else tree\<lparr>root := link (h it) True\<rparr>);
                  tree2 = tree1\<lparr>released := released tree1 @ [data (h it)],
                                live := live tree1 - {it}\<rparr>;
                  tree3 = aerase_rebalance tree2 path tp
              in Some (1, tree3\<lparr>tsize := tsize tree3 - 1\<rparr>)
            else
              (case aerase_heir tree (link (h it) True) it path of
                 None \<Rightarrow> None
               | Some (path', prev, heir) \<Rightarrow>
                   let h1 = h(it := (h it)\<lparr>data := data (h heir)\<rparr>);
                       h2 = h1(prev := set_link (h1 prev) (prev = it) (link (h1 heir) True));
                       tree2 = tree\<lparr>heap := h2, released := released tree @ [data (h it)],
                                    live := live tree - {heir}\<rparr>;
                       tree3 = aerase_rebalance tree2 path' (length path')
                   in Some (1, tree3\<lparr>tsize := tsize tree3 - 1\<rparr>)))"

definition jsw_asize :: "'a jsw_atree \<Rightarrow> 64 word" where
  "jsw_asize tree = tsize tree"

subsection \<open>Destruction\<close>

partial_function (option) adelete_loop :: "'a jsw_atree \<Rightarrow> addr \<Rightarrow> 'a jsw_atree option" where
  "adelete_loop tree it =
     (if it \<noteq> nil tree then
        if link (heap tree it) False = nil tree then
          adelete_loop
            (tree\<lparr>released := released tree @ [data (heap tree it)], live := live tree - {it}\<rparr>)
            (link (heap tree it) True)
        else
          let save = link (heap tree it) False;
              h1 = (heap tree)(it := set_link (heap tree it) False (link (heap tree save) True));
              h2 = h1(save := set_link (h1 save) True it)
          in adelete_loop (tree\<lparr>heap := h2\<rparr>) save
      else Some tree)"

text \<open>
  After the loop the sentinel and the header are freed. The result is the header as it
  was at that moment: it shows which nodes are still allocated and what was released.
\<close>

definition jsw_adelete :: "'a jsw_atree \<Rightarrow> 'a jsw_atree option" where
  "jsw_adelete tree =
     (case adelete_loop tree (root tree) of
        None \<Rightarrow> None
      | Some tree1 \<Rightarrow> Some (tree1\<lparr>live := live tree1 - {nil tree1}\<rparr>))"

subsection \<open>Traversal\<close>

text \<open>
  A traversal object holds a pointer to its tree; the model holds the tree itself, which
  is the same thing as long as the tree is not changed during the traversal. The stack
  \<open>path[0..top-1]\<close> is a list together with \<open>top\<close>: a push writes at index
  \<open>top\<close>, a pop only lowers \<open>top\<close>.
\<close>

definition push :: "addr list \<Rightarrow> nat \<Rightarrow> addr \<Rightarrow> addr list" where
  "push path tp x = take tp path @ [x]"

partial_function (option) start_loop ::
  "'a jsw_atree \<Rightarrow> bool \<Rightarrow> addr \<Rightarrow> addr list \<Rightarrow> nat \<Rightarrow> (addr \<times> addr list \<times> nat) option" where
  "start_loop tree dir it path tp =
     (if link (heap tree it) dir \<noteq> nil tree
      then start_loop tree dir (link (heap tree it) dir) (push path tp it) (Suc tp)
      else Some (it, path, tp))"

definition start ::
  "'a jsw_atrav \<Rightarrow> 'a jsw_atree \<Rightarrow> bool \<Rightarrow> ('a option \<times> 'a jsw_atrav) option" where
  "start trav tree dir =
     (if root tree \<noteq> nil tree then
        case start_loop tree dir (root tree) (t_path trav) 0 of
          None \<Rightarrow> None
        | Some (it, path, tp) \<Rightarrow>
            Some (data (heap tree it), \<lparr>t_tree = tree, t_it = it, t_path = path, t_top = tp\<rparr>)
      else
        Some (data (heap tree (root tree)),
              \<lparr>t_tree = tree, t_it = root tree, t_path = t_path trav, t_top = 0\<rparr>))"

partial_function (option) move_down ::
  "'a jsw_atree \<Rightarrow> bool \<Rightarrow> addr \<Rightarrow> addr list \<Rightarrow> nat \<Rightarrow> (addr \<times> addr list \<times> nat) option" where
  "move_down tree ndir it path tp =
     (if link (heap tree it) ndir \<noteq> nil tree
      then move_down tree ndir (link (heap tree it) ndir) (push path tp it) (Suc tp)
      else Some (it, path, tp))"

text \<open>
  The \<open>do ... while\<close> loop of \<open>move\<close>; it ends because \<open>top\<close> goes down.
\<close>

fun move_up :: "'a jsw_atree \<Rightarrow> bool \<Rightarrow> addr \<Rightarrow> addr list \<Rightarrow> nat \<Rightarrow> addr \<times> nat" where
  "move_up tree dir it path 0 = (nil tree, 0)"
| "move_up tree dir it path (Suc tp) =
     (if it = link (heap tree (path ! tp)) dir
      then move_up tree dir (path ! tp) path tp
      else (path ! tp, tp))"

definition move :: "'a jsw_atrav \<Rightarrow> bool \<Rightarrow> ('a option \<times> 'a jsw_atrav) option" where
  "move trav dir =
     (let tree = t_tree trav; h = heap tree in
      if link (h (t_it trav)) dir \<noteq> nil tree then
        case move_down tree (\<not> dir) (link (h (t_it trav)) dir)
               (push (t_path trav) (t_top trav) (t_it trav)) (Suc (t_top trav)) of
          None \<Rightarrow> None
        | Some (it, path, tp) \<Rightarrow>
            Some (data (h it), trav\<lparr>t_it := it, t_path := path, t_top := tp\<rparr>)
      else
        let (it, tp) = move_up tree dir (t_it trav) (t_path trav) (t_top trav)
        in Some (data (h it), trav\<lparr>t_it := it, t_top := tp\<rparr>))"

definition jsw_atfirst :: "'a jsw_atrav \<Rightarrow> 'a jsw_atree \<Rightarrow> ('a option \<times> 'a jsw_atrav) option" where
  "jsw_atfirst trav tree = start trav tree False"

definition jsw_atlast :: "'a jsw_atrav \<Rightarrow> 'a jsw_atree \<Rightarrow> ('a option \<times> 'a jsw_atrav) option" where
  "jsw_atlast trav tree = start trav tree True"

definition jsw_atnext :: "'a jsw_atrav \<Rightarrow> ('a option \<times> 'a jsw_atrav) option" where
  "jsw_atnext trav = move trav True"

definition jsw_atprev :: "'a jsw_atrav \<Rightarrow> ('a option \<times> 'a jsw_atrav) option" where
  "jsw_atprev trav = move trav False"

section \<open>The tree a memory holds\<close>

text \<open>
  To reason about the pointer structure, the part of the memory reachable from a pointer
  is read back as a value: a binary tree whose nodes carry their address, level and
  element. \<open>is_tree h nl p t\<close> says that the pointer \<open>p\<close> in memory \<open>h\<close>
  with sentinel \<open>nl\<close> is the root of \<open>t\<close>; \<open>rep\<close> adds that no address
  occurs twice. The functions on such trees (\<open>skewT\<close>, \<open>splitT\<close>, \<open>insT\<close>) are
  not part of the program: they state what the pointer code computes.
\<close>

datatype 'a atree = Leaf | Node "'a atree" addr int 'a "'a atree"

fun addrs :: "'a atree \<Rightarrow> addr list" where
  "addrs Leaf = []"
| "addrs (Node l a lv x r) = addrs l @ a # addrs r"

fun elems :: "'a atree \<Rightarrow> 'a list" where
  "elems Leaf = []"
| "elems (Node l a lv x r) = elems l @ x # elems r"

fun lvl :: "'a atree \<Rightarrow> int" where
  "lvl Leaf = 0"
| "lvl (Node l a lv x r) = lv"

fun top_addr :: "addr \<Rightarrow> 'a atree \<Rightarrow> addr" where
  "top_addr nl Leaf = nl"
| "top_addr nl (Node l a lv x r) = a"

fun is_tree :: "'a memory \<Rightarrow> addr \<Rightarrow> addr \<Rightarrow> 'a atree \<Rightarrow> bool" where
  "is_tree h nl p Leaf = (p = nl)"
| "is_tree h nl p (Node l a lv x r) =
     (p = a \<and> a \<noteq> nl \<and> level (h a) = lv \<and> data (h a) = Some x \<and>
      is_tree h nl (link (h a) False) l \<and> is_tree h nl (link (h a) True) r)"

definition nil_ok :: "'a memory \<Rightarrow> addr \<Rightarrow> bool" where
  "nil_ok h nl = (level (h nl) = 0 \<and> data (h nl) = None \<and> link (h nl) False = nl \<and> link (h nl) True = nl)"

definition rep :: "'a memory \<Rightarrow> addr \<Rightarrow> addr \<Rightarrow> 'a atree \<Rightarrow> bool" where
  "rep h nl p t = (is_tree h nl p t \<and> distinct (addrs t))"

lemma is_tree_top: "is_tree h nl p t \<Longrightarrow> p = top_addr nl t"
  by (cases t) auto

lemma is_tree_nil_notin: "is_tree h nl p t \<Longrightarrow> nl \<notin> set (addrs t)"
  by (induction t arbitrary: p) auto

lemma is_tree_level: "is_tree h nl p t \<Longrightarrow> level (h nl) = 0 \<Longrightarrow> level (h p) = lvl t"
  by (cases t) auto

lemma is_tree_frame:
  "is_tree h nl p t \<Longrightarrow> (\<And>a. a \<in> set (addrs t) \<Longrightarrow> h' a = h a) \<Longrightarrow> is_tree h' nl p t"
  by (induction t arbitrary: p) auto

lemma is_tree_Leaf_iff: "is_tree h nl p t \<Longrightarrow> (p = nl) = (t = Leaf)"
  by (cases t) auto

lemma is_tree_unique: "is_tree h nl p t \<Longrightarrow> is_tree h nl p t' \<Longrightarrow> t = t'"
proof (induction t arbitrary: p t')
  case Leaf
  then show ?case by (cases t') auto
next
  case (Node l a lv x r)
  then show ?case by (cases t') auto
qed

fun skewT :: "'a atree \<Rightarrow> 'a atree" where
  "skewT (Node (Node ll b lvb y lr) a lva x r) =
     (if lvb = lva \<and> lva \<noteq> 0 then Node ll b lvb y (Node lr a lva x r)
      else Node (Node ll b lvb y lr) a lva x r)"
| "skewT t = t"

fun splitT :: "'a atree \<Rightarrow> 'a atree" where
  "splitT (Node l a lva x (Node rl b lvb y rr)) =
     (if lvl rr = lva \<and> lva \<noteq> 0 then Node (Node l a lva x rl) b (lvb + 1) y rr
      else Node l a lva x (Node rl b lvb y rr))"
| "splitT t = t"

lemma addrs_skewT [simp]: "addrs (skewT t) = addrs t"
  by (induction t rule: skewT.induct) auto

lemma addrs_splitT [simp]: "addrs (splitT t) = addrs t"
  by (induction t rule: splitT.induct) auto

lemma elems_skewT [simp]: "elems (skewT t) = elems t"
  by (induction t rule: skewT.induct) auto

lemma elems_splitT [simp]: "elems (splitT t) = elems t"
  by (induction t rule: splitT.induct) auto

definition frame :: "'a memory \<Rightarrow> 'a memory \<Rightarrow> addr set \<Rightarrow> bool" where
  "frame h h' A = (\<forall>a. a \<notin> A \<longrightarrow> h' a = h a)"

lemma skew_refines:
  assumes "rep h nl p t" "nil_ok h nl"
  shows "rep (fst (skew h p)) nl (snd (skew h p)) (skewT t) \<and> frame h (fst (skew h p)) (set (addrs t))"
proof (cases t)
  case Leaf
  with assms show ?thesis by (simp add: rep_def skew_def frame_def nil_ok_def)
next
  case outer: (Node l a lva x r)
  show ?thesis
  proof (cases l)
    case Leaf
    with outer assms show ?thesis by (auto simp: rep_def skew_def frame_def nil_ok_def)
  next
    case (Node ll b lvb y lr)
    with outer assms show ?thesis
      apply (clarsimp simp: rep_def skew_def frame_def nil_ok_def set_link_def Let_def)
      apply (intro conjI impI)
      apply (auto elim!: is_tree_frame dest: is_tree_nil_notin)
      done
  qed
qed

lemma split_refines:
  assumes "rep h nl p t" "nil_ok h nl"
  shows "rep (fst (split h p)) nl (snd (split h p)) (splitT t) \<and> frame h (fst (split h p)) (set (addrs t))"
proof (cases t)
  case Leaf
  with assms show ?thesis by (simp add: rep_def split_def frame_def nil_ok_def)
next
  case outer: (Node l a lva x r)
  show ?thesis
  proof (cases r)
    case Leaf
    with outer assms show ?thesis by (auto simp: rep_def split_def frame_def nil_ok_def)
  next
    case (Node rl b lvb y rr)
    with outer assms have "level (h (link (h b) True)) = lvl rr"
      by (auto simp: rep_def nil_ok_def intro: is_tree_level)
    with Node outer assms show ?thesis
      apply (clarsimp simp: rep_def split_def frame_def nil_ok_def set_link_def Let_def)
      apply (intro conjI impI)
      apply (auto elim!: is_tree_frame dest: is_tree_nil_notin)
      done
  qed
qed

fun ins_path :: "('a \<Rightarrow> 'a \<Rightarrow> int) \<Rightarrow> 'a \<Rightarrow> 'a atree \<Rightarrow> addr list" where
  "ins_path c x Leaf = []"
| "ins_path c x (Node l a lv y r) = a # (if c y x < 0 then ins_path c x r else ins_path c x l)"

fun ins_spot :: "('a \<Rightarrow> 'a \<Rightarrow> int) \<Rightarrow> 'a \<Rightarrow> 'a atree \<Rightarrow> addr \<times> bool" where
  "ins_spot c x Leaf = (0, False)"
| "ins_spot c x (Node l a lv y r) =
     (if c y x < 0 then (if r = Leaf then (a, True) else ins_spot c x r)
      else (if l = Leaf then (a, False) else ins_spot c x l))"

fun linkT :: "('a \<Rightarrow> 'a \<Rightarrow> int) \<Rightarrow> 'a \<Rightarrow> addr \<Rightarrow> 'a \<Rightarrow> 'a atree \<Rightarrow> 'a atree" where
  "linkT c x n s Leaf = Node Leaf n 1 s Leaf"
| "linkT c x n s (Node l a lv y r) =
     (if c y x < 0 then Node l a lv y (linkT c x n s r) else Node (linkT c x n s l) a lv y r)"

fun insT :: "('a \<Rightarrow> 'a \<Rightarrow> int) \<Rightarrow> 'a \<Rightarrow> addr \<Rightarrow> 'a \<Rightarrow> 'a atree \<Rightarrow> 'a atree" where
  "insT c x n s Leaf = Node Leaf n 1 s Leaf"
| "insT c x n s (Node l a lv y r) =
     (if c y x < 0 then splitT (skewT (Node l a lv y (insT c x n s r)))
      else splitT (skewT (Node (insT c x n s l) a lv y r)))"

lemma set_addrs_linkT [simp]: "set (addrs (linkT c x n s t)) = insert n (set (addrs t))"
  by (induction t) auto

lemma distinct_linkT: "distinct (addrs t) \<Longrightarrow> n \<notin> set (addrs t) \<Longrightarrow> distinct (addrs (linkT c x n s t))"
  by (induction t) auto

lemma addrs_insT [simp]: "addrs (insT c x n s t) = addrs (linkT c x n s t)"
  by (induction t) auto

lemma ainsert_descend_rep:
  "is_tree (heap tree) (nil tree) p t \<Longrightarrow> t \<noteq> Leaf \<Longrightarrow>
   ainsert_descend tree dat p pre =
     Some (pre @ ins_path (cmp tree) dat t, fst (ins_spot (cmp tree) dat t), snd (ins_spot (cmp tree) dat t))"
proof (induction t arbitrary: p pre)
  case Leaf
  then show ?case by simp
next
  case (Node l a lv y r)
  show ?case
  proof (cases "cmp tree y dat < 0")
    case True
    show ?thesis
    proof (cases "r = Leaf")
      case True
      with Node.prems \<open>cmp tree y dat < 0\<close> show ?thesis
        by (subst ainsert_descend.simps) simp
    next
      case False
      with Node.prems have "link (heap tree a) True \<noteq> nil tree"
        using is_tree_Leaf_iff by fastforce
      with Node.prems \<open>cmp tree y dat < 0\<close> False Node.IH(2)[of "link (heap tree a) True" "pre @ [a]"]
      show ?thesis
        by (subst ainsert_descend.simps) simp
    qed
  next
    case c: False
    show ?thesis
    proof (cases "l = Leaf")
      case True
      with Node.prems c show ?thesis
        by (subst ainsert_descend.simps) simp
    next
      case False
      with Node.prems have "link (heap tree a) False \<noteq> nil tree"
        using is_tree_Leaf_iff by fastforce
      with Node.prems c False Node.IH(1)[of "link (heap tree a) False" "pre @ [a]"]
      show ?thesis
        by (subst ainsert_descend.simps) simp
    qed
  qed
qed

lemma ins_spot_in: "t \<noteq> Leaf \<Longrightarrow> fst (ins_spot c x t) \<in> set (addrs t)"
  by (induction t) auto

lemma ins_spot_link:
  "is_tree h nl p t \<Longrightarrow> t \<noteq> Leaf \<Longrightarrow> link (h (fst (ins_spot c x t))) (snd (ins_spot c x t)) = nl"
  by (induction t arbitrary: p) auto

lemma link_rep:
  assumes "rep h nl p t" "t \<noteq> Leaf" "n \<notin> set (addrs t)" "n \<noteq> nl"
    and h2n: "h2 n = \<lparr>level = 1, data = Some s, link = (\<lambda>_. nl)\<rparr>"
    and h2it: "h2 (fst (ins_spot c x t)) = set_link (h (fst (ins_spot c x t))) (snd (ins_spot c x t)) n"
    and h2o: "\<And>b. b \<noteq> n \<Longrightarrow> b \<noteq> fst (ins_spot c x t) \<Longrightarrow> h2 b = h b"
  shows "rep h2 nl p (linkT c x n s t)"
  using assms(1-4) h2it h2o
proof (induction t arbitrary: p)
  case Leaf
  then show ?case by simp
next
  case (Node l a lv y r)
  let ?it = "fst (ins_spot c x (Node l a lv y r))"
  from Node.prems have d: "distinct (addrs (Node l a lv y r))" and it: "is_tree h nl p (Node l a lv y r)"
    by (auto simp: rep_def)
  have dl: "distinct (addrs (linkT c x n s (Node l a lv y r)))"
    using d Node.prems(3) by (rule distinct_linkT)
  have newn: "is_tree h2 nl n (Node Leaf n 1 s Leaf)"
    using Node.prems h2n by simp
  have itin: "?it \<in> set (addrs (Node l a lv y r))"
    using ins_spot_in[of "Node l a lv y r" c x] by simp
  show ?case
  proof (cases "c y x < 0")
    case True
    have nl_: "?it \<notin> set (addrs l)"
      using d True ins_spot_in[of r c x] by (auto split: if_splits)
    have lfr: "is_tree h2 nl (link (h a) False) l"
      apply (rule is_tree_frame[where h = h])
      using it apply simp
      apply (rule Node.prems(6))
      using Node.prems(3) nl_ by auto
    show ?thesis
    proof (cases "r = Leaf")
      case rl: True
      with True have sp: "ins_spot c x (Node l a lv y r) = (a, True)" by simp
      from Node.prems(5) sp have "h2 a = set_link (h a) True n" by simp
      with True rl it lfr newn dl Node.prems(4) show ?thesis
        by (auto simp: rep_def set_link_def)
    next
      case False
      with True have sp: "ins_spot c x (Node l a lv y r) = ins_spot c x r" by simp
      have ne: "fst (ins_spot c x r) \<noteq> a" using d ins_spot_in[OF False, of c x] by auto
      have "rep h2 nl (link (h a) True) (linkT c x n s r)"
        apply (rule Node.IH(2))
        using it d apply (simp add: rep_def)
        using False apply simp
        using Node.prems(3) apply simp
        using Node.prems(4) apply simp
        using Node.prems(5) sp apply simp
        using Node.prems(6) sp apply simp
        done
      moreover have "h2 a = h a" using Node.prems(6)[of a] Node.prems(3) sp ne by auto
      ultimately show ?thesis using True it lfr dl
        by (auto simp: rep_def)
    qed
  next
    case c: False
    have nr_: "?it \<notin> set (addrs r)"
      using d c ins_spot_in[of l c x] by (auto split: if_splits)
    have rfr: "is_tree h2 nl (link (h a) True) r"
      apply (rule is_tree_frame[where h = h])
      using it apply simp
      apply (rule Node.prems(6))
      using Node.prems(3) nr_ by auto
    show ?thesis
    proof (cases "l = Leaf")
      case ll: True
      with c have sp: "ins_spot c x (Node l a lv y r) = (a, False)" by simp
      from Node.prems(5) sp have "h2 a = set_link (h a) False n" by simp
      with c ll it rfr newn dl Node.prems(4) show ?thesis
        by (auto simp: rep_def set_link_def)
    next
      case False
      with c have sp: "ins_spot c x (Node l a lv y r) = ins_spot c x l" by simp
      have ne: "fst (ins_spot c x l) \<noteq> a" using d ins_spot_in[OF False, of c x] by auto
      have "rep h2 nl (link (h a) False) (linkT c x n s l)"
        apply (rule Node.IH(1))
        using it d apply (simp add: rep_def)
        using False apply simp
        using Node.prems(3) apply simp
        using Node.prems(4) apply simp
        using Node.prems(5) sp apply simp
        using Node.prems(6) sp apply simp
        done
      moreover have "h2 a = h a" using Node.prems(6)[of a] Node.prems(3) sp ne by auto
      ultimately show ?thesis using c it rfr dl
        by (auto simp: rep_def)
    qed
  qed
qed

lemma frame_trans: "frame h h1 A \<Longrightarrow> frame h1 h2 B \<Longrightarrow> A \<subseteq> C \<Longrightarrow> B \<subseteq> C \<Longrightarrow> frame h h2 C"
  unfolding frame_def by (metis subsetD)

lemma frame_refl: "frame h h A"
  by (simp add: frame_def)

lemma frame_mono: "frame h h' A \<Longrightarrow> A \<subseteq> B \<Longrightarrow> frame h h' B"
  by (auto simp: frame_def)

lemma frame_upd: "frame h h' A \<Longrightarrow> a \<in> A \<Longrightarrow> frame h (h'(a := v)) A"
  by (auto simp: frame_def)

lemma frame_nil_ok: "frame h h' A \<Longrightarrow> nl \<notin> A \<Longrightarrow> nil_ok h nl \<Longrightarrow> nil_ok h' nl"
  by (auto simp: frame_def nil_ok_def)

lemma rep_frame: "rep h nl p t \<Longrightarrow> frame h h' A \<Longrightarrow> A \<inter> set (addrs t) = {} \<Longrightarrow> rep h' nl p t"
  unfolding rep_def frame_def by (blast intro: is_tree_frame)

lemma rep_nil_notin: "rep h nl p t \<Longrightarrow> nl \<notin> set (addrs t)"
  by (auto simp: rep_def dest: is_tree_nil_notin)

lemma ainsert_rebalance_take:
  "take k path = take k path' \<Longrightarrow> ainsert_rebalance tree path k = ainsert_rebalance tree path' k"
proof (induction k arbitrary: tree path path')
  case 0
  show ?case by simp
next
  case (Suc k)
  have e1: "path ! k = path' ! k"
    using Suc.prems by (metis lessI nth_take)
  have e2: "path ! (k - Suc 0) = path' ! (k - Suc 0)"
    using Suc.prems by (metis diff_le_self le_imp_less_Suc nth_take)
  have "take k path = take k path'"
    using Suc.prems by (metis le_add2 min.absorb1 plus_1_eq_Suc take_take)
  then have t: "\<And>v. take k (path[k := v]) = take k (path'[k := v])"
    by simp
  show ?case
    by (auto simp: e1 e2 Let_def split: prod.splits intro!: Suc.IH t)
qed

text \<open>One iteration of the loop, on a node whose subtree is represented.\<close>

lemma ainsert_rebalance_step:
  assumes "rep (heap tree) nl a T" "nil_ok (heap tree) nl"
    and "take (Suc (length pre)) path = pre @ [a]"
  shows "\<exists>h' p'. rep h' nl p' (splitT (skewT T)) \<and> frame (heap tree) h' (set (addrs T)) \<and>
      ainsert_rebalance tree path (Suc (length pre)) =
      ainsert_rebalance
        (if pre = [] then tree\<lparr>heap := h', root := p'\<rparr>
         else tree\<lparr>heap := h'(last pre :=
                 set_link (h' (last pre)) (link (heap tree (last pre)) True = a) p')\<rparr>)
        path (length pre)"
proof -
  obtain h1 p1 where sk: "skew (heap tree) a = (h1, p1)" by (cases "skew (heap tree) a")
  obtain h2 p2 where sp: "split h1 p1 = (h2, p2)" by (cases "split h1 p1")
  from skew_refines[OF assms(1,2)] sk
  have r1: "rep h1 nl p1 (skewT T)" and f1: "frame (heap tree) h1 (set (addrs T))" by auto
  have n1: "nil_ok h1 nl"
    by (rule frame_nil_ok[OF f1 rep_nil_notin[OF assms(1)] assms(2)])
  from split_refines[OF r1 n1] sp
  have r2: "rep h2 nl p2 (splitT (skewT T))" and f2: "frame h1 h2 (set (addrs T))" by auto
  have f: "frame (heap tree) h2 (set (addrs T))"
    using f1 f2 by (rule frame_trans) auto
  have pa: "path ! length pre = a"
    using assms(3) by (metis lessI nth_append_length nth_take)
  have pl: "path ! (length pre - 1) = last pre" if "pre \<noteq> []"
  proof -
    have "path ! (length pre - 1) = (pre @ [a]) ! (length pre - 1)"
      using assms(3) that by (metis diff_less length_greater_0_conv less_SucI nth_take zero_less_one)
    then show ?thesis using that by (simp add: nth_append last_conv_nth)
  qed
  have "ainsert_rebalance tree path (Suc (length pre)) =
      ainsert_rebalance
        (if pre = [] then tree\<lparr>heap := h2, root := p2\<rparr>
         else tree\<lparr>heap := h2(last pre :=
                 set_link (h2 (last pre)) (link (heap tree (last pre)) True = a) p2)\<rparr>)
        (path[length pre := p2]) (length pre)"
    using sk sp pa pl by (auto simp: Let_def)
  also have "\<dots> = ainsert_rebalance
        (if pre = [] then tree\<lparr>heap := h2, root := p2\<rparr>
         else tree\<lparr>heap := h2(last pre :=
                 set_link (h2 (last pre)) (link (heap tree (last pre)) True = a) p2)\<rparr>)
        path (length pre)"
    by (rule ainsert_rebalance_take) simp
  finally show ?thesis using r2 f by blast
qed

lemma top_addr_in: "t \<noteq> Leaf \<Longrightarrow> top_addr nl t \<in> set (addrs t)"
  by (cases t) auto

lemma linkT_not_Leaf [simp]: "linkT c x n s t \<noteq> Leaf"
  by (cases t) auto

lemma top_addr_linkT: "t \<noteq> Leaf \<Longrightarrow> top_addr nl (linkT c x n s t) = top_addr nl t"
  by (cases t) auto

lemma ainsert_rebalance_sub:
  assumes "rep (heap tree) nl p (linkT c x n s t)" "t \<noteq> Leaf" "nil_ok (heap tree) nl"
    and "take (length pre + length (ins_path c x t)) path = pre @ ins_path c x t"
    and "pre \<noteq> [] \<Longrightarrow> last pre \<notin> set (addrs (linkT c x n s t))"
  shows "\<exists>h' p'. rep h' nl p' (insT c x n s t) \<and>
      frame (heap tree) h' (set (addrs (linkT c x n s t))) \<and>
      ainsert_rebalance tree path (length pre + length (ins_path c x t)) =
      ainsert_rebalance
        (if pre = [] then tree\<lparr>heap := h', root := p'\<rparr>
         else tree\<lparr>heap := h'(last pre :=
                 set_link (h' (last pre)) (link (heap tree (last pre)) True = p) p')\<rparr>)
        path (length pre)"
  using assms
proof (induction t arbitrary: p pre tree path)
  case Leaf
  then show ?case by simp
next
  case (Node l a lv y r)
  let ?t = "Node l a lv y r"
  let ?d = "c y x < 0"
  let ?ch = "if ?d then r else l"
  let ?T = "if ?d then Node l a lv y (insT c x n s r) else Node (insT c x n s l) a lv y r"
  have pa: "p = a" using Node.prems(1) by (auto simp: rep_def split: if_splits)
  have dist: "distinct (addrs (linkT c x n s ?t))" using Node.prems(1) by (simp add: rep_def)
  have addrsT: "set (addrs ?T) = set (addrs (linkT c x n s ?t))" by auto
  have insT_eq: "insT c x n s ?t = splitT (skewT ?T)" by simp
  have tk: "take (Suc (length pre)) path = pre @ [a]"
  proof -
    have "take (Suc (length pre)) path =
          take (Suc (length pre)) (take (length pre + length (ins_path c x ?t)) path)"
      by (simp add: min_def)
    also have "\<dots> = take (Suc (length pre)) (pre @ ins_path c x ?t)"
      using Node.prems(4) by simp
    also have "\<dots> = pre @ [a]" by simp
    finally show ?thesis .
  qed
  have main: "\<exists>h1. rep h1 nl a ?T \<and> nil_ok h1 nl \<and>
        frame (heap tree) h1 (set (addrs (linkT c x n s ?t))) \<and>
        ainsert_rebalance tree path (length pre + length (ins_path c x ?t)) =
        ainsert_rebalance (tree\<lparr>heap := h1\<rparr>) path (Suc (length pre))"
  proof (cases "?ch = Leaf")
    case True
    then have "ins_path c x ?t = [a]" and "linkT c x n s ?t = ?T"
      by (auto split: if_splits)
    then show ?thesis
      using Node.prems(1,3) pa by (intro exI[of _ "heap tree"]) (simp add: frame_refl)
  next
    case False
    let ?q = "top_addr nl ?ch"
    have lk: "link (heap tree a) ?d = ?q"
      using Node.prems(1) False
      by (auto simp: rep_def top_addr_linkT dest!: is_tree_top split: if_splits)
    have dirq: "(link (heap tree a) True = ?q) = ?d"
    proof (cases ?d)
      case True
      then show ?thesis using lk by simp
    next
      case nd: False
      then have l: "l \<noteq> Leaf" using False by simp
      from nd Node.prems(1) have itr: "is_tree (heap tree) nl (link (heap tree a) True) r"
        and itl: "is_tree (heap tree) nl (link (heap tree a) False) (linkT c x n s l)"
        by (auto simp: rep_def)
      have "top_addr nl l \<in> set (addrs l)" using l by (rule top_addr_in)
      moreover have "link (heap tree a) True \<notin> set (addrs l)"
      proof (cases "r = Leaf")
        case True
        with itr have "link (heap tree a) True = nl" by simp
        then show ?thesis using itl is_tree_nil_notin by fastforce
      next
        case False
        then have "link (heap tree a) True \<in> set (addrs r)"
          using itr is_tree_top top_addr_in by metis
        then show ?thesis using dist nd by auto
      qed
      ultimately show ?thesis using nd by auto
    qed
    have repch: "rep (heap tree) nl ?q (linkT c x n s ?ch)"
      using Node.prems(1) lk by (auto simp: rep_def split: if_splits)
    have chsub: "set (addrs (linkT c x n s ?ch)) \<subseteq> set (addrs (linkT c x n s ?t))"
      by auto
    have anot: "a \<notin> set (addrs (linkT c x n s ?ch))"
      using dist by (auto split: if_splits)
    have tk': "take (length (pre @ [a]) + length (ins_path c x ?ch)) path = (pre @ [a]) @ ins_path c x ?ch"
      using Node.prems(4) by (auto split: if_splits)
    have ih: "\<exists>h' p'. rep h' nl p' (insT c x n s ?ch) \<and>
      frame (heap tree) h' (set (addrs (linkT c x n s ?ch))) \<and>
      ainsert_rebalance tree path (length (pre @ [a]) + length (ins_path c x ?ch)) =
      ainsert_rebalance
        (if pre @ [a] = [] then tree\<lparr>heap := h', root := p'\<rparr>
         else tree\<lparr>heap := h'(last (pre @ [a]) :=
                 set_link (h' (last (pre @ [a]))) (link (heap tree (last (pre @ [a]))) True = ?q) p')\<rparr>)
        path (length (pre @ [a]))"
    proof (cases ?d)
      case True
      show ?thesis
        using Node.IH(2)[of tree ?q "pre @ [a]" path] repch False Node.prems(3) tk' anot True
        by simp
    next
      case nd: False
      show ?thesis
        using Node.IH(1)[of tree ?q "pre @ [a]" path] repch False Node.prems(3) tk' anot nd
        by simp
    qed
    then obtain h' p' where r': "rep h' nl p' (insT c x n s ?ch)"
      and f': "frame (heap tree) h' (set (addrs (linkT c x n s ?ch)))"
      and e': "ainsert_rebalance tree path (length pre + length (ins_path c x ?t)) =
        ainsert_rebalance (tree\<lparr>heap := h'(a := set_link (h' a) ?d p')\<rparr>) path (Suc (length pre))"
      using dirq by (auto split: if_splits)
    let ?h1 = "h'(a := set_link (h' a) ?d p')"
    have ha: "h' a = heap tree a" using f' anot by (simp add: frame_def)
    have fr1: "frame (heap tree) ?h1 (set (addrs (linkT c x n s ?t)))"
      by (rule frame_upd[OF frame_mono[OF f' chsub]]) auto
    have nl1: "nil_ok ?h1 nl"
      by (rule frame_nil_ok[OF fr1 rep_nil_notin[OF Node.prems(1)] Node.prems(3)])
    have ch1: "is_tree ?h1 nl p' (insT c x n s ?ch)"
      apply (rule is_tree_frame[where h = h'])
      using r' apply (simp add: rep_def)
      using anot by auto
    have oth: "is_tree ?h1 nl (link (heap tree a) (\<not> ?d)) (if ?d then l else r)"
      apply (rule is_tree_frame[where h = "heap tree"])
      using Node.prems(1) apply (auto simp: rep_def split: if_splits)[1]
      using f' dist by (auto simp: frame_def split: if_splits)
    have "rep ?h1 nl a ?T"
      using ch1 oth Node.prems(1) dist ha pa
      by (auto simp: rep_def set_link_def split: if_splits)
    then show ?thesis using nl1 fr1 e' by blast
  qed
  then obtain h1 where r1: "rep h1 nl a ?T" and n1: "nil_ok h1 nl"
    and f1: "frame (heap tree) h1 (set (addrs (linkT c x n s ?t)))"
    and e1: "ainsert_rebalance tree path (length pre + length (ins_path c x ?t)) =
        ainsert_rebalance (tree\<lparr>heap := h1\<rparr>) path (Suc (length pre))"
    by blast
  have lp: "h1 (last pre) = heap tree (last pre)" if "pre \<noteq> []"
    using f1 Node.prems(5)[OF that] by (simp add: frame_def)
  from ainsert_rebalance_step[of "tree\<lparr>heap := h1\<rparr>" nl a ?T pre path] r1 n1 tk
  obtain h2 p2 where r2: "rep h2 nl p2 (splitT (skewT ?T))"
    and f2: "frame h1 h2 (set (addrs ?T))"
    and e2: "ainsert_rebalance (tree\<lparr>heap := h1\<rparr>) path (Suc (length pre)) =
      ainsert_rebalance
        (if pre = [] then tree\<lparr>heap := h2, root := p2\<rparr>
         else tree\<lparr>heap := h2(last pre :=
                 set_link (h2 (last pre)) (link (h1 (last pre)) True = a) p2)\<rparr>)
        path (length pre)"
    by auto
  have f: "frame (heap tree) h2 (set (addrs (linkT c x n s ?t)))"
    using f1 f2 unfolding addrsT frame_def by metis
  show ?case
    apply (rule exI[of _ h2], rule exI[of _ p2])
    using r2 f e1 e2 lp pa insT_eq by (auto simp del: insT.simps linkT.simps)
qed

lemma jsw_ainsert_refines:
  assumes r: "rep (heap tree) (nil tree) (root tree) t" and nk: "nil_ok (heap tree) (nil tree)"
    and n1: "n \<notin> set (addrs t)" and n2: "n \<noteq> nil tree"
  shows "\<exists>tree'. jsw_ainsert tree dat (Some n) = Some (1, tree') \<and>
      rep (heap tree') (nil tree) (root tree') (insT (cmp tree) dat n (dup tree dat) t) \<and>
      nil_ok (heap tree') (nil tree) \<and>
      frame (heap tree) (heap tree') (insert n (set (addrs t))) \<and>
      nil tree' = nil tree \<and> cmp tree' = cmp tree \<and> dup tree' = dup tree \<and>
      tsize tree' = tsize tree + 1 \<and> live tree' = insert n (live tree) \<and>
      released tree' = released tree"
proof (cases "t = Leaf")
  case True
  with r have "root tree = nil tree" by (simp add: rep_def)
  with True nk n2 show ?thesis
    by (simp add: jsw_ainsert_def new_node_def rep_def nil_ok_def frame_def)
next
  case False
  let ?c = "cmp tree" and ?s = "dup tree dat" and ?nl = "nil tree"
  obtain it dir where sp: "ins_spot ?c dat t = (it, dir)" by (cases "ins_spot ?c dat t")
  let ?path = "ins_path ?c dat t"
  let ?h1 = "(heap tree)(n := \<lparr>level = 1, data = Some ?s, link = (\<lambda>_. ?nl)\<rparr>)"
  let ?h2 = "?h1(it := set_link (?h1 it) dir n)"
  define tree2 where "tree2 = tree\<lparr>live := insert n (live tree), heap := ?h2\<rparr>"
  have t2: "heap tree2 = ?h2" "nil tree2 = nil tree" "cmp tree2 = cmp tree" "dup tree2 = dup tree"
    "tsize tree2 = tsize tree" "live tree2 = insert n (live tree)" "released tree2 = released tree"
    by (simp_all add: tree2_def)
  from r False have rn: "root tree \<noteq> nil tree"
    using is_tree_Leaf_iff by (fastforce simp: rep_def)
  have desc: "ainsert_descend tree dat (root tree) [] = Some (?path, it, dir)"
    using ainsert_descend_rep[of tree "root tree" t dat "[]"] r False sp by (simp add: rep_def)
  have itin: "it \<in> set (addrs t)" using ins_spot_in[OF False, of ?c dat] sp by simp
  then have itn: "it \<noteq> n" using n1 by auto
  have r2: "rep ?h2 ?nl (root tree) (linkT ?c dat n ?s t)"
    by (rule link_rep[OF r False n1 n2]) (use itn sp in auto)
  have f2: "frame (heap tree) ?h2 (insert n (set (addrs t)))"
    using itin by (auto simp: frame_def)
  have nk2: "nil_ok ?h2 ?nl"
    by (rule frame_nil_ok[OF f2 _ nk]) (use n2 rep_nil_notin[OF r] in auto)
  from ainsert_rebalance_sub[of tree2 ?nl "root tree" ?c dat n ?s t "[]" ?path] r2 False nk2
  obtain h' p' where r': "rep h' ?nl p' (insT ?c dat n ?s t)"
    and f': "frame ?h2 h' (set (addrs (linkT ?c dat n ?s t)))"
    and e': "ainsert_rebalance tree2 ?path (length ?path) = tree2\<lparr>heap := h', root := p'\<rparr>"
    by (auto simp: t2)
  have f: "frame (heap tree) h' (insert n (set (addrs t)))"
    using f2 f' unfolding frame_def by (metis set_addrs_linkT)
  have nk': "nil_ok h' ?nl"
    by (rule frame_nil_ok[OF f _ nk]) (use n2 rep_nil_notin[OF r] in auto)
  have lk: "link (?h2 it) dir = n" using itn by (simp add: set_link_def)
  have "jsw_ainsert tree dat (Some n) =
      Some (1, (ainsert_rebalance tree2 ?path (length ?path))
                 \<lparr>tsize := tsize (ainsert_rebalance tree2 ?path (length ?path)) + 1\<rparr>)"
    using rn desc lk n2 itn
    by (simp add: jsw_ainsert_def new_node_def Let_def tree2_def)
  then show ?thesis using r' nk' f by (simp add: e' t2)
qed

lemma jsw_ainsert_fails:
  assumes r: "rep (heap tree) (nil tree) (root tree) t"
  shows "jsw_ainsert tree dat None = Some (0, tree)"
proof (cases "t = Leaf")
  case True
  with r have "root tree = nil tree" by (simp add: rep_def)
  then show ?thesis
    by (simp add: jsw_ainsert_def new_node_def)
next
  case False
  from r False have rn: "root tree \<noteq> nil tree"
    using is_tree_Leaf_iff by (fastforce simp: rep_def)
  obtain it dir where sp: "ins_spot (cmp tree) dat t = (it, dir)"
    by (cases "ins_spot (cmp tree) dat t")
  have desc: "ainsert_descend tree dat (root tree) [] = Some (ins_path (cmp tree) dat t, it, dir)"
    using ainsert_descend_rep[of tree "root tree" t dat "[]"] r False sp by (simp add: rep_def)
  have lk: "link (heap tree it) dir = nil tree"
    using r False sp ins_spot_link[of "heap tree" "nil tree" "root tree" t "cmp tree" dat]
    by (auto simp: rep_def)
  then have "(heap tree)(it := set_link (heap tree it) dir (nil tree)) = heap tree"
    by (auto simp: set_link_def fun_eq_iff)
  then show ?thesis
    using rn desc lk by (simp add: jsw_ainsert_def new_node_def Let_def set_link_def)
qed

fun rightT :: "'a atree \<Rightarrow> 'a atree" where
  "rightT Leaf = Leaf"
| "rightT (Node l a lv x r) = r"

fun invar :: "'a atree \<Rightarrow> bool" where
  "invar Leaf = True"
| "invar (Node l a lv x r) =
     (invar l \<and> invar r \<and> lvl l = lv - 1 \<and>
      (lvl r = lv - 1 \<or> (lvl r = lv \<and> lvl (rightT r) = lv - 1)))"

fun sngl :: "'a atree \<Rightarrow> bool" where
  "sngl Leaf = False"
| "sngl (Node l a lv x r) = (lvl r < lv)"

lemma invar_lvl_nonneg: "invar t \<Longrightarrow> 0 \<le> lvl t"
  by (induction t) auto

lemma invar_lvl_pos: "invar (Node l a lv x r) \<Longrightarrow> 1 \<le> lv"
  using invar_lvl_nonneg[of l] by auto

lemma invar_lvl_0: "invar t \<Longrightarrow> lvl t = 0 \<longleftrightarrow> t = Leaf"
proof (cases t)
  case Leaf
  then show ?thesis by simp
next
  case (Node l a lv x r)
  assume "invar t"
  with Node have "invar (Node l a lv x r)" by simp
  then have "1 \<le> lv" by (rule invar_lvl_pos)
  with Node show ?thesis by simp
qed

lemma skewT_invar: "invar t \<Longrightarrow> skewT t = t"
  by (cases t rule: skewT.cases) auto

lemma splitT_invar: "invar t \<Longrightarrow> splitT t = t"
proof (cases t rule: splitT.cases)
  case (1 l a lva x rl b lvb y rr)
  assume "invar t"
  with 1 show ?thesis by auto
qed auto

definition grows :: "'a atree \<Rightarrow> 'a atree \<Rightarrow> bool" where
  "grows t t' = (lvl t' = lvl t \<or> (lvl t' = lvl t + 1 \<and> sngl t' \<and> \<not> sngl t))"

fun map_right :: "('a atree \<Rightarrow> 'a atree) \<Rightarrow> 'a atree \<Rightarrow> 'a atree" where
  "map_right f Leaf = Leaf"
| "map_right f (Node l a lv x r) = Node l a lv x (f r)"

fun set_lvl :: "int \<Rightarrow> 'a atree \<Rightarrow> 'a atree" where
  "set_lvl k Leaf = Leaf"
| "set_lvl k (Node l a lv x r) = Node l a k x r"

fun fixT :: "'a atree \<Rightarrow> 'a atree" where
  "fixT Leaf = Leaf"
| "fixT (Node l a lv x r) =
     (if lvl l < lv - 1 \<or> lvl r < lv - 1 then
        map_right splitT (splitT (map_right (map_right skewT) (map_right skewT
          (skewT (Node l a (lv - 1) x (if lvl r > lv - 1 then set_lvl (lv - 1) r else r))))))
      else Node l a lv x r)"

fun pos :: "'a atree \<Rightarrow> bool" where
  "pos Leaf = True"
| "pos (Node l a lv x r) = (1 \<le> lv \<and> pos l \<and> pos r)"

lemma pos_lvl: "pos t \<Longrightarrow> 0 \<le> lvl t"
  by (cases t) auto

lemma addrs_map_right [simp]: "(\<And>s. addrs (f s) = addrs s) \<Longrightarrow> addrs (map_right f t) = addrs t"
  by (cases t) auto

lemma addrs_set_lvl [simp]: "addrs (set_lvl k t) = addrs t"
  by (cases t) auto

lemma addrs_fixT [simp]: "addrs (fixT t) = addrs t"
  by (cases t) (auto simp del: skewT.simps splitT.simps)

lemma elems_map_right [simp]: "(\<And>s. elems (f s) = elems s) \<Longrightarrow> elems (map_right f t) = elems t"
  by (cases t) auto

lemma elems_set_lvl [simp]: "elems (set_lvl k t) = elems t"
  by (cases t) auto

lemma elems_fixT [simp]: "elems (fixT t) = elems t"
  by (cases t) (auto simp del: skewT.simps splitT.simps)

lemma set_link_same [simp]: "set_link n d (link n d) = n"
  by (simp add: set_link_def)

lemma set_link_id: "link (h a) d = x \<Longrightarrow> h(a := set_link (h a) d x) = h"
  by (auto simp: set_link_def fun_eq_iff)

lemma skew_nil: "nil_ok h nl \<Longrightarrow> skew h nl = (h, nl)"
  by (simp add: skew_def nil_ok_def)

lemma split_nil: "nil_ok h nl \<Longrightarrow> split h nl = (h, nl)"
  by (simp add: split_def nil_ok_def)

lemma rep_Node_right:
  assumes "rep h nl p (Node l a lv y r)" "rep h1 nl s r'" "frame h h1 (set (addrs r))"
    and "set (addrs r') = set (addrs r)"
  shows "rep (h1(a := set_link (h1 a) True s)) nl p (Node l a lv y r')"
proof -
  from assms(1) have pa: "p = a" and d: "distinct (addrs (Node l a lv y r))"
    and il: "is_tree h nl (link (h a) False) l" and ha: "a \<noteq> nl" "level (h a) = lv" "data (h a) = Some y"
    by (auto simp: rep_def)
  have h1a: "h1 a = h a" using assms(3) d by (simp add: frame_def)
  have "is_tree (h1(a := set_link (h1 a) True s)) nl (link (h a) False) l"
    apply (rule is_tree_frame[OF il])
    using assms(3) d by (auto simp: frame_def)
  moreover have "is_tree (h1(a := set_link (h1 a) True s)) nl s r'"
    apply (rule is_tree_frame[where h = h1])
    using assms(2) apply (simp add: rep_def)
    using assms(4) d by auto
  moreover have "distinct (addrs (Node l a lv y r'))"
    using d assms(2,4) by (auto simp: rep_def)
  ultimately show ?thesis using pa ha h1a by (simp add: rep_def set_link_def)
qed

lemma skew_at_refines:
  assumes "rep h nl p t" "nil_ok h nl"
  shows "rep (skew_at h p True) nl p (map_right skewT t) \<and> frame h (skew_at h p True) (set (addrs t))"
proof (cases t)
  case Leaf
  with assms have "p = nl" by (simp add: rep_def)
  moreover from assms(2) have "link (h nl) True = nl" by (simp add: nil_ok_def)
  ultimately have "skew_at h p True = h"
    using skew_nil[OF assms(2)] by (simp add: skew_at_def set_link_id)
  with Leaf assms show ?thesis by (simp add: frame_refl)
next
  case (Node l a lv y r)
  with assms have pa: "p = a" and rr: "rep h nl (link (h a) True) r"
    by (auto simp: rep_def)
  obtain h1 s where sk: "skew h (link (h a) True) = (h1, s)" by (cases "skew h (link (h a) True)")
  from skew_refines[OF rr assms(2)] sk have r1: "rep h1 nl s (skewT r)" and f1: "frame h h1 (set (addrs r))"
    by auto
  have e: "skew_at h p True = h1(a := set_link (h1 a) True s)"
    using sk pa by (simp add: skew_at_def)
  have "rep (h1(a := set_link (h1 a) True s)) nl p (Node l a lv y (skewT r))"
    by (rule rep_Node_right[OF _ r1 f1]) (use assms Node in auto)
  moreover have "frame h (h1(a := set_link (h1 a) True s)) (set (addrs t))"
    using f1 Node by (auto simp: frame_def)
  ultimately show ?thesis using e Node by simp
qed

lemma split_at_refines:
  assumes "rep h nl p t" "nil_ok h nl"
  shows "rep (split_at h p True) nl p (map_right splitT t) \<and> frame h (split_at h p True) (set (addrs t))"
proof (cases t)
  case Leaf
  with assms have "p = nl" by (simp add: rep_def)
  moreover from assms(2) have "link (h nl) True = nl" by (simp add: nil_ok_def)
  ultimately have "split_at h p True = h"
    using split_nil[OF assms(2)] by (simp add: split_at_def set_link_id)
  with Leaf assms show ?thesis by (simp add: frame_refl)
next
  case (Node l a lv y r)
  with assms have pa: "p = a" and rr: "rep h nl (link (h a) True) r"
    by (auto simp: rep_def)
  obtain h1 s where sk: "split h (link (h a) True) = (h1, s)" by (cases "split h (link (h a) True)")
  from split_refines[OF rr assms(2)] sk have r1: "rep h1 nl s (splitT r)" and f1: "frame h h1 (set (addrs r))"
    by auto
  have e: "split_at h p True = h1(a := set_link (h1 a) True s)"
    using sk pa by (simp add: split_at_def)
  have "rep (h1(a := set_link (h1 a) True s)) nl p (Node l a lv y (splitT r))"
    by (rule rep_Node_right[OF _ r1 f1]) (use assms Node in auto)
  moreover have "frame h (h1(a := set_link (h1 a) True s)) (set (addrs t))"
    using f1 Node by (auto simp: frame_def)
  ultimately show ?thesis using e Node by simp
qed

lemma skew_at_right_refines:
  assumes "rep h nl p t" "nil_ok h nl"
  shows "rep (skew_at h (link (h p) True) True) nl p (map_right (map_right skewT) t) \<and>
         frame h (skew_at h (link (h p) True) True) (set (addrs t))"
proof (cases t)
  case Leaf
  with assms have "p = nl" by (simp add: rep_def)
  moreover from assms(2) have "link (h nl) True = nl" by (simp add: nil_ok_def)
  ultimately have "skew_at h (link (h p) True) True = h"
    using skew_nil[OF assms(2)] by (simp add: skew_at_def set_link_id)
  with Leaf assms show ?thesis by (simp add: frame_refl)
next
  case (Node l a lv y r)
  with assms have pa: "p = a" and rr: "rep h nl (link (h a) True) r"
    by (auto simp: rep_def)
  let ?q = "link (h a) True" and ?h' = "skew_at h (link (h a) True) True"
  from skew_at_refines[OF rr assms(2)]
  have r1: "rep ?h' nl ?q (map_right skewT r)" and f1: "frame h ?h' (set (addrs r))"
    by auto
  from assms Node have "a \<notin> set (addrs r)" by (auto simp: rep_def)
  then have ha: "?h' a = h a" using f1 by (simp add: frame_def)
  have "rep (?h'(a := set_link (?h' a) True ?q)) nl p (Node l a lv y (map_right skewT r))"
    by (rule rep_Node_right[OF _ r1 f1]) (use assms Node in auto)
  moreover have "?h'(a := set_link (?h' a) True ?q) = ?h'"
    using ha by (simp add: fun_upd_idem_iff)
  moreover have "frame h ?h' (set (addrs t))"
    using f1 Node by (auto simp: frame_def)
  ultimately show ?thesis using pa Node by simp
qed

lemma rep_Node_right_same:
  assumes "rep h nl p (Node l a lv y r)" "rep h1 nl (link (h a) True) r'" "frame h h1 (set (addrs r))"
    and "set (addrs r') = set (addrs r)"
  shows "rep h1 nl p (Node l a lv y r')"
proof -
  from assms(1) have "a \<notin> set (addrs r)" by (auto simp: rep_def)
  then have "h1 a = h a" using assms(3) by (simp add: frame_def)
  then have "h1(a := set_link (h1 a) True (link (h a) True)) = h1"
    by (metis set_link_id)
  with rep_Node_right[OF assms] show ?thesis by simp
qed

lemma rep_set_lvl:
  assumes "rep h nl p t" "t \<noteq> Leaf"
  shows "rep (h(p := (h p)\<lparr>level := k\<rparr>)) nl p (set_lvl k t)"
proof -
  from assms obtain l a lv x r where t: "t = Node l a lv x r" by (cases t) auto
  with assms have pa: "p = a" and d: "distinct (addrs (Node l a lv x r))"
    and il: "is_tree h nl (link (h a) False) l" and ir: "is_tree h nl (link (h a) True) r"
    and ha: "a \<noteq> nl" "data (h a) = Some x"
    by (auto simp: rep_def)
  have "is_tree (h(a := (h a)\<lparr>level := k\<rparr>)) nl (link (h a) False) l"
    by (rule is_tree_frame[OF il]) (use d in auto)
  moreover have "is_tree (h(a := (h a)\<lparr>level := k\<rparr>)) nl (link (h a) True) r"
    by (rule is_tree_frame[OF ir]) (use d in auto)
  ultimately show ?thesis using t pa d ha by (simp add: rep_def)
qed

lemma aerase_fix_refines:
  assumes "rep h nl p t" "nil_ok h nl" "pos t"
  shows "rep (fst (aerase_fix h p)) nl (snd (aerase_fix h p)) (fixT t) \<and>
         frame h (fst (aerase_fix h p)) (set (addrs t))"
proof (cases t)
  case Leaf
  with assms show ?thesis
    by (simp add: rep_def aerase_fix_def nil_ok_def frame_refl)
next
  case (Node l a lv x r)
  with assms have pa: "p = a" and anl: "a \<noteq> nl" and lva: "level (h a) = lv"
    and il: "is_tree h nl (link (h a) False) l" and ir: "is_tree h nl (link (h a) True) r"
    and d: "distinct (addrs (Node l a lv x r))"
    by (auto simp: rep_def)
  have n0: "level (h nl) = 0" using assms(2) by (simp add: nil_ok_def)
  have ll: "level (h (link (h a) False)) = lvl l" using il n0 by (rule is_tree_level)
  have lr: "level (h (link (h a) True)) = lvl r" using ir n0 by (rule is_tree_level)
  let ?A = "set (addrs t)"
  have nlA: "nl \<notin> ?A" using assms(1) by (rule rep_nil_notin)
  show ?thesis
  proof (cases "lvl l < lv - 1 \<or> lvl r < lv - 1")
    case False
    then show ?thesis using assms Node pa lva ll lr
      by (auto simp: aerase_fix_def frame_refl)
  next
    case True
    from assms(3) Node have "0 \<le> lvl l" "0 \<le> lvl r" by (auto intro: pos_lvl)
    with True have lv2: "2 \<le> lv" by auto
    let ?h1 = "h(a := (h a)\<lparr>level := level (h a) - 1\<rparr>)"
    let ?q = "link (?h1 a) True"
    have q: "?q = link (h a) True" by simp
    have r1: "rep ?h1 nl a (Node l a (lv - 1) x r)"
      using rep_set_lvl[OF assms(1), of "lv - 1"] Node pa lva by simp
    have f1: "frame h ?h1 ?A" using Node by (simp add: frame_def)
    have qa: "?q \<noteq> a"
    proof (cases "r = Leaf")
      case True
      with ir anl show ?thesis by auto
    next
      case False
      then have "link (h a) True \<in> set (addrs r)" using ir is_tree_top top_addr_in by metis
      then show ?thesis using d by auto
    qed
    let ?up = "lvl r > lv - 1"
    let ?h2 = "if level (?h1 ?q) > level (?h1 a) then ?h1(?q := (?h1 ?q)\<lparr>level := level (?h1 a)\<rparr>) else ?h1"
    let ?r2 = "if ?up then set_lvl (lv - 1) r else r"
    let ?T2 = "Node l a (lv - 1) x ?r2"
    have cnd: "(level (?h1 ?q) > level (?h1 a)) = ?up"
      using qa lr lva by simp
    have rq1: "rep ?h1 nl ?q r" using r1 by (auto simp: rep_def)
    have r2: "rep ?h2 nl a ?T2"
    proof (cases ?up)
      case False
      then show ?thesis using r1 cnd by simp
    next
      case up: True
      then have rn: "r \<noteq> Leaf" using lv2 by auto
      have a1: "rep (?h1(?q := (?h1 ?q)\<lparr>level := lv - 1\<rparr>)) nl ?q (set_lvl (lv - 1) r)"
        using rep_set_lvl[OF rq1 rn] .
      have "link (h a) True \<in> set (addrs r)" using rn ir is_tree_top top_addr_in by metis
      then have a2: "frame ?h1 (?h1(?q := (?h1 ?q)\<lparr>level := lv - 1\<rparr>)) (set (addrs r))"
        using lva by (simp add: frame_def)
      have "rep (?h1(?q := (?h1 ?q)\<lparr>level := lv - 1\<rparr>)) nl a (Node l a (lv - 1) x (set_lvl (lv - 1) r))"
        by (rule rep_Node_right_same[OF r1 a1 a2]) simp
      moreover have "level (?h1 a) = lv - 1" using lva by simp
      ultimately show ?thesis using up cnd by (simp del: fun_upd_apply)
    qed
    have f2: "frame h ?h2 ?A"
    proof -
      have "link (h a) True \<in> ?A" if ?up
      proof -
        from that have "r \<noteq> Leaf" using lv2 by auto
        then have "link (h a) True \<in> set (addrs r)" using ir is_tree_top top_addr_in by metis
        then show ?thesis using Node by simp
      qed
      then show ?thesis using cnd Node by (auto simp: frame_def)
    qed
    have AT2: "set (addrs ?T2) = ?A" using Node by simp
    have n2: "nil_ok ?h2 nl" by (rule frame_nil_ok[OF f2 nlA assms(2)])
    obtain h3 up1 where sk: "skew ?h2 a = (h3, up1)" by (cases "skew ?h2 a")
    from skew_refines[OF r2 n2] sk
    have r3: "rep h3 nl up1 (skewT ?T2)" and f3: "frame ?h2 h3 ?A"
      unfolding AT2 by auto
    have f3': "frame h h3 ?A" using f2 f3 by (rule frame_trans) auto
    have n3: "nil_ok h3 nl" by (rule frame_nil_ok[OF f3' nlA assms(2)])
    let ?h4 = "skew_at h3 up1 True"
    from skew_at_refines[OF r3 n3]
    have r4: "rep ?h4 nl up1 (map_right skewT (skewT ?T2))" and f4: "frame h3 ?h4 ?A"
      using AT2 by auto
    have f4': "frame h ?h4 ?A" using f3' f4 by (rule frame_trans) auto
    have n4: "nil_ok ?h4 nl" by (rule frame_nil_ok[OF f4' nlA assms(2)])
    let ?h5 = "skew_at ?h4 (link (?h4 up1) True) True"
    have A4: "set (addrs (map_right skewT (skewT ?T2))) = ?A" using AT2 by simp
    from skew_at_right_refines[OF r4 n4]
    have r5: "rep ?h5 nl up1 (map_right (map_right skewT) (map_right skewT (skewT ?T2)))"
      and f5: "frame ?h4 ?h5 ?A"
      unfolding A4 by auto
    have f5': "frame h ?h5 ?A" using f4' f5 by (rule frame_trans) auto
    have n5: "nil_ok ?h5 nl" by (rule frame_nil_ok[OF f5' nlA assms(2)])
    have A5: "set (addrs (map_right (map_right skewT) (map_right skewT (skewT ?T2)))) = ?A"
      using AT2 by simp
    obtain h6 up2 where sp: "split ?h5 up1 = (h6, up2)" by (cases "split ?h5 up1")
    from split_refines[OF r5 n5] sp
    have r6: "rep h6 nl up2 (splitT (map_right (map_right skewT) (map_right skewT (skewT ?T2))))"
      and f6: "frame ?h5 h6 ?A"
      unfolding A5 by auto
    have f6': "frame h h6 ?A" using f5' f6 by (rule frame_trans) auto
    have n6: "nil_ok h6 nl" by (rule frame_nil_ok[OF f6' nlA assms(2)])
    have A6: "set (addrs (splitT (map_right (map_right skewT) (map_right skewT (skewT ?T2))))) = ?A"
      using AT2 by simp
    from split_at_refines[OF r6 n6]
    have r7: "rep (split_at h6 up2 True) nl up2 (fixT t)"
      and f7: "frame h6 (split_at h6 up2 True) ?A"
      unfolding A6 using Node True by auto
    have f7': "frame h (split_at h6 up2 True) ?A" using f6' f7 by (rule frame_trans) auto
    have C: "(level (h (link (h a) False)) < level (h a) - 1
         \<or> level (h (link (h a) True)) < level (h a) - 1) = True"
      using True ll lr lva by simp
    have "aerase_fix h p = (split_at h6 up2 True, up2)"
      by (simp only: aerase_fix_def Let_def pa C if_True sk sp split_conv)
    then show ?thesis using r7 f7' by simp
  qed
qed

lemma pos_skewT: "pos t \<Longrightarrow> pos (skewT t)"
  by (induction t rule: skewT.induct) auto

lemma pos_splitT: "pos t \<Longrightarrow> pos (splitT t)"
  by (induction t rule: splitT.induct) auto

lemma pos_map_right: "pos t \<Longrightarrow> (\<And>s. pos s \<Longrightarrow> pos (f s)) \<Longrightarrow> pos (map_right f t)"
  by (cases t) auto

lemma pos_set_lvl: "pos t \<Longrightarrow> 1 \<le> k \<Longrightarrow> pos (set_lvl k t)"
  by (cases t) auto

lemma pos_fixT: "pos t \<Longrightarrow> pos (fixT t)"
proof (cases t)
  case Leaf
  then show ?thesis by simp
next
  case (Node l a lv x r)
  assume p: "pos t"
  show ?thesis
  proof (cases "lvl l < lv - 1 \<or> lvl r < lv - 1")
    case False
    with p Node show ?thesis by simp
  next
    case True
    from p Node have "0 \<le> lvl l" "0 \<le> lvl r" by (auto intro: pos_lvl)
    with True have "1 \<le> lv - 1" by auto
    with p Node have "pos (Node l a (lv - 1) x (if lvl r > lv - 1 then set_lvl (lv - 1) r else r))"
      by (auto intro: pos_set_lvl)
    then have "pos (map_right splitT (splitT (map_right (map_right skewT) (map_right skewT
          (skewT (Node l a (lv - 1) x (if lvl r > lv - 1 then set_lvl (lv - 1) r else r)))))))"
      by (intro pos_map_right pos_splitT pos_skewT)
    with True Node show ?thesis by simp
  qed
qed

lemma aerase_rebalance_take:
  "take k path = take k path' \<Longrightarrow> aerase_rebalance tree path k = aerase_rebalance tree path' k"
proof (induction k arbitrary: tree)
  case 0
  show ?case by simp
next
  case (Suc k)
  have e1: "path ! k = path' ! k"
    using Suc.prems by (metis lessI nth_take)
  have e2: "path ! (k - Suc 0) = path' ! (k - Suc 0)"
    using Suc.prems by (metis diff_le_self le_imp_less_Suc nth_take)
  have t: "take k path = take k path'"
    using Suc.prems by (metis le_add2 min.absorb1 plus_1_eq_Suc take_take)
  show ?case
    by (auto simp: e1 e2 Let_def split: prod.splits intro!: Suc.IH t)
qed

lemma aerase_rebalance_step:
  assumes "rep (heap tree) nl a T" "nil_ok (heap tree) nl" "pos T"
    and "take (Suc (length pre)) path = pre @ [a]"
  shows "\<exists>h' p'. rep h' nl p' (fixT T) \<and> frame (heap tree) h' (set (addrs T)) \<and>
      aerase_rebalance tree path (Suc (length pre)) =
      aerase_rebalance
        (if pre = [] then tree\<lparr>heap := h', root := p'\<rparr>
         else tree\<lparr>heap := h'(last pre :=
                 set_link (h' (last pre)) (link (heap tree (last pre)) True = a) p')\<rparr>)
        path (length pre)"
proof -
  obtain h1 p1 where fx: "aerase_fix (heap tree) a = (h1, p1)" by (cases "aerase_fix (heap tree) a")
  from aerase_fix_refines[OF assms(1,2,3)] fx
  have r1: "rep h1 nl p1 (fixT T)" and f1: "frame (heap tree) h1 (set (addrs T))" by auto
  have pa: "path ! length pre = a"
    using assms(4) by (metis lessI nth_append_length nth_take)
  have pl: "path ! (length pre - 1) = last pre" if "pre \<noteq> []"
  proof -
    have "path ! (length pre - 1) = (pre @ [a]) ! (length pre - 1)"
      using assms(4) that by (metis diff_less length_greater_0_conv less_SucI nth_take zero_less_one)
    then show ?thesis using that by (simp add: nth_append last_conv_nth)
  qed
  have "aerase_rebalance tree path (Suc (length pre)) =
      aerase_rebalance
        (if pre = [] then tree\<lparr>heap := h1, root := p1\<rparr>
         else tree\<lparr>heap := h1(last pre :=
                 set_link (h1 (last pre)) (link (heap tree (last pre)) True = a) p1)\<rparr>)
        path (length pre)"
    using fx pa pl by (auto simp: Let_def)
  then show ?thesis using r1 f1 by blast
qed

lemma aerase_walk_node:
  assumes rp: "rep (heap tree) nl a (Node l a lv y r)"
    and nk: "nil_ok (heap tree) nl"
    and tk: "take (length pre + Suc (length w)) path = pre @ a # w"
    and lp: "pre \<noteq> [] \<Longrightarrow> last pre \<notin> set (addrs (Node l a lv y r))"
    and ps: "pos (if d then Node l a lv y ch' else Node ch' a lv y r)"
    and sub: "w \<noteq> [] \<Longrightarrow> (if d then r else l) \<noteq> Leaf \<and>
        (\<exists>h' p'. rep h' nl p' ch' \<and> frame (heap tree) h' (set (addrs (if d then r else l))) \<and>
          aerase_rebalance tree path (Suc (length pre) + length w) =
          aerase_rebalance
            (tree\<lparr>heap := h'(a := set_link (h' a)
                     (link (heap tree a) True = top_addr nl (if d then r else l)) p')\<rparr>)
            path (Suc (length pre)))"
    and triv: "w = [] \<Longrightarrow> ch' = (if d then r else l)"
    and ad: "set (addrs ch') = set (addrs (if d then r else l))"
  shows "\<exists>h' p'. rep h' nl p' (fixT (if d then Node l a lv y ch' else Node ch' a lv y r)) \<and>
      frame (heap tree) h' (set (addrs (Node l a lv y r))) \<and>
      aerase_rebalance tree path (length pre + Suc (length w)) =
      aerase_rebalance
        (if pre = [] then tree\<lparr>heap := h', root := p'\<rparr>
         else tree\<lparr>heap := h'(last pre :=
                 set_link (h' (last pre)) (link (heap tree (last pre)) True = a) p')\<rparr>)
        path (length pre)"
proof -
  let ?t = "Node l a lv y r"
  let ?ch = "if d then r else l"
  let ?T = "if d then Node l a lv y ch' else Node ch' a lv y r"
  have dist: "distinct (addrs ?t)" using rp by (simp add: rep_def)
  have addrsT: "set (addrs ?T) = set (addrs ?t)" using ad by (auto split: if_splits)
  have tk1: "take (Suc (length pre)) path = pre @ [a]"
  proof -
    have "take (Suc (length pre)) path =
          take (Suc (length pre)) (take (length pre + Suc (length w)) path)"
      by (simp add: min_def)
    also have "\<dots> = take (Suc (length pre)) (pre @ a # w)"
      using tk by simp
    also have "\<dots> = pre @ [a]" by simp
    finally show ?thesis .
  qed
  have main: "\<exists>h1. rep h1 nl a ?T \<and> nil_ok h1 nl \<and>
        frame (heap tree) h1 (set (addrs ?t)) \<and>
        aerase_rebalance tree path (length pre + Suc (length w)) =
        aerase_rebalance (tree\<lparr>heap := h1\<rparr>) path (Suc (length pre))"
  proof (cases "w = []")
    case True
    with triv have "?T = ?t" by (auto split: if_splits)
    then show ?thesis
      using rp nk True
      by (intro exI[of _ "heap tree"]) (simp add: frame_refl del: aerase_rebalance.simps)
  next
    case False
    from sub[OF False] obtain h' p' where chn: "?ch \<noteq> Leaf"
      and r': "rep h' nl p' ch'"
      and f': "frame (heap tree) h' (set (addrs ?ch))"
      and e': "aerase_rebalance tree path (Suc (length pre) + length w) =
          aerase_rebalance
            (tree\<lparr>heap := h'(a := set_link (h' a)
                     (link (heap tree a) True = top_addr nl ?ch) p')\<rparr>)
            path (Suc (length pre))"
      by blast
    let ?q = "top_addr nl ?ch"
    have lk: "link (heap tree a) d = ?q"
      using rp by (auto simp: rep_def dest!: is_tree_top split: if_splits)
    have dirq: "(link (heap tree a) True = ?q) = d"
    proof (cases d)
      case True
      then show ?thesis using lk by simp
    next
      case nd: False
      then have l: "l \<noteq> Leaf" using chn by simp
      from rp have itr: "is_tree (heap tree) nl (link (heap tree a) True) r"
        and itl: "is_tree (heap tree) nl (link (heap tree a) False) l"
        by (auto simp: rep_def)
      have "top_addr nl l \<in> set (addrs l)" using l by (rule top_addr_in)
      moreover have "link (heap tree a) True \<notin> set (addrs l)"
      proof (cases "r = Leaf")
        case True
        with itr have "link (heap tree a) True = nl" by simp
        then show ?thesis using itl is_tree_nil_notin by fastforce
      next
        case False
        then have "link (heap tree a) True \<in> set (addrs r)"
          using itr is_tree_top top_addr_in by metis
        then show ?thesis using dist by auto
      qed
      ultimately show ?thesis using nd by auto
    qed
    let ?h1 = "h'(a := set_link (h' a) d p')"
    have chsub: "set (addrs ?ch) \<subseteq> set (addrs ?t)" by auto
    have anot: "a \<notin> set (addrs ?ch)" using dist by (auto split: if_splits)
    have ha: "h' a = heap tree a" using f' anot by (simp add: frame_def)
    have fr1: "frame (heap tree) ?h1 (set (addrs ?t))"
      by (rule frame_upd[OF frame_mono[OF f' chsub]]) auto
    have nl1: "nil_ok ?h1 nl"
      by (rule frame_nil_ok[OF fr1 rep_nil_notin[OF rp] nk])
    have ch1: "is_tree ?h1 nl p' ch'"
      apply (rule is_tree_frame[where h = h'])
      using r' apply (simp add: rep_def)
      using anot ad by auto
    have oth: "is_tree ?h1 nl (link (heap tree a) (\<not> d)) (if d then l else r)"
      apply (rule is_tree_frame[where h = "heap tree"])
      using rp apply (auto simp: rep_def split: if_splits)[1]
      using f' dist by (auto simp: frame_def split: if_splits)
    have dT: "distinct (addrs ?T)"
      using dist ad r' by (auto simp: rep_def split: if_splits)
    have rT: "rep ?h1 nl a ?T"
      using ch1 oth rp dT ha
      by (auto simp: rep_def set_link_def split: if_splits)
    have "aerase_rebalance tree path (length pre + Suc (length w)) =
        aerase_rebalance (tree\<lparr>heap := ?h1\<rparr>) path (Suc (length pre))"
      using e' dirq by (simp del: aerase_rebalance.simps)
    then show ?thesis using rT nl1 fr1 by blast
  qed
  then obtain h1 where r1: "rep h1 nl a ?T" and n1: "nil_ok h1 nl"
    and f1: "frame (heap tree) h1 (set (addrs ?t))"
    and e1: "aerase_rebalance tree path (length pre + Suc (length w)) =
        aerase_rebalance (tree\<lparr>heap := h1\<rparr>) path (Suc (length pre))"
    by blast
  have lp1: "h1 (last pre) = heap tree (last pre)" if "pre \<noteq> []"
    using f1 lp[OF that] by (simp add: frame_def)
  from aerase_rebalance_step[of "tree\<lparr>heap := h1\<rparr>" nl a ?T pre path] r1 n1 tk1 ps
  obtain h2 p2 where r2: "rep h2 nl p2 (fixT ?T)"
    and f2: "frame h1 h2 (set (addrs ?T))"
    and e2: "aerase_rebalance (tree\<lparr>heap := h1\<rparr>) path (Suc (length pre)) =
      aerase_rebalance
        (if pre = [] then tree\<lparr>heap := h2, root := p2\<rparr>
         else tree\<lparr>heap := h2(last pre :=
                 set_link (h2 (last pre)) (link (h1 (last pre)) True = a) p2)\<rparr>)
        path (length pre)"
    by (auto simp del: aerase_rebalance.simps)
  have f: "frame (heap tree) h2 (set (addrs ?t))"
    using f1 f2 unfolding addrsT frame_def by metis
  show ?thesis
    apply (rule exI[of _ h2], rule exI[of _ p2])
    using r2 f e1 e2 lp1 by (auto simp del: aerase_rebalance.simps)
qed

declare aerase_rebalance.simps [simp del]

text \<open>
  What \<open>jsw_aerase\<close> computes, on trees. \<open>cutT\<close> is the tree right after the node
  has been unlinked, \<open>delT\<close> the tree after the walk back up; \<open>wpath\<close> lists the
  nodes that the walk visits, from the top.
\<close>

fun spine :: "'a atree \<Rightarrow> addr list" where
  "spine Leaf = []"
| "spine (Node l a lv y r) = (if l = Leaf then [] else a # spine l)"

fun first_elem :: "'a \<Rightarrow> 'a atree \<Rightarrow> 'a" where
  "first_elem d Leaf = d"
| "first_elem d (Node l a lv y r) = first_elem y l"

fun first_addr :: "addr \<Rightarrow> 'a atree \<Rightarrow> addr" where
  "first_addr d Leaf = d"
| "first_addr d (Node l a lv y r) = first_addr a l"

fun cut_min :: "'a atree \<Rightarrow> 'a atree" where
  "cut_min Leaf = Leaf"
| "cut_min (Node l a lv y r) = (if l = Leaf then r else Node (cut_min l) a lv y r)"

fun del_min :: "'a atree \<Rightarrow> 'a atree" where
  "del_min Leaf = Leaf"
| "del_min (Node l a lv y r) = (if l = Leaf then r else fixT (Node (del_min l) a lv y r))"

fun has :: "('a \<Rightarrow> 'a \<Rightarrow> int) \<Rightarrow> 'a \<Rightarrow> 'a atree \<Rightarrow> bool" where
  "has c x Leaf = False"
| "has c x (Node l a lv y r) = (if c y x = 0 then True else if c y x < 0 then has c x r else has c x l)"

fun cutT :: "('a \<Rightarrow> 'a \<Rightarrow> int) \<Rightarrow> 'a \<Rightarrow> 'a atree \<Rightarrow> 'a atree" where
  "cutT c x Leaf = Leaf"
| "cutT c x (Node l a lv y r) =
     (if c y x = 0 then
        (if l = Leaf then r else if r = Leaf then l
         else Node l a lv (first_elem y r) (cut_min r))
      else if c y x < 0 then Node l a lv y (cutT c x r)
      else Node (cutT c x l) a lv y r)"

fun delT :: "('a \<Rightarrow> 'a \<Rightarrow> int) \<Rightarrow> 'a \<Rightarrow> 'a atree \<Rightarrow> 'a atree" where
  "delT c x Leaf = Leaf"
| "delT c x (Node l a lv y r) =
     (if c y x = 0 then
        (if l = Leaf then r else if r = Leaf then l
         else fixT (Node l a lv (first_elem y r) (del_min r)))
      else if c y x < 0 then fixT (Node l a lv y (delT c x r))
      else fixT (Node (delT c x l) a lv y r))"

fun wpath :: "('a \<Rightarrow> 'a \<Rightarrow> int) \<Rightarrow> 'a \<Rightarrow> 'a atree \<Rightarrow> addr list" where
  "wpath c x Leaf = []"
| "wpath c x (Node l a lv y r) =
     (if c y x = 0 then (if l = Leaf \<or> r = Leaf then [] else a # spine r)
      else if c y x < 0 then a # wpath c x r
      else a # wpath c x l)"

lemma addrs_del_min [simp]: "addrs (del_min t) = addrs (cut_min t)"
  by (induction t) (auto simp del: fixT.simps)

lemma addrs_delT [simp]: "addrs (delT c x t) = addrs (cutT c x t)"
  by (induction t) (auto simp del: fixT.simps)

lemma set_addrs_cut_min: "set (addrs (cut_min t)) \<subseteq> set (addrs t)"
  by (induction t) auto

lemma set_addrs_cutT: "set (addrs (cutT c x t)) \<subseteq> set (addrs t)"
  by (induction t) (auto dest: set_addrs_cut_min[THEN subsetD])

lemma pos_cut_min: "pos t \<Longrightarrow> pos (cut_min t)"
  by (induction t) auto

lemma pos_del_min: "pos t \<Longrightarrow> pos (del_min t)"
proof (induction t)
  case Leaf
  show ?case by simp
next
  case (Node l a lv y r)
  then have "pos (Node (del_min l) a lv y r)" by simp
  then have "pos (fixT (Node (del_min l) a lv y r))" by (rule pos_fixT)
  with Node.prems show ?case by simp
qed

lemma pos_delT: "pos t \<Longrightarrow> pos (delT c x t)"
proof (induction t)
  case Leaf
  show ?case by simp
next
  case (Node l a lv y r)
  then have p: "pos l" "pos r" "1 \<le> lv" by auto
  have "pos (fixT (Node l a lv (first_elem y r) (del_min r)))"
    by (rule pos_fixT) (use p pos_del_min in auto)
  moreover have "pos (fixT (Node l a lv y (delT c x r)))"
    by (rule pos_fixT) (use p Node.IH in auto)
  moreover have "pos (fixT (Node (delT c x l) a lv y r))"
    by (rule pos_fixT) (use p Node.IH in auto)
  ultimately show ?case using p by (simp del: fixT.simps)
qed

lemma spine_Nil_del_min: "spine t = [] \<Longrightarrow> del_min t = cut_min t"
  by (cases t) (auto split: if_splits)

lemma spine_cut_min: "spine t \<noteq> [] \<Longrightarrow> cut_min t \<noteq> Leaf \<and> top_addr nl (cut_min t) = top_addr nl t"
  by (cases t) (auto split: if_splits)

lemma wpath_Nil_delT: "wpath c x t = [] \<Longrightarrow> delT c x t = cutT c x t"
  by (cases t) (auto split: if_splits)

lemma wpath_cutT: "wpath c x t \<noteq> [] \<Longrightarrow> cutT c x t \<noteq> Leaf \<and> top_addr nl (cutT c x t) = top_addr nl t"
  by (cases t) (auto split: if_splits)

lemma aerase_walk_spine:
  assumes "rep (heap tree) nl p (cut_min t)" "spine t \<noteq> []" "nil_ok (heap tree) nl" "pos t"
    and "take (length pre + length (spine t)) path = pre @ spine t"
    and "pre \<noteq> [] \<Longrightarrow> last pre \<notin> set (addrs (cut_min t))"
  shows "\<exists>h' p'. rep h' nl p' (del_min t) \<and> frame (heap tree) h' (set (addrs (cut_min t))) \<and>
      aerase_rebalance tree path (length pre + length (spine t)) =
      aerase_rebalance
        (if pre = [] then tree\<lparr>heap := h', root := p'\<rparr>
         else tree\<lparr>heap := h'(last pre :=
                 set_link (h' (last pre)) (link (heap tree (last pre)) True = p) p')\<rparr>)
        path (length pre)"
  using assms
proof (induction t arbitrary: p pre)
  case Leaf
  then show ?case by simp
next
  case (Node l a lv y r)
  from Node.prems(2) have ln: "l \<noteq> Leaf" by (auto split: if_splits)
  then have cm: "cut_min (Node l a lv y r) = Node (cut_min l) a lv y r"
    and dm: "del_min (Node l a lv y r) = fixT (Node (del_min l) a lv y r)"
    and sp: "spine (Node l a lv y r) = a # spine l"
    by simp_all
  from Node.prems(1) cm have rp: "rep (heap tree) nl a (Node (cut_min l) a lv y r)" and pa: "p = a"
    by (auto simp: rep_def)
  from Node.prems(4) have pl: "pos l" and pr: "pos r" and lv1: "1 \<le> lv" by auto
  let ?q = "link (heap tree a) False"
  have rq: "rep (heap tree) nl ?q (cut_min l)" using rp by (auto simp: rep_def)
  have sub: "cut_min l \<noteq> Leaf \<and>
        (\<exists>h' p'. rep h' nl p' (del_min l) \<and> frame (heap tree) h' (set (addrs (cut_min l))) \<and>
          aerase_rebalance tree path (Suc (length pre) + length (spine l)) =
          aerase_rebalance
            (tree\<lparr>heap := h'(a := set_link (h' a)
                     (link (heap tree a) True = top_addr nl (cut_min l)) p')\<rparr>)
            path (Suc (length pre)))" if w: "spine l \<noteq> []"
  proof -
    have q: "?q = top_addr nl (cut_min l)" using rq by (auto simp: rep_def dest: is_tree_top)
    have an: "a \<notin> set (addrs (cut_min l))" using rp by (auto simp: rep_def)
    have tk: "take (length (pre @ [a]) + length (spine l)) path = (pre @ [a]) @ spine l"
      using Node.prems(5) sp by simp
    from Node.IH(1)[of ?q "pre @ [a]", OF rq w Node.prems(3) pl tk] an q
    show ?thesis using spine_cut_min[OF w] by (simp del: aerase_rebalance.simps)
  qed
  have "\<exists>h' p'. rep h' nl p' (fixT (if False then Node (cut_min l) a lv y (del_min l) else Node (del_min l) a lv y r)) \<and>
      frame (heap tree) h' (set (addrs (Node (cut_min l) a lv y r))) \<and>
      aerase_rebalance tree path (length pre + Suc (length (spine l))) =
      aerase_rebalance
        (if pre = [] then tree\<lparr>heap := h', root := p'\<rparr>
         else tree\<lparr>heap := h'(last pre :=
                 set_link (h' (last pre)) (link (heap tree (last pre)) True = a) p')\<rparr>)
        path (length pre)"
    apply (rule aerase_walk_node[where d = False and w = "spine l" and ch' = "del_min l"])
    subgoal using rp by simp
    subgoal using Node.prems(3) by simp
    subgoal using Node.prems(5) sp by simp
    subgoal using Node.prems(6) cm by simp
    subgoal using pl pr lv1 pos_del_min by simp
    subgoal using sub by simp
    subgoal using spine_Nil_del_min by simp
    subgoal by simp
    done
  then obtain h' p' where "rep h' nl p' (fixT (Node (del_min l) a lv y r))"
    and "frame (heap tree) h' (set (addrs (Node (cut_min l) a lv y r)))"
    and "aerase_rebalance tree path (length pre + Suc (length (spine l))) =
      aerase_rebalance
        (if pre = [] then tree\<lparr>heap := h', root := p'\<rparr>
         else tree\<lparr>heap := h'(last pre :=
                 set_link (h' (last pre)) (link (heap tree (last pre)) True = a) p')\<rparr>)
        path (length pre)"
    by auto
  then show ?case unfolding cm dm sp pa
    by (intro exI[of _ h'] exI[of _ p']) (simp del: fixT.simps)
qed

lemma aerase_walk_del:
  assumes "rep (heap tree) nl p (cutT c x t)" "wpath c x t \<noteq> []" "nil_ok (heap tree) nl" "pos t"
    and "take (length pre + length (wpath c x t)) path = pre @ wpath c x t"
    and "pre \<noteq> [] \<Longrightarrow> last pre \<notin> set (addrs (cutT c x t))"
  shows "\<exists>h' p'. rep h' nl p' (delT c x t) \<and> frame (heap tree) h' (set (addrs (cutT c x t))) \<and>
      aerase_rebalance tree path (length pre + length (wpath c x t)) =
      aerase_rebalance
        (if pre = [] then tree\<lparr>heap := h', root := p'\<rparr>
         else tree\<lparr>heap := h'(last pre :=
                 set_link (h' (last pre)) (link (heap tree (last pre)) True = p) p')\<rparr>)
        path (length pre)"
  using assms
proof (induction t arbitrary: p pre)
  case Leaf
  then show ?case by simp
next
  case (Node l a lv y r)
  let ?t = "Node l a lv y r"
  from Node.prems(4) have pl: "pos l" and pr: "pos r" and lv1: "1 \<le> lv" by auto
  consider (found) "c y x = 0" | (right) "c y x \<noteq> 0" "c y x < 0" | (left) "c y x \<noteq> 0" "\<not> c y x < 0"
    by blast
  then show ?case
  proof cases
    case found
    with Node.prems(2) have ln: "l \<noteq> Leaf" and rn: "r \<noteq> Leaf" by (auto split: if_splits)
    let ?y = "first_elem y r"
    from found ln rn have cm: "cutT c x ?t = Node l a lv ?y (cut_min r)"
      and dm: "delT c x ?t = fixT (Node l a lv ?y (del_min r))"
      and sp: "wpath c x ?t = a # spine r"
      by simp_all
    from Node.prems(1) cm have rp: "rep (heap tree) nl a (Node l a lv ?y (cut_min r))" and pa: "p = a"
      by (auto simp: rep_def)
    let ?q = "link (heap tree a) True"
    have rq: "rep (heap tree) nl ?q (cut_min r)" using rp by (auto simp: rep_def)
    have sub: "cut_min r \<noteq> Leaf \<and>
        (\<exists>h' p'. rep h' nl p' (del_min r) \<and> frame (heap tree) h' (set (addrs (cut_min r))) \<and>
          aerase_rebalance tree path (Suc (length pre) + length (spine r)) =
          aerase_rebalance
            (tree\<lparr>heap := h'(a := set_link (h' a)
                     (link (heap tree a) True = top_addr nl (cut_min r)) p')\<rparr>)
            path (Suc (length pre)))" if w: "spine r \<noteq> []"
    proof -
      have q: "?q = top_addr nl (cut_min r)" using rq by (auto simp: rep_def dest: is_tree_top)
      have an: "a \<notin> set (addrs (cut_min r))" using rp by (auto simp: rep_def)
      have tk: "take (length (pre @ [a]) + length (spine r)) path = (pre @ [a]) @ spine r"
        using Node.prems(5) sp by simp
      from aerase_walk_spine[of tree nl ?q r "pre @ [a]" path, OF rq w Node.prems(3) pr tk] an q
      show ?thesis using spine_cut_min[OF w] by simp
    qed
    have "\<exists>h' p'. rep h' nl p' (fixT (if True then Node l a lv ?y (del_min r) else Node (del_min r) a lv ?y (cut_min r))) \<and>
        frame (heap tree) h' (set (addrs (Node l a lv ?y (cut_min r)))) \<and>
        aerase_rebalance tree path (length pre + Suc (length (spine r))) =
        aerase_rebalance
          (if pre = [] then tree\<lparr>heap := h', root := p'\<rparr>
           else tree\<lparr>heap := h'(last pre :=
                   set_link (h' (last pre)) (link (heap tree (last pre)) True = a) p')\<rparr>)
          path (length pre)"
      apply (rule aerase_walk_node[where d = True and w = "spine r" and ch' = "del_min r"])
      subgoal using rp by simp
      subgoal using Node.prems(3) by simp
      subgoal using Node.prems(5) sp by simp
      subgoal using Node.prems(6) cm by simp
      subgoal using pl pr lv1 pos_del_min by simp
      subgoal using sub by simp
      subgoal using spine_Nil_del_min by simp
      subgoal by simp
      done
    then obtain h' p' where "rep h' nl p' (fixT (Node l a lv ?y (del_min r)))"
      and "frame (heap tree) h' (set (addrs (Node l a lv ?y (cut_min r))))"
      and "aerase_rebalance tree path (length pre + Suc (length (spine r))) =
        aerase_rebalance
          (if pre = [] then tree\<lparr>heap := h', root := p'\<rparr>
           else tree\<lparr>heap := h'(last pre :=
                   set_link (h' (last pre)) (link (heap tree (last pre)) True = a) p')\<rparr>)
          path (length pre)"
      by auto
    then show ?thesis unfolding cm dm sp pa
      by (intro exI[of _ h'] exI[of _ p']) (simp del: fixT.simps)
  next
    case right
    then have cm: "cutT c x ?t = Node l a lv y (cutT c x r)"
      and dm: "delT c x ?t = fixT (Node l a lv y (delT c x r))"
      and sp: "wpath c x ?t = a # wpath c x r"
      by simp_all
    from Node.prems(1) cm have rp: "rep (heap tree) nl a (Node l a lv y (cutT c x r))" and pa: "p = a"
      by (auto simp: rep_def)
    let ?q = "link (heap tree a) True"
    have rq: "rep (heap tree) nl ?q (cutT c x r)" using rp by (auto simp: rep_def)
    have sub: "cutT c x r \<noteq> Leaf \<and>
        (\<exists>h' p'. rep h' nl p' (delT c x r) \<and> frame (heap tree) h' (set (addrs (cutT c x r))) \<and>
          aerase_rebalance tree path (Suc (length pre) + length (wpath c x r)) =
          aerase_rebalance
            (tree\<lparr>heap := h'(a := set_link (h' a)
                     (link (heap tree a) True = top_addr nl (cutT c x r)) p')\<rparr>)
            path (Suc (length pre)))" if w: "wpath c x r \<noteq> []"
    proof -
      have q: "?q = top_addr nl (cutT c x r)" using rq by (auto simp: rep_def dest: is_tree_top)
      have an: "a \<notin> set (addrs (cutT c x r))" using rp by (auto simp: rep_def)
      have tk: "take (length (pre @ [a]) + length (wpath c x r)) path = (pre @ [a]) @ wpath c x r"
        using Node.prems(5) sp by simp
      from Node.IH(2)[of ?q "pre @ [a]", OF rq w Node.prems(3) pr tk] an q
      show ?thesis using wpath_cutT[OF w] by simp
    qed
    have "\<exists>h' p'. rep h' nl p' (fixT (if True then Node l a lv y (delT c x r) else Node (delT c x r) a lv y (cutT c x r))) \<and>
        frame (heap tree) h' (set (addrs (Node l a lv y (cutT c x r)))) \<and>
        aerase_rebalance tree path (length pre + Suc (length (wpath c x r))) =
        aerase_rebalance
          (if pre = [] then tree\<lparr>heap := h', root := p'\<rparr>
           else tree\<lparr>heap := h'(last pre :=
                   set_link (h' (last pre)) (link (heap tree (last pre)) True = a) p')\<rparr>)
          path (length pre)"
      apply (rule aerase_walk_node[where d = True and w = "wpath c x r" and ch' = "delT c x r"])
      subgoal using rp by simp
      subgoal using Node.prems(3) by simp
      subgoal using Node.prems(5) sp by simp
      subgoal using Node.prems(6) cm by simp
      subgoal using pl pr lv1 pos_delT by simp
      subgoal using sub by simp
      subgoal using wpath_Nil_delT by simp
      subgoal by simp
      done
    then obtain h' p' where "rep h' nl p' (fixT (Node l a lv y (delT c x r)))"
      and "frame (heap tree) h' (set (addrs (Node l a lv y (cutT c x r))))"
      and "aerase_rebalance tree path (length pre + Suc (length (wpath c x r))) =
        aerase_rebalance
          (if pre = [] then tree\<lparr>heap := h', root := p'\<rparr>
           else tree\<lparr>heap := h'(last pre :=
                   set_link (h' (last pre)) (link (heap tree (last pre)) True = a) p')\<rparr>)
          path (length pre)"
      by auto
    then show ?thesis unfolding cm dm sp pa
      by (intro exI[of _ h'] exI[of _ p']) (simp del: fixT.simps)
  next
    case left
    then have cm: "cutT c x ?t = Node (cutT c x l) a lv y r"
      and dm: "delT c x ?t = fixT (Node (delT c x l) a lv y r)"
      and sp: "wpath c x ?t = a # wpath c x l"
      by simp_all
    from Node.prems(1) cm have rp: "rep (heap tree) nl a (Node (cutT c x l) a lv y r)" and pa: "p = a"
      by (auto simp: rep_def)
    let ?q = "link (heap tree a) False"
    have rq: "rep (heap tree) nl ?q (cutT c x l)" using rp by (auto simp: rep_def)
    have sub: "cutT c x l \<noteq> Leaf \<and>
        (\<exists>h' p'. rep h' nl p' (delT c x l) \<and> frame (heap tree) h' (set (addrs (cutT c x l))) \<and>
          aerase_rebalance tree path (Suc (length pre) + length (wpath c x l)) =
          aerase_rebalance
            (tree\<lparr>heap := h'(a := set_link (h' a)
                     (link (heap tree a) True = top_addr nl (cutT c x l)) p')\<rparr>)
            path (Suc (length pre)))" if w: "wpath c x l \<noteq> []"
    proof -
      have q: "?q = top_addr nl (cutT c x l)" using rq by (auto simp: rep_def dest: is_tree_top)
      have an: "a \<notin> set (addrs (cutT c x l))" using rp by (auto simp: rep_def)
      have tk: "take (length (pre @ [a]) + length (wpath c x l)) path = (pre @ [a]) @ wpath c x l"
        using Node.prems(5) sp by simp
      from Node.IH(1)[of ?q "pre @ [a]", OF rq w Node.prems(3) pl tk] an q
      show ?thesis using wpath_cutT[OF w] by simp
    qed
    have "\<exists>h' p'. rep h' nl p' (fixT (if False then Node (cutT c x l) a lv y (delT c x l) else Node (delT c x l) a lv y r)) \<and>
        frame (heap tree) h' (set (addrs (Node (cutT c x l) a lv y r))) \<and>
        aerase_rebalance tree path (length pre + Suc (length (wpath c x l))) =
        aerase_rebalance
          (if pre = [] then tree\<lparr>heap := h', root := p'\<rparr>
           else tree\<lparr>heap := h'(last pre :=
                   set_link (h' (last pre)) (link (heap tree (last pre)) True = a) p')\<rparr>)
          path (length pre)"
      apply (rule aerase_walk_node[where d = False and w = "wpath c x l" and ch' = "delT c x l"])
      subgoal using rp by simp
      subgoal using Node.prems(3) by simp
      subgoal using Node.prems(5) sp by simp
      subgoal using Node.prems(6) cm by simp
      subgoal using pl pr lv1 pos_delT by simp
      subgoal using sub by simp
      subgoal using wpath_Nil_delT by simp
      subgoal by simp
      done
    then obtain h' p' where "rep h' nl p' (fixT (Node (delT c x l) a lv y r))"
      and "frame (heap tree) h' (set (addrs (Node (cutT c x l) a lv y r)))"
      and "aerase_rebalance tree path (length pre + Suc (length (wpath c x l))) =
        aerase_rebalance
          (if pre = [] then tree\<lparr>heap := h', root := p'\<rparr>
           else tree\<lparr>heap := h'(last pre :=
                   set_link (h' (last pre)) (link (heap tree (last pre)) True = a) p')\<rparr>)
          path (length pre)"
      by auto
    then show ?thesis unfolding cm dm sp pa
      by (intro exI[of _ h'] exI[of _ p']) (simp del: fixT.simps)
  qed
qed

fun fpath :: "('a \<Rightarrow> 'a \<Rightarrow> int) \<Rightarrow> 'a \<Rightarrow> 'a atree \<Rightarrow> addr list" where
  "fpath c x Leaf = []"
| "fpath c x (Node l a lv y r) =
     a # (if c y x = 0 then [] else if c y x < 0 then fpath c x r else fpath c x l)"

fun fdir :: "bool \<Rightarrow> ('a \<Rightarrow> 'a \<Rightarrow> int) \<Rightarrow> 'a \<Rightarrow> 'a atree \<Rightarrow> bool" where
  "fdir d c x Leaf = d"
| "fdir d c x (Node l a lv y r) =
     (if c y x = 0 then d else if c y x < 0 then fdir True c x r else fdir False c x l)"

fun fparent :: "addr \<Rightarrow> ('a \<Rightarrow> 'a \<Rightarrow> int) \<Rightarrow> 'a \<Rightarrow> 'a atree \<Rightarrow> addr" where
  "fparent d c x Leaf = d"
| "fparent d c x (Node l a lv y r) =
     (if c y x = 0 then d else if c y x < 0 then fparent a c x r else fparent a c x l)"

fun fsub :: "('a \<Rightarrow> 'a \<Rightarrow> int) \<Rightarrow> 'a \<Rightarrow> 'a atree \<Rightarrow> 'a atree" where
  "fsub c x Leaf = Leaf"
| "fsub c x (Node l a lv y r) =
     (if c y x = 0 then Node l a lv y r else if c y x < 0 then fsub c x r else fsub c x l)"

fun substT :: "('a \<Rightarrow> 'a \<Rightarrow> int) \<Rightarrow> 'a \<Rightarrow> 'a atree \<Rightarrow> 'a atree \<Rightarrow> 'a atree" where
  "substT c x s Leaf = Leaf"
| "substT c x s (Node l a lv y r) =
     (if c y x = 0 then s else if c y x < 0 then Node l a lv y (substT c x s r)
      else Node (substT c x s l) a lv y r)"

lemma has_fsub: "has c x t = (fsub c x t \<noteq> Leaf)"
  by (induction t) auto

lemma fsub_found: "fsub c x t = Node fl f flv fy fr \<Longrightarrow> c fy x = 0"
  by (induction t) (auto split: if_splits)

lemma fsub_addrs: "set (addrs (fsub c x t)) \<subseteq> set (addrs t)"
  by (induction t) auto

lemma is_tree_fsub:
  "is_tree h nl p t \<Longrightarrow> is_tree h nl (top_addr nl (fsub c x t)) (fsub c x t)"
  by (induction t arbitrary: p) auto

lemma rep_fsub: "rep h nl p t \<Longrightarrow> rep h nl (top_addr nl (fsub c x t)) (fsub c x t)"
proof -
  assume r: "rep h nl p t"
  have "distinct (addrs t) \<Longrightarrow> distinct (addrs (fsub c x t))"
    by (induction t) auto
  with r show ?thesis by (auto simp: rep_def intro: is_tree_fsub)
qed

lemma cutT_substT: "cutT c x t = substT c x (cutT c x (fsub c x t)) t"
  by (induction t) auto

lemma aerase_descend_rep:
  "is_tree (heap tree) (nil tree) p t \<Longrightarrow>
   aerase_descend tree dat p pre d =
     (if has (cmp tree) dat t
      then Some (Some (pre @ fpath (cmp tree) dat t, top_addr (nil tree) (fsub (cmp tree) dat t),
                       fdir d (cmp tree) dat t))
      else Some None)"
proof (induction t arbitrary: p pre d)
  case Leaf
  then show ?case by (subst aerase_descend.simps) simp
next
  case (Node l a lv y r)
  from Node.prems have pa: "p = a" "a \<noteq> nil tree" "data (heap tree a) = Some y"
    and il: "is_tree (heap tree) (nil tree) (link (heap tree a) False) l"
    and ir: "is_tree (heap tree) (nil tree) (link (heap tree a) True) r"
    by auto
  show ?case
  proof (cases "cmp tree y dat = 0")
    case True
    with pa show ?thesis by (subst aerase_descend.simps) simp
  next
    case False
    show ?thesis
    proof (cases "cmp tree y dat < 0")
      case True
      with False pa Node.IH(2)[OF ir, of "pre @ [a]" True] show ?thesis
        by (subst aerase_descend.simps) simp
    next
      case nl: False
      with False pa Node.IH(1)[OF il, of "pre @ [a]" False] show ?thesis
        by (subst aerase_descend.simps) simp
    qed
  qed
qed

lemma first_addr_default: "t \<noteq> Leaf \<Longrightarrow> first_addr d t = first_addr d' t"
  by (cases t) auto

lemma first_elem_default: "t \<noteq> Leaf \<Longrightarrow> first_elem d t = first_elem d' t"
  by (cases t) auto

lemma aerase_heir_rep:
  "is_tree (heap tree) (nil tree) q r \<Longrightarrow> r \<noteq> Leaf \<Longrightarrow>
   aerase_heir tree q prev path =
     Some (path @ spine r, (if spine r = [] then prev else last (spine r)), first_addr q r)"
proof (induction r arbitrary: q prev path)
  case Leaf
  then show ?case by simp
next
  case (Node l a lv y rr)
  from Node.prems have qa: "q = a"
    and il: "is_tree (heap tree) (nil tree) (link (heap tree a) False) l"
    by auto
  show ?case
  proof (cases "l = Leaf")
    case True
    with il have "link (heap tree a) False = nil tree" by simp
    with True qa show ?thesis by (subst aerase_heir.simps) simp
  next
    case False
    with il have ln: "link (heap tree a) False \<noteq> nil tree"
      using is_tree_Leaf_iff by fastforce
    have fa: "first_addr (link (heap tree a) False) l = first_addr a l"
      using False by (rule first_addr_default)
    from Node.IH(1)[OF il False, of a "path @ [a]"] ln False qa fa show ?thesis
      by (subst aerase_heir.simps) simp
  qed
qed

lemma first_addr_in: "t \<noteq> Leaf \<Longrightarrow> first_addr d t \<in> set (addrs t)"
  by (induction t arbitrary: d) (auto, metis first_addr.simps(1))

lemma first_node:
  "is_tree h nl q r \<Longrightarrow> r \<noteq> Leaf \<Longrightarrow>
   data (h (first_addr q r)) = Some (first_elem y r) \<and> link (h (first_addr q r)) False = nl"
proof (induction r arbitrary: q y)
  case Leaf
  then show ?case by simp
next
  case (Node l a lv z rr)
  show ?case
  proof (cases "l = Leaf")
    case True
    with Node.prems show ?thesis by auto
  next
    case False
    from Node.prems have il: "is_tree h nl (link (h a) False) l" by simp
    from Node.IH(1)[OF il False, of z] first_addr_default[OF False, of "link (h a) False" a]
    show ?thesis by simp
  qed
qed

lemma spine_in: "spine t \<noteq> [] \<Longrightarrow> last (spine t) \<in> set (addrs t)"
  by (induction t) (auto split: if_splits)

lemma spine_subset: "set (spine t) \<subseteq> set (addrs t)"
  by (induction t) auto

lemma first_addr_notin_spine: "distinct (addrs t) \<Longrightarrow> first_addr d t \<notin> set (spine t)"
proof (induction t arbitrary: d)
  case Leaf
  then show ?case by simp
next
  case (Node l a lv y r)
  show ?case
  proof (cases "l = Leaf")
    case True
    then show ?thesis by simp
  next
    case False
    then have "first_addr a l \<in> set (addrs l)" by (rule first_addr_in)
    with Node False show ?thesis by auto
  qed
qed

text \<open>Unlinking the heir: the leftmost node of \<open>r\<close>, when it is not the root of \<open>r\<close>.\<close>

lemma cut_min_rep:
  assumes "rep h nl q r" "spine r \<noteq> []"
    and "h2 (last (spine r)) = set_link (h (last (spine r))) False (link (h (first_addr q r)) True)"
    and "\<And>b. b \<noteq> last (spine r) \<Longrightarrow> b \<in> set (addrs r) \<Longrightarrow> h2 b = h b"
  shows "rep h2 nl q (cut_min r)"
  using assms
proof (induction r arbitrary: q)
  case Leaf
  then show ?case by simp
next
  case (Node l a lv y rr)
  from Node.prems(2) have ln: "l \<noteq> Leaf" by (auto split: if_splits)
  from Node.prems(1) have qa: "q = a" and d: "distinct (addrs (Node l a lv y rr))"
    and il: "is_tree h nl (link (h a) False) l" and ir: "is_tree h nl (link (h a) True) rr"
    and ha: "a \<noteq> nl" "level (h a) = lv" "data (h a) = Some y"
    by (auto simp: rep_def)
  have dc: "distinct (addrs (cut_min (Node l a lv y rr)))"
    using d ln set_addrs_cut_min[of l]
  proof -
    have "distinct (addrs t) \<Longrightarrow> distinct (addrs (cut_min t))" for t :: "'a atree"
      using set_addrs_cut_min by (induction t) fastforce+
    then show ?thesis using d by blast
  qed
  have fa: "first_addr q (Node l a lv y rr) = first_addr (link (h a) False) l"
    using ln first_addr_default by auto
  show ?case
  proof (cases "spine l = []")
    case True
    then obtain hb hlv hy hr where l: "l = Node Leaf hb hlv hy hr"
      using ln by (cases l) (auto split: if_splits)
    have lst: "last (spine (Node l a lv y rr)) = a" using True ln by simp
    have fst: "first_addr q (Node l a lv y rr) = hb" using l by simp
    from il l have hb: "link (h a) False = hb" and ihr: "is_tree h nl (link (h hb) True) hr" by auto
    from Node.prems(3) lst fst have h2a: "h2 a = set_link (h a) False (link (h hb) True)" by simp
    have o: "\<And>b. b \<noteq> a \<Longrightarrow> b \<in> set (addrs (Node l a lv y rr)) \<Longrightarrow> h2 b = h b"
      using Node.prems(4) lst by simp
    have "is_tree h2 nl (link (h hb) True) hr"
      by (rule is_tree_frame[OF ihr], rule o) (use d l in auto)
    moreover have "is_tree h2 nl (link (h a) True) rr"
      by (rule is_tree_frame[OF ir], rule o) (use d in auto)
    ultimately show ?thesis using l qa ha h2a dc by (simp add: rep_def set_link_def)
  next
    case False
    then have lst: "last (spine (Node l a lv y rr)) = last (spine l)" using ln by simp
    have lin: "last (spine l) \<in> set (addrs l)" using False by (rule spine_in)
    then have lna: "last (spine l) \<noteq> a" using d by auto
    have "rep h2 nl (link (h a) False) (cut_min l)"
      apply (rule Node.IH(1))
      using il d apply (simp add: rep_def)
      using False apply simp
      using Node.prems(3) lst fa apply simp
      using Node.prems(4) lst apply simp
      done
    moreover have "h2 a = h a" using Node.prems(4)[of a] lst lna by simp
    moreover have "is_tree h2 nl (link (h a) True) rr"
      apply (rule is_tree_frame[OF ir])
      apply (rule Node.prems(4))
      using lst lin d by auto
    ultimately show ?thesis using ln qa ha dc by (simp add: rep_def)
  qed
qed

lemma substT_addrs:
  "set (addrs s) \<subseteq> set (addrs (fsub c x t)) \<Longrightarrow> set (addrs (substT c x s t)) \<subseteq> set (addrs t)"
  by (induction t) auto

lemma distinct_substT:
  "distinct (addrs t) \<Longrightarrow> distinct (addrs s) \<Longrightarrow> set (addrs s) \<subseteq> set (addrs (fsub c x t)) \<Longrightarrow>
   distinct (addrs (substT c x s t))"
proof (induction t)
  case Leaf
  show ?case by simp
next
  case (Node l a lv y r)
  show ?case
  proof (cases "c y x = 0")
    case True
    with Node.prems show ?thesis by simp
  next
    case False
    show ?thesis
    proof (cases "c y x < 0")
      case True
      with False Node.prems have "set (addrs (substT c x s r)) \<subseteq> set (addrs r)"
        by (auto intro: substT_addrs[THEN subsetD])
      with True False Node show ?thesis by auto
    next
      case nl: False
      with False Node.prems have "set (addrs (substT c x s l)) \<subseteq> set (addrs l)"
        by (auto intro: substT_addrs[THEN subsetD])
      with nl False Node show ?thesis by auto
    qed
  qed
qed

lemma rep_substT:
  assumes "rep h nl p t" "fsub c x t \<noteq> Leaf" "rep h2 nl (top_addr nl (fsub c x t)) s"
    and "frame h h2 (set (addrs (fsub c x t)))" "set (addrs s) \<subseteq> set (addrs (fsub c x t))"
  shows "rep h2 nl p (substT c x s t)"
proof -
  have ds: "distinct (addrs (substT c x s t))"
    using assms by (auto simp: rep_def intro: distinct_substT)
  have "is_tree h2 nl p (substT c x s t)"
    using assms
  proof (induction t arbitrary: p)
    case Leaf
    then show ?case by simp
  next
    case (Node l a lv y r)
    from Node.prems(1) have pa: "p = a" and d: "distinct (addrs (Node l a lv y r))"
      and il: "is_tree h nl (link (h a) False) l" and ir: "is_tree h nl (link (h a) True) r"
      and ha: "a \<noteq> nl" "level (h a) = lv" "data (h a) = Some y"
      by (auto simp: rep_def)
    show ?case
    proof (cases "c y x = 0")
      case True
      with Node.prems(3) pa show ?thesis by (simp add: rep_def)
    next
      case False
      show ?thesis
      proof (cases "c y x < 0")
        case True
        have sub: "set (addrs (fsub c x r)) \<subseteq> set (addrs r)" by (rule fsub_addrs)
        have "is_tree h2 nl (link (h a) True) (substT c x s r)"
          apply (rule Node.IH(2))
          using ir d apply (simp add: rep_def)
          using Node.prems False True by auto
        moreover have "h2 a = h a"
          using Node.prems(4) False True sub d by (auto simp: frame_def)
        moreover have "is_tree h2 nl (link (h a) False) l"
          apply (rule is_tree_frame[OF il])
          using Node.prems(4) False True sub d by (auto simp: frame_def)
        ultimately show ?thesis using False True pa ha by simp
      next
        case nlt: False
        have sub: "set (addrs (fsub c x l)) \<subseteq> set (addrs l)" by (rule fsub_addrs)
        have "is_tree h2 nl (link (h a) False) (substT c x s l)"
          apply (rule Node.IH(1))
          using il d apply (simp add: rep_def)
          using Node.prems False nlt by auto
        moreover have "h2 a = h a"
          using Node.prems(4) False nlt sub d by (auto simp: frame_def)
        moreover have "is_tree h2 nl (link (h a) True) r"
          apply (rule is_tree_frame[OF ir])
          using Node.prems(4) False nlt sub d by (auto simp: frame_def)
        ultimately show ?thesis using False nlt pa ha by simp
      qed
    qed
  qed
  with ds show ?thesis by (simp add: rep_def)
qed

lemma distinct_cut_min: "distinct (addrs t) \<Longrightarrow> distinct (addrs (cut_min t))"
  using set_addrs_cut_min by (induction t) fastforce+

text \<open>The two-child case at the node found: its element is replaced, the heir unlinked.\<close>

lemma cut_double_rep:
  assumes rp: "rep h nl f (Node fl f flv fy fr)" and fln: "fl \<noteq> Leaf" and frn: "fr \<noteq> Leaf"
    and prev: "prev = (if spine fr = [] then f else last (spine fr))"
    and heir: "heir = first_addr (link (h f) True) fr"
    and h1: "h1 = h(f := (h f)\<lparr>data := data (h heir)\<rparr>)"
    and h2: "h2 = h1(prev := set_link (h1 prev) (prev = f) (link (h1 heir) True))"
  shows "rep h2 nl f (Node fl f flv (first_elem fy fr) (cut_min fr)) \<and>
         frame h h2 (set (addrs (Node fl f flv fy fr)))"
proof -
  let ?q = "link (h f) True"
  from rp have d: "distinct (addrs (Node fl f flv fy fr))"
    and il: "is_tree h nl (link (h f) False) fl" and ir: "is_tree h nl ?q fr"
    and hf: "f \<noteq> nl" "level (h f) = flv" "data (h f) = Some fy"
    by (auto simp: rep_def)
  have hin: "heir \<in> set (addrs fr)" using heir frn by (simp add: first_addr_in)
  then have hnf: "heir \<noteq> f" using d by auto
  have hd: "data (h heir) = Some (first_elem fy fr)"
    using first_node[OF ir frn, of fy] heir by simp
  have h1h: "h1 heir = h heir" using h1 hnf by simp
  have dc: "distinct (addrs (Node fl f flv (first_elem fy fr) (cut_min fr)))"
    using d distinct_cut_min[of fr] set_addrs_cut_min[of fr] by auto
  have pin: "prev \<in> set (addrs (Node fl f flv fy fr))"
    using prev spine_in[of fr] by auto
  have fr2: "frame h h2 (set (addrs (Node fl f flv fy fr)))"
    using h1 h2 pin by (auto simp: frame_def)
  have pnl: "prev \<notin> set (addrs fl)"
    using prev spine_in[of fr] d by (auto split: if_splits)
  have fl2: "is_tree h2 nl (link (h f) False) fl"
    apply (rule is_tree_frame[OF il])
    using h1 h2 pnl d by auto
  show ?thesis
  proof (cases "spine fr = []")
    case True
    then obtain hb hlv hy hr where fr: "fr = Node Leaf hb hlv hy hr"
      using frn by (cases fr) (auto split: if_splits)
    from ir fr have qb: "?q = hb" and ihr: "is_tree h nl (link (h hb) True) hr" by auto
    have hb: "heir = hb" using heir fr by simp
    have pf: "prev = f" using prev True by simp
    have h2f: "h2 f = set_link ((h f)\<lparr>data := data (h heir)\<rparr>) True (link (h hb) True)"
      using h2 h1 pf h1h hb by simp
    have "is_tree h2 nl (link (h hb) True) hr"
      apply (rule is_tree_frame[OF ihr])
      using h1 h2 pf d fr by auto
    then show ?thesis using fr h2f hd hf fl2 dc fr2 by (simp add: rep_def set_link_def)
  next
    case False
    then have pl: "prev = last (spine fr)" using prev by simp
    have lin: "last (spine fr) \<in> set (addrs fr)" using False by (rule spine_in)
    then have pnf: "prev \<noteq> f" using pl d by auto
    have rq: "rep h nl ?q fr" using ir d by (simp add: rep_def)
    have "rep h2 nl ?q (cut_min fr)"
      apply (rule cut_min_rep[OF rq False])
      using h2 h1 pl pnf h1h heir apply simp
      using h2 h1 pl d apply auto
      done
    moreover have "h2 f = (h f)\<lparr>data := data (h heir)\<rparr>"
      using h2 h1 pnf by simp
    ultimately show ?thesis using hd hf fl2 dc fr2 by (simp add: rep_def)
  qed
qed

lemma fparent_default: "has c x t \<Longrightarrow> fparent d c x t = d \<or> fparent d c x t \<in> set (addrs t)"
proof (induction t arbitrary: d)
  case Leaf
  then show ?case by simp
next
  case (Node l a lv y r)
  show ?case
  proof (cases "c y x = 0")
    case True
    then show ?thesis by simp
  next
    case False
    then show ?thesis
      using Node.IH(1)[of a] Node.IH(2)[of a] Node.prems by (auto split: if_splits)
  qed
qed

lemma fparent_in:
  "c y x \<noteq> 0 \<Longrightarrow> has c x (Node l a lv y r) \<Longrightarrow>
   fparent d c x (Node l a lv y r) \<in> set (addrs (Node l a lv y r))"
  using fparent_default[of c x l a] fparent_default[of c x r a] by (auto split: if_splits)

text \<open>The single-child case below the root: the parent's link bypasses the node found.\<close>

lemma cut_single_rep:
  assumes "rep h nl p t" "fsub c x t = Node fl f flv fy fr" "fl = Leaf \<or> fr = Leaf"
    and "wpath c x t \<noteq> []"
    and "h2 = h(fparent p c x t := set_link (h (fparent p c x t)) (fdir d c x t)
                  (if fl = Leaf then link (h f) True else link (h f) False))"
  shows "rep h2 nl p (cutT c x t)"
  using assms
proof (induction t arbitrary: p d)
  case Leaf
  then show ?case by simp
next
  case (Node l a lv y r)
  let ?t = "Node l a lv y r"
  let ?repl = "if fl = Leaf then link (h f) True else link (h f) False"
  from Node.prems(1) have pa: "p = a" and dt: "distinct (addrs ?t)"
    and il: "is_tree h nl (link (h a) False) l" and ir: "is_tree h nl (link (h a) True) r"
    and ha: "a \<noteq> nl" "level (h a) = lv" "data (h a) = Some y"
    by (auto simp: rep_def)
  have ne: "c y x \<noteq> 0"
  proof
    assume "c y x = 0"
    with Node.prems(2,3,4) show False by (auto split: if_splits)
  qed
  have dc: "distinct (addrs (cutT c x ?t))"
  proof -
    have "distinct (addrs s) \<Longrightarrow> distinct (addrs (cutT c x s))" for s :: "'a atree"
    proof (induction s)
      case Leaf
      show ?case by simp
    next
      case (Node sl sa slv sy sr)
      then show ?case
        using set_addrs_cutT[of c x sl] set_addrs_cutT[of c x sr]
          set_addrs_cut_min[of sr] distinct_cut_min[of sr]
        by (auto simp: subset_iff)
    qed
    then show ?thesis using dt by blast
  qed
  define dd where "dd = (c y x < 0)"
  define ch where "ch = (if dd then r else l)"
  define oth where "oth = (if dd then l else r)"
  have fs: "fsub c x ch = Node fl f flv fy fr"
    using Node.prems(2) ne by (auto simp: ch_def dd_def)
  have ich: "is_tree h nl (link (h a) dd) ch" and ioth: "is_tree h nl (link (h a) (\<not> dd)) oth"
    using il ir by (auto simp: ch_def oth_def)
  have par: "fparent p c x ?t = fparent a c x ch" and dir: "fdir d c x ?t = fdir dd c x ch"
    using ne by (auto simp: ch_def dd_def)
  have cT: "cutT c x ?t = (if dd then Node l a lv y (cutT c x ch) else Node (cutT c x ch) a lv y r)"
    using ne by (auto simp: ch_def dd_def)
  have dch: "distinct (addrs ch)" and dis: "set (addrs ch) \<inter> set (addrs oth) = {}"
    and ach: "a \<notin> set (addrs ch)" and aoth: "a \<notin> set (addrs oth)"
    using dt by (auto simp: ch_def oth_def)
  have hasch: "has c x ch" using fs by (simp add: has_fsub)
  have main: "is_tree h2 nl (link (h2 a) dd) (cutT c x ch) \<and> h2 a = set_link (h a) dd (link (h2 a) dd)
      \<and> (\<forall>b \<in> set (addrs oth). h2 b = h b)"
  proof (cases "wpath c x ch = []")
    case True
    with hasch obtain cl b clv cy cr where chn: "ch = Node cl b clv cy cr" and c0: "c cy x = 0"
      by (cases ch) (auto split: if_splits)
    with fs have e: "fl = cl" "f = b" "fr = cr" by auto
    from par dir chn c0 have pe: "fparent p c x ?t = a" "fdir d c x ?t = dd" by auto
    from Node.prems(5) have h2: "h2 = h(a := set_link (h a) dd ?repl)" unfolding pe .
    from ich chn have icl: "is_tree h nl (link (h b) False) cl" and icr: "is_tree h nl (link (h b) True) cr"
      by auto
    have ct: "cutT c x ch = (if cl = Leaf then cr else cl)"
      using chn c0 Node.prems(3) e by auto
    have "is_tree h nl ?repl (cutT c x ch)"
      using icl icr ct e by auto
    then have "is_tree h2 nl ?repl (cutT c x ch)"
      apply (rule is_tree_frame)
      using h2 ach set_addrs_cutT[of c x ch] by auto
    then show ?thesis using h2 aoth by (auto simp: set_link_def)
  next
    case False
    have pin: "fparent a c x ch \<in> set (addrs ch)"
    proof -
      from False hasch obtain cl b clv cy cr where chn: "ch = Node cl b clv cy cr" and c0: "c cy x \<noteq> 0"
        using fs Node.prems(3) by (cases ch) (auto split: if_splits)
      with fparent_in[of c cy x cl b clv cr a] hasch show ?thesis by simp
    qed
    have pch: "fparent (link (h a) dd) c x ch = fparent a c x ch"
      using False hasch fs Node.prems(3) by (cases ch) (auto split: if_splits)
    have h2a: "h2 = h(fparent a c x ch := set_link (h (fparent a c x ch)) (fdir dd c x ch) ?repl)"
      using Node.prems(5) unfolding par dir .
    have h2: "h2 = h(fparent (link (h a) dd) c x ch :=
                  set_link (h (fparent (link (h a) dd) c x ch)) (fdir dd c x ch) ?repl)"
      using h2a pch by simp
    have rch: "rep h nl (link (h a) dd) ch" using ich dch by (simp add: rep_def)
    have "rep h2 nl (link (h a) dd) (cutT c x ch)"
    proof (cases dd)
      case True
      then have chr: "ch = r" by (simp add: ch_def)
      note A = rch[unfolded chr] fs[unfolded chr] False[unfolded chr] h2[unfolded chr]
      show ?thesis unfolding chr
        by (rule Node.IH(2)[OF A(1) A(2) Node.prems(3) A(3) A(4)])
    next
      case nd: False
      then have chl: "ch = l" by (simp add: ch_def)
      note A = rch[unfolded chl] fs[unfolded chl] False[unfolded chl] h2[unfolded chl]
      show ?thesis unfolding chl
        by (rule Node.IH(1)[OF A(1) A(2) Node.prems(3) A(3) A(4)])
    qed
    moreover have "h2 a = h a" using h2 pch pin ach by auto
    moreover have "\<forall>b \<in> set (addrs oth). h2 b = h b" using h2 pch pin dis by auto
    ultimately show ?thesis by (simp add: rep_def)
  qed
  then have c1: "is_tree h2 nl (link (h2 a) dd) (cutT c x ch)"
    and c2: "h2 a = set_link (h a) dd (link (h2 a) dd)"
    and c3: "\<forall>b \<in> set (addrs oth). h2 b = h b"
    by auto
  have o2: "is_tree h2 nl (link (h a) (\<not> dd)) oth"
    by (rule is_tree_frame[OF ioth]) (use c3 in auto)
  have l2: "link (h2 a) (\<not> dd) = link (h a) (\<not> dd)" "level (h2 a) = lv" "data (h2 a) = Some y"
    using ha by (subst c2, simp add: set_link_def)+
  show ?case
    using c1 o2 l2 pa ha dc unfolding cT
    by (cases dd) (auto simp: rep_def ch_def oth_def)
qed

lemma single_paths:
  "fsub c x t = Node fl f flv fy fr \<Longrightarrow> fl = Leaf \<or> fr = Leaf \<Longrightarrow>
   fpath c x t = wpath c x t @ [f] \<and> (wpath c x t \<noteq> [] \<longrightarrow> last (wpath c x t) = fparent d c x t)"
proof (induction t arbitrary: d)
  case Leaf
  then show ?case by simp
next
  case (Node l a lv y r)
  show ?case
  proof (cases "c y x = 0")
    case True
    with Node.prems show ?thesis by auto
  next
    case False
    show ?thesis
    proof (cases "c y x < 0")
      case True
      with False Node.prems have fs: "fsub c x r = Node fl f flv fy fr" by simp
      from Node.IH(2)[OF fs Node.prems(2), of a] False True show ?thesis
        by (cases r) (auto split: if_splits)
    next
      case nlt: False
      with False Node.prems have fs: "fsub c x l = Node fl f flv fy fr" by simp
      from Node.IH(1)[OF fs Node.prems(2), of a] False nlt show ?thesis
        by (cases l) (auto split: if_splits)
    qed
  qed
qed

lemma double_paths:
  "fsub c x t = Node fl f flv fy fr \<Longrightarrow> fl \<noteq> Leaf \<Longrightarrow> fr \<noteq> Leaf \<Longrightarrow>
   wpath c x t = fpath c x t @ spine fr"
  by (induction t) (auto split: if_splits)

fun eraseT :: "('a \<Rightarrow> 'a \<Rightarrow> int) \<Rightarrow> 'a \<Rightarrow> 'a atree \<Rightarrow> 'a atree" where
  "eraseT c x Leaf = Leaf"
| "eraseT c x (Node l a lv y r) =
     (if c y x = 0 \<and> (l = Leaf \<or> r = Leaf) then r else delT c x (Node l a lv y r))"

fun ffreed :: "'a atree \<Rightarrow> addr" where
  "ffreed Leaf = 0"
| "ffreed (Node fl f flv fy fr) = (if fl = Leaf \<or> fr = Leaf then f else first_addr f fr)"

fun felem :: "'a atree \<Rightarrow> 'a option" where
  "felem Leaf = None"
| "felem (Node fl f flv fy fr) = Some fy"

lemma jsw_aerase_absent:
  assumes "rep (heap tree) (nil tree) (root tree) t" "\<not> has (cmp tree) x t"
  shows "jsw_aerase tree x = Some (0, tree)"
  using assms aerase_descend_rep[of tree "root tree" t x "[]" False]
  by (simp add: jsw_aerase_def rep_def)

lemma jsw_aerase_refines:
  assumes rp: "rep (heap tree) (nil tree) (root tree) t" and nk: "nil_ok (heap tree) (nil tree)"
    and ps: "pos t" and hs: "has (cmp tree) x t"
  shows "\<exists>tree'. jsw_aerase tree x = Some (1, tree') \<and>
      rep (heap tree') (nil tree) (root tree') (eraseT (cmp tree) x t) \<and>
      nil_ok (heap tree') (nil tree) \<and>
      nil tree' = nil tree \<and> cmp tree' = cmp tree \<and> dup tree' = dup tree \<and>
      tsize tree' = tsize tree - 1 \<and>
      live tree' = live tree - {ffreed (fsub (cmp tree) x t)} \<and>
      released tree' = released tree @ [felem (fsub (cmp tree) x t)]"
proof -
  let ?c = "cmp tree" and ?nl = "nil tree" and ?h = "heap tree"
  from hs obtain fl f flv fy fr where fs: "fsub ?c x t = Node fl f flv fy fr"
    by (auto simp: has_fsub) (meson atree.exhaust)
  from hs have tn: "t \<noteq> Leaf" by auto
  with rp have rn: "root tree \<noteq> ?nl" using is_tree_Leaf_iff by (fastforce simp: rep_def)
  have desc: "aerase_descend tree x (root tree) [] False =
      Some (Some (fpath ?c x t, f, fdir False ?c x t))"
    using aerase_descend_rep[of tree "root tree" t x "[]" False] rp hs fs by (simp add: rep_def)
  from rep_fsub[OF rp, of ?c x] fs have rf: "rep ?h ?nl f (Node fl f flv fy fr)" by simp
  then have ifl: "is_tree ?h ?nl (link (?h f) False) fl" and ifr: "is_tree ?h ?nl (link (?h f) True) fr"
    and df: "data (?h f) = Some fy" and fnl': "f \<noteq> ?nl"
    by (auto simp: rep_def)
  have lfl: "(link (?h f) False = ?nl) = (fl = Leaf)" using ifl by (rule is_tree_Leaf_iff)
  have lfr: "(link (?h f) True = ?nl) = (fr = Leaf)" using ifr by (rule is_tree_Leaf_iff)
  have nlt: "?nl \<notin> set (addrs t)" using rp by (rule rep_nil_notin)
  have cutsub: "set (addrs (cutT ?c x t)) \<subseteq> set (addrs t)" by (rule set_addrs_cutT)
  show ?thesis
  proof (cases "fl = Leaf \<or> fr = Leaf")
    case single: True
    let ?repl = "if fl = Leaf then link (?h f) True else link (?h f) False"
    have repl: "link (?h f) (link (?h f) False = ?nl) = ?repl" using lfl by simp
    from single_paths[OF fs single, of "root tree"]
    have fp: "fpath ?c x t = wpath ?c x t @ [f]"
      and lw: "wpath ?c x t \<noteq> [] \<Longrightarrow> last (wpath ?c x t) = fparent (root tree) ?c x t"
      by auto
    show ?thesis
    proof (cases "wpath ?c x t = []")
      case True
      with fp have fp1: "fpath ?c x t = [f]" by simp
      from True fs single obtain l a lv y r where t: "t = Node l a lv y r" and c0: "?c y x = 0"
        using tn by (cases t) (auto split: if_splits)
      with fs have e: "fl = l" "f = a" "fr = r" "fy = y" by auto
      have er: "eraseT ?c x t = fr" using t c0 single e by simp
      have rr: "rep ?h ?nl (link (?h f) True) fr" using rf by (auto simp: rep_def)
      have "jsw_aerase tree x =
          Some (1, tree\<lparr>root := link (?h f) True, released := released tree @ [data (?h f)],
                        live := live tree - {f}, tsize := tsize tree - 1\<rparr>)"
        using rn desc fp1 lfl lfr single
        by (simp add: jsw_aerase_def Let_def aerase_rebalance.simps)
      then show ?thesis using rr nk er fs single df by simp
    next
      case False
      let ?w = "wpath ?c x t"
      let ?par = "fparent (root tree) ?c x t"
      let ?h1 = "?h(?par := set_link (?h ?par) (fdir False ?c x t) ?repl)"
      have len: "length (fpath ?c x t) - 1 = length ?w" using fp by simp
      have lw0: "length ?w \<noteq> 0" using False by simp
      have par: "fpath ?c x t ! (length ?w - 1) = ?par"
        using fp lw[OF False] False by (simp add: nth_append last_conv_nth)
      have r1: "rep ?h1 ?nl (root tree) (cutT ?c x t)"
        by (rule cut_single_rep[OF rp fs single False]) simp
      have pin: "?par \<in> set (addrs t)"
      proof -
        from False fs single obtain l a lv y r where t: "t = Node l a lv y r" and c0: "?c y x \<noteq> 0"
          using tn by (cases t) (auto split: if_splits)
        with fparent_in[of ?c y x l a lv r "root tree"] hs show ?thesis by simp
      qed
      have f1: "frame ?h ?h1 (set (addrs t))" using pin by (simp add: frame_def)
      have nk1: "nil_ok ?h1 ?nl" by (rule frame_nil_ok[OF f1 nlt nk])
      define tree2 where "tree2 = tree\<lparr>heap := ?h1, released := released tree @ [data (?h f)],
                                live := live tree - {f}\<rparr>"
      have t2: "heap tree2 = ?h1" "nil tree2 = ?nl" "cmp tree2 = ?c" "dup tree2 = dup tree"
        "tsize tree2 = tsize tree" "live tree2 = live tree - {f}"
        "released tree2 = released tree @ [data (?h f)]"
        by (simp_all add: tree2_def)
      have tk: "take (length [] + length ?w) (fpath ?c x t) = [] @ ?w" using fp by simp
      from aerase_walk_del[of tree2 ?nl "root tree" ?c x t "[]" "fpath ?c x t"] r1 False nk1 ps tk
      obtain h' p' where r': "rep h' ?nl p' (delT ?c x t)"
        and f': "frame ?h1 h' (set (addrs (cutT ?c x t)))"
        and e': "aerase_rebalance tree2 (fpath ?c x t) (length ?w) = tree2\<lparr>heap := h', root := p'\<rparr>"
        by (auto simp: t2 aerase_rebalance.simps)
      have f: "frame ?h h' (set (addrs t))"
        by (rule frame_trans[OF f1 f' subset_refl cutsub])
      have nk': "nil_ok h' ?nl" by (rule frame_nil_ok[OF f nlt nk])
      have er: "eraseT ?c x t = delT ?c x t"
        using False by (cases t) (auto split: if_splits)
      have "jsw_aerase tree x =
          Some (1, (aerase_rebalance tree2 (fpath ?c x t) (length ?w))
                     \<lparr>tsize := tsize (aerase_rebalance tree2 (fpath ?c x t) (length ?w)) - 1\<rparr>)"
        using rn desc len lw0 par lfl lfr single repl
        by (simp add: jsw_aerase_def Let_def tree2_def)
      then show ?thesis using r' nk' er fs single df by (simp add: e' t2)
    qed
  next
    case double: False
    then have fln: "fl \<noteq> Leaf" and frn: "fr \<noteq> Leaf" by auto
    let ?path = "fpath ?c x t"
    let ?prev = "if spine fr = [] then f else last (spine fr)"
    let ?heir = "first_addr (link (?h f) True) fr"
    let ?h1 = "?h(f := (?h f)\<lparr>data := data (?h ?heir)\<rparr>)"
    let ?h2 = "?h1(?prev := set_link (?h1 ?prev) (?prev = f) (link (?h1 ?heir) True))"
    have heir: "aerase_heir tree (link (?h f) True) f ?path = Some (?path @ spine fr, ?prev, ?heir)"
      using aerase_heir_rep[OF ifr frn] .
    from cut_double_rep[OF rf fln frn refl refl refl refl]
    have r2f: "rep ?h2 ?nl f (Node fl f flv (first_elem fy fr) (cut_min fr))"
      and f2f: "frame ?h ?h2 (set (addrs (Node fl f flv fy fr)))"
      by auto
    have cf: "cutT ?c x (fsub ?c x t) = Node fl f flv (first_elem fy fr) (cut_min fr)"
      using fs fsub_found[OF fs] fln frn by simp
    have r2: "rep ?h2 ?nl (root tree) (cutT ?c x t)"
      apply (subst cutT_substT)
      apply (rule rep_substT[OF rp])
      using fs apply simp
      using fs cf r2f apply simp
      using fs f2f apply simp
      using fs cf set_addrs_cut_min[of fr] apply auto
      done
    have fsubset: "set (addrs (Node fl f flv fy fr)) \<subseteq> set (addrs t)"
      using fsub_addrs[of ?c x t] unfolding fs .
    have f2: "frame ?h ?h2 (set (addrs t))"
      by (rule frame_mono[OF f2f fsubset])
    have nk2: "nil_ok ?h2 ?nl" by (rule frame_nil_ok[OF f2 nlt nk])
    have wp: "wpath ?c x t = ?path @ spine fr" using double_paths[OF fs fln frn] .
    have "fpath ?c x t \<noteq> []" using tn by (cases t) auto
    with wp have wn: "wpath ?c x t \<noteq> []" by simp
    define tree2 where "tree2 = tree\<lparr>heap := ?h2, released := released tree @ [data (?h f)],
                                live := live tree - {?heir}\<rparr>"
    have t2: "heap tree2 = ?h2" "nil tree2 = ?nl" "cmp tree2 = ?c" "dup tree2 = dup tree"
      "tsize tree2 = tsize tree" "live tree2 = live tree - {?heir}"
      "released tree2 = released tree @ [data (?h f)]"
      by (simp_all add: tree2_def)
    have tk: "take (length [] + length (wpath ?c x t)) (?path @ spine fr) = [] @ wpath ?c x t"
      using wp by simp
    from aerase_walk_del[of tree2 ?nl "root tree" ?c x t "[]" "?path @ spine fr"] r2 wn nk2 ps tk
    obtain h' p' where r': "rep h' ?nl p' (delT ?c x t)"
      and f': "frame ?h2 h' (set (addrs (cutT ?c x t)))"
      and e': "aerase_rebalance tree2 (?path @ spine fr) (length (wpath ?c x t)) =
               tree2\<lparr>heap := h', root := p'\<rparr>"
      by (auto simp: t2 aerase_rebalance.simps)
    have f: "frame ?h h' (set (addrs t))"
      by (rule frame_trans[OF f2 f' subset_refl cutsub])
    have nk': "nil_ok h' ?nl" by (rule frame_nil_ok[OF f nlt nk])
    have er: "eraseT ?c x t = delT ?c x t"
      using wn by (cases t) (auto split: if_splits)
    have len: "length (?path @ spine fr) = length (wpath ?c x t)" using wp by simp
    have "jsw_aerase tree x =
        Some (1, (aerase_rebalance tree2 (?path @ spine fr) (length (wpath ?c x t)))
                   \<lparr>tsize := tsize (aerase_rebalance tree2 (?path @ spine fr) (length (wpath ?c x t))) - 1\<rparr>)"
      using rn desc lfl lfr double heir len
      by (simp add: jsw_aerase_def Let_def tree2_def del: length_append)
    moreover have "first_addr (link (?h f) True) fr = first_addr f fr"
      using frn by (rule first_addr_default)
    ultimately show ?thesis using r' nk' er fs double df by (simp add: e' t2)
  qed
qed

lemma ins_left_invar:
  assumes "invar (Node l a lv y r)" "invar l'" "grows l l'"
  shows "invar (splitT (skewT (Node l' a lv y r))) \<and>
         grows (Node l a lv y r) (splitT (skewT (Node l' a lv y r)))"
proof (cases "lvl l' = lvl l")
  case True
  with assms have "invar (Node l' a lv y r)" by auto
  then show ?thesis by (simp add: skewT_invar splitT_invar grows_def del: invar.simps)
next
  case False
  with assms have g: "lvl l' = lv" "sngl l'" by (auto simp: grows_def)
  from assms(1) have "1 \<le> lv" by (rule invar_lvl_pos)
  with g obtain ll b yb lr where l': "l' = Node ll b lv yb lr" by (cases l') auto
  show ?thesis using assms g l' \<open>1 \<le> lv\<close> invar_lvl_nonneg[of r]
    by (cases r) (auto simp: grows_def)
qed

lemma sngl_iff: "sngl t = (t \<noteq> Leaf \<and> lvl (rightT t) < lvl t)"
  by (cases t) auto

lemma ins_right_invar:
  assumes "invar (Node l a lv y r)" "invar r'" "grows r r'"
  shows "invar (splitT (skewT (Node l a lv y r'))) \<and>
         grows (Node l a lv y r) (splitT (skewT (Node l a lv y r')))"
proof -
  from assms(1) have lv: "1 \<le> lv" by (rule invar_lvl_pos)
  from assms(1) have il: "invar l" and ll: "lvl l = lv - 1"
    and B: "lvl r = lv - 1 \<or> (lvl r = lv \<and> lvl (rightT r) = lv - 1)"
    by auto
  have S: "sngl r" if "lvl r = lv"
    using that B lv by (cases r) auto
  have sk: "skewT (Node l a lv y r') = Node l a lv y r'"
    using ll by (cases l) auto
  have "invar (splitT (Node l a lv y r')) \<and>
         grows (Node l a lv y r) (splitT (Node l a lv y r'))"
  proof (cases r')
    case Leaf
    with assms(3) B lv have "lvl r = 0" "lv = 1" by (auto simp: grows_def)
    with Leaf il ll show ?thesis by (simp add: grows_def)
  next
    case (Node rl b lvb yb rr)
    with assms(2) have irl: "invar rl" and irr: "invar rr" and lrl: "lvl rl = lvb - 1"
      and D: "lvl rr = lvb - 1 \<or> (lvl rr = lvb \<and> lvl (rightT rr) = lvb - 1)"
      by auto
    from assms(3) Node have G: "lvb = lvl r \<or> (lvb = lvl r + 1 \<and> lvl rr < lvb \<and> \<not> sngl r)"
      by (auto simp: grows_def)
    show ?thesis
    proof (cases "lvl rr = lv")
      case True
      have le1: "lv \<le> lvb" using True D by linarith
      have rlv: "lvl r \<le> lv" using B by linarith
      have lvb: "lvb = lv"
      proof (rule ccontr)
        assume "lvb \<noteq> lv"
        with le1 have lt: "lv < lvb" by simp
        from G show False
        proof
          assume "lvb = lvl r"
          with lt rlv show False by simp
        next
          assume g2: "lvb = lvl r + 1 \<and> lvl rr < lvb \<and> \<not> sngl r"
          with lt rlv have "lvl r = lv" by linarith
          with S g2 show False by blast
        qed
      qed
      have nsn: "\<not> lvl r < lv"
      proof
        assume "lvl r < lv"
        with G lvb have "lvl rr < lvb" by linarith
        with True lvb show False by simp
      qed
      have "splitT (Node l a lv y r') = Node (Node l a lv y rl) b (lvb + 1) yb rr"
        using Node True lv by simp
      then show ?thesis
        using il irl irr ll lrl lvb True nsn by (simp add: grows_def)
    next
      case False
      have e: "splitT (Node l a lv y r') = Node l a lv y r'"
        using Node False by simp
      have "lvb = lv - 1 \<or> (lvb = lv \<and> lvl rr = lv - 1)"
      proof (cases "lvl r = lv")
        case True
        with S G have "lvb = lv" by blast
        with D False show ?thesis by linarith
      next
        case nl: False
        with B have rl: "lvl r = lv - 1" by blast
        from G show ?thesis
        proof
          assume "lvb = lvl r"
          with rl show ?thesis by simp
        next
          assume "lvb = lvl r + 1 \<and> lvl rr < lvb \<and> \<not> sngl r"
          with rl D show ?thesis by linarith
        qed
      qed
      then show ?thesis
        unfolding e using Node il assms(2) ll by (auto simp: grows_def)
    qed
  qed
  then show ?thesis by (simp only: sk)
qed

lemma insT_invar_grows: "invar t \<Longrightarrow> invar (insT c x n s t) \<and> grows t (insT c x n s t)"
proof (induction t)
  case Leaf
  show ?case by (simp add: grows_def)
next
  case (Node l a lv y r)
  then have il: "invar l" and ir: "invar r" by auto
  show ?case
  proof (cases "c y x < 0")
    case True
    then show ?thesis
      using ins_right_invar[OF Node.prems, of "insT c x n s r"] Node.IH(2)[OF ir] by simp
  next
    case False
    then show ?thesis
      using ins_left_invar[OF Node.prems, of "insT c x n s l"] Node.IH(1)[OF il] by simp
  qed
qed

lemma skewT_id: "lvl l \<noteq> lv \<Longrightarrow> skewT (Node l a lv y r) = Node l a lv y r"
  by (cases l) auto

lemma splitT_id: "lvl (rightT r) \<noteq> lv \<Longrightarrow> splitT (Node l a lv y r) = Node l a lv y r"
  by (cases r) auto

lemma invar_rightT_le: "invar t \<Longrightarrow> lvl (rightT t) \<le> lvl t"
  by (cases t) auto

lemma invar_Node_of_lvl: "invar t \<Longrightarrow> 1 \<le> lvl t \<Longrightarrow> \<exists>l a y r. t = Node l a (lvl t) y r"
  by (cases t) auto

definition fix_ok :: "'a atree \<Rightarrow> 'a atree \<Rightarrow> bool" where
  "fix_ok T T' = (invar T' \<and> (lvl T' = lvl T \<or> lvl T' = lvl T - 1) \<and>
                  (lvl T' = lvl T \<and> \<not> sngl T' \<longrightarrow> lvl (rightT T) = lvl T))"

text \<open>The right subtree has dropped: case (c).\<close>

lemma fix_right_low:
  assumes il: "invar l" and ir: "invar r" and ll: "lvl l = k" and lr: "lvl r = k - 1"
  shows "fix_ok (Node l a (k + 1) y r) (fixT (Node l a (k + 1) y r))"
proof -
  have k1: "1 \<le> k" using invar_lvl_nonneg[OF ir] lr by simp
  from invar_Node_of_lvl[OF il] ll k1 obtain l1 b yb l2 where l: "l = Node l1 b k yb l2" by auto
  with il have i1: "invar l1" and i2: "invar l2" and l1: "lvl l1 = k - 1"
    and D: "lvl l2 = k - 1 \<or> (lvl l2 = k \<and> lvl (rightT l2) = k - 1)"
    by auto
  have rr: "lvl (rightT r) \<noteq> k" using invar_rightT_le[OF ir] lr by simp
  show ?thesis
  proof (cases "lvl l2 = k")
    case True
    from invar_Node_of_lvl[OF i2] True k1 obtain l3 c yc l4 where l2: "l2 = Node l3 c k yc l4" by auto
    with i2 True D have i3: "invar l3" and i4: "invar l4" and l3: "lvl l3 = k - 1" and l4: "lvl l4 = k - 1"
      by auto
    have "fixT (Node l a (k + 1) y r) = Node (Node l1 b k yb l3) c (k + 1) yc (Node l4 a k y r)"
      using l l2 lr k1 l3 l4 rr by (simp add: skewT_id splitT_id)
    then show ?thesis
      using i1 i3 i4 ir l1 l3 l4 lr k1 lr by (simp add: fix_ok_def del: fixT.simps)
  next
    case False
    with D have l2: "lvl l2 = k - 1" by simp
    have "fixT (Node l a (k + 1) y r) = Node l1 b k yb (Node l2 a k y r)"
      using l lr k1 l2 rr skewT_invar[OF ir] by (simp add: skewT_id splitT_id)
    then show ?thesis
      using i1 i2 ir l1 l2 lr k1 lr by (simp add: fix_ok_def del: fixT.simps)
  qed
qed

text \<open>The left subtree has dropped and the right one is one level below: case (d).\<close>

lemma fix_left_low_single:
  assumes il: "invar l" and ir: "invar r" and ll: "lvl l = k - 1" and lr: "lvl r = k"
  shows "fix_ok (Node l a (k + 1) y r) (fixT (Node l a (k + 1) y r))"
proof -
  have k1: "1 \<le> k" using invar_lvl_nonneg[OF il] ll by simp
  from invar_Node_of_lvl[OF ir] lr k1 obtain r1 b yb r2 where r: "r = Node r1 b k yb r2" by auto
  with ir have i1: "invar r1" and i2: "invar r2" and l1: "lvl r1 = k - 1"
    and D: "lvl r2 = k - 1 \<or> (lvl r2 = k \<and> lvl (rightT r2) = k - 1)"
    by auto
  have sk2: "skewT r2 = r2" using i2 by (rule skewT_invar)
  show ?thesis
  proof (cases "lvl r2 = k")
    case True
    with D have rr2: "lvl (rightT r2) = k - 1" by simp
    have sp2: "splitT r2 = r2" using i2 by (rule splitT_invar)
    have "fixT (Node l a (k + 1) y r) = Node (Node l a k y r1) b (k + 1) yb r2"
      using r ll k1 l1 True sk2 sp2 by (simp add: skewT_id splitT_id)
    then show ?thesis
      using il i1 i2 ll l1 True k1 lr by (simp add: fix_ok_def del: fixT.simps)
  next
    case False
    with D have l2: "lvl r2 = k - 1" by simp
    have rr2: "lvl (rightT r2) \<noteq> k" using invar_rightT_le[OF i2] l2 by simp
    have "fixT (Node l a (k + 1) y r) = Node l a k y r"
      using r ll k1 l1 l2 sk2 rr2 by (simp add: skewT_id splitT_id)
    then show ?thesis
      using il ir r ll l1 l2 k1 lr by (simp add: fix_ok_def del: fixT.simps)
  qed
qed

text \<open>The left subtree has dropped and the right one is on the same level: case (e).\<close>

lemma fix_left_low_double:
  assumes il: "invar l" and ir: "invar r" and ll: "lvl l = k - 1" and lr: "lvl r = k + 1"
    and sr: "sngl r"
  shows "fix_ok (Node l a (k + 1) y r) (fixT (Node l a (k + 1) y r))"
proof -
  have k1: "1 \<le> k" using invar_lvl_nonneg[OF il] ll by simp
  from invar_Node_of_lvl[OF ir] lr k1 obtain r1 b yb r2 where r: "r = Node r1 b (k + 1) yb r2" by auto
  with ir sr have i1: "invar r1" and i2: "invar r2" and l1: "lvl r1 = k" and l2: "lvl r2 = k"
    by auto
  from invar_Node_of_lvl[OF i1] l1 k1 obtain r3 c yc r4 where r1: "r1 = Node r3 c k yc r4" by auto
  with i1 have i3: "invar r3" and i4: "invar r4" and l3: "lvl r3 = k - 1"
    and D: "lvl r4 = k - 1 \<or> (lvl r4 = k \<and> lvl (rightT r4) = k - 1)"
    by auto
  from invar_Node_of_lvl[OF i2] l2 k1 obtain r5 e ye r6 where r2: "r2 = Node r5 e k ye r6" by auto
  with i2 have i5: "invar r5" and i6: "invar r6" and l5: "lvl r5 = k - 1"
    and E: "lvl r6 = k - 1 \<or> (lvl r6 = k \<and> lvl (rightT r6) = k - 1)"
    by auto
  show ?thesis
  proof (cases "lvl r4 = k")
    case True
    from invar_Node_of_lvl[OF i4] True k1 obtain r7 d yd r8 where r4: "r4 = Node r7 d k yd r8" by auto
    with i4 True D have i7: "invar r7" and i8: "invar r8" and l7: "lvl r7 = k - 1" and l8: "lvl r8 = k - 1"
      by auto
    have "fixT (Node l a (k + 1) y r) =
        Node (Node l a k y r3) c (k + 1) yc (Node (Node r7 d k yd r8) b (k + 1) yb r2)"
      using r r1 r2 r4 ll k1 l3 l7 l8 l5 by (simp add: skewT_id splitT_id)
    then show ?thesis
      using il i3 i7 i8 i2 ll l3 l7 l8 l2 k1 r2 lr by (simp add: fix_ok_def del: fixT.simps)
  next
    case False
    with D have l4: "lvl r4 = k - 1" by simp
    show ?thesis
    proof (cases "lvl r6 = k")
      case True
      with E have rr6: "lvl (rightT r6) = k - 1" by simp
      have "fixT (Node l a (k + 1) y r) =
          Node (Node l a k y r3) c (k + 1) yc (Node (Node r4 b k yb r5) e (k + 1) ye r6)"
        using r r1 r2 ll k1 l3 l4 l5 True by (simp add: skewT_id splitT_id)
      then show ?thesis
        using il i3 i4 i5 i6 ll l3 l4 l5 True rr6 k1 lr by (simp add: fix_ok_def del: fixT.simps)
    next
      case r6f: False
      with E have l6: "lvl r6 = k - 1" by simp
      have "fixT (Node l a (k + 1) y r) =
          Node (Node l a k y r3) c (k + 1) yc (Node r4 b k yb r2)"
        using r r1 r2 ll k1 l3 l4 l5 l6 by (simp add: skewT_id splitT_id)
      then show ?thesis
        using il i3 i4 i5 i6 ll l3 l4 l5 l6 k1 r2 lr by (simp add: fix_ok_def del: fixT.simps)
    qed
  qed
qed

definition post_del :: "'a atree \<Rightarrow> 'a atree \<Rightarrow> bool" where
  "post_del t t' = (invar t' \<and> (lvl t' = lvl t \<or> lvl t' = lvl t - 1) \<and>
                    (sngl t \<and> lvl t' = lvl t \<longrightarrow> sngl t'))"

lemma fix_ok_post:
  assumes "fix_ok (Node l' a lv y' r') (fixT (Node l' a lv y' r'))"
    and "sngl (Node l a lv y r) \<Longrightarrow> lvl r' \<noteq> lv"
  shows "post_del (Node l a lv y r) (fixT (Node l' a lv y' r'))"
  using assms unfolding fix_ok_def post_del_def by (auto simp del: fixT.simps)

lemma fix_after_left:
  assumes inv: "invar (Node l a lv y r)" and pd: "post_del l l'"
  shows "post_del (Node l a lv y r) (fixT (Node l' a lv y' r))"
proof -
  from inv have ir: "invar r" and ll: "lvl l = lv - 1"
    and B: "lvl r = lv - 1 \<or> (lvl r = lv \<and> lvl (rightT r) = lv - 1)"
    by auto
  from inv have lv: "1 \<le> lv" by (rule invar_lvl_pos)
  from pd have il': "invar l'" and L: "lvl l' = lvl l \<or> lvl l' = lvl l - 1"
    by (auto simp: post_del_def)
  have sg: "sngl (Node l a lv y r) \<Longrightarrow> lvl r \<noteq> lv" by simp
  show ?thesis
  proof (cases "lvl l' = lv - 1")
    case True
    then have "fixT (Node l' a lv y' r) = Node l' a lv y' r" using B by auto
    then show ?thesis using il' ir True B by (simp add: post_del_def del: fixT.simps)
  next
    case False
    with L ll have l2: "lvl l' = (lv - 1) - 1" by simp
    from B show ?thesis
    proof
      assume "lvl r = lv - 1"
      from fix_left_low_single[OF il' ir l2 this, of a y'] sg show ?thesis
        by (intro fix_ok_post) simp_all
    next
      assume b: "lvl r = lv \<and> lvl (rightT r) = lv - 1"
      then have "lvl r = (lv - 1) + 1" by simp
      moreover have "sngl r" using b lv by (cases r) auto
      ultimately show ?thesis
        using fix_left_low_double[OF il' ir l2, of a y'] sg by (intro fix_ok_post) simp_all
    qed
  qed
qed

lemma fix_after_right:
  assumes inv: "invar (Node l a lv y r)" and pd: "post_del r r'"
  shows "post_del (Node l a lv y r) (fixT (Node l a lv y' r'))"
proof -
  from inv have il: "invar l" and ll: "lvl l = lv - 1"
    and B: "lvl r = lv - 1 \<or> (lvl r = lv \<and> lvl (rightT r) = lv - 1)"
    by auto
  from inv have lv: "1 \<le> lv" by (rule invar_lvl_pos)
  from pd have ir': "invar r'" and R: "lvl r' = lvl r \<or> lvl r' = lvl r - 1"
    and S: "sngl r \<and> lvl r' = lvl r \<longrightarrow> sngl r'"
    by (auto simp: post_del_def)
  have sr: "sngl r" if "lvl r = lv" using that B lv by (cases r) auto
  show ?thesis
  proof (cases "lvl r' = lv - 2")
    case True
    have l1: "lvl l = lv - 1" using ll .
    have r1: "lvl r' = (lv - 1) - 1" using True by simp
    from fix_right_low[OF il ir' l1 r1, of a y'] show ?thesis
      using True by (intro fix_ok_post) simp_all
  next
    case False
    have B': "lvl r = lv - 1 \<or> lvl r = lv" using B by blast
    have C: "lvl r' = lv - 1 \<or> lvl r' = lv"
      using R B' False by (elim disjE; linarith)
    have e: "fixT (Node l a lv y' r') = Node l a lv y' r'"
      using C ll by (elim disjE; simp)
    have "lvl r' = lv - 1 \<or> (lvl r' = lv \<and> lvl (rightT r') = lv - 1)"
    proof (cases "lvl r' = lv")
      case True
      have "lvl r = lv" using R B' True by (elim disjE; linarith)
      with sr S True have "sngl r'" by simp
      then have "lvl (rightT r') < lv" using True by (cases r') auto
      moreover have "lv - 1 \<le> lvl (rightT r')"
        using ir' True lv by (cases r') auto
      ultimately show ?thesis using True by simp
    next
      case False
      with C show ?thesis by simp
    qed
    then have "invar (Node l a lv y' r')" using il ir' ll by simp
    moreover have "sngl (Node l a lv y r) \<longrightarrow> sngl (Node l a lv y' r')"
      using R by (elim disjE; simp)
    ultimately show ?thesis unfolding e by (simp add: post_del_def)
  qed
qed

lemma post_del_single:
  assumes "invar (Node Leaf a lv y r)"
  shows "post_del (Node Leaf a lv y r) r"
  using assms by (auto simp: post_del_def)

lemma del_min_post: "invar t \<Longrightarrow> t \<noteq> Leaf \<Longrightarrow> post_del t (del_min t)"
proof (induction t)
  case Leaf
  then show ?case by simp
next
  case (Node l a lv y r)
  show ?case
  proof (cases "l = Leaf")
    case True
    have "invar (Node Leaf a lv y r)" using Node.prems(1) by (simp only: True)
    from post_del_single[OF this] True show ?thesis by simp
  next
    case False
    from Node.prems have "invar l" by simp
    from fix_after_left[OF Node.prems(1) Node.IH(1)[OF this False], of y] False
    show ?thesis by (simp del: fixT.simps)
  qed
qed

lemma delT_post: "invar t \<Longrightarrow> post_del t (delT c x t)"
proof (induction t)
  case Leaf
  then show ?case by (simp add: post_del_def)
next
  case (Node l a lv y r)
  then have il: "invar l" and ir: "invar r" by auto
  show ?case
  proof (cases "c y x = 0")
    case True
    show ?thesis
    proof (cases "l = Leaf")
      case l: True
      have "invar (Node Leaf a lv y r)" using Node.prems(1) by (simp only: l)
      from post_del_single[OF this] True l show ?thesis by simp
    next
      case l: False
      show ?thesis
      proof (cases "r = Leaf")
        case r: True
        with Node.prems have "lvl l = 0" by auto
        with il l show ?thesis using invar_lvl_0 by blast
      next
        case r: False
        from fix_after_right[OF Node.prems del_min_post[OF ir r], of "first_elem y r"] True l r
        show ?thesis by (simp del: fixT.simps)
      qed
    qed
  next
    case False
    show ?thesis
    proof (cases "c y x < 0")
      case True
      from fix_after_right[OF Node.prems Node.IH(2)[OF ir], of y] False True
      show ?thesis by (simp del: fixT.simps)
    next
      case nlt: False
      from fix_after_left[OF Node.prems Node.IH(1)[OF il], of y] False nlt
      show ?thesis by (simp del: fixT.simps)
    qed
  qed
qed

lemma eraseT_delT: "invar t \<Longrightarrow> eraseT c x t = delT c x t"
proof (cases t)
  case Leaf
  then show ?thesis by simp
next
  case (Node l a lv y r)
  assume inv: "invar t"
  have "l = Leaf" if "r = Leaf"
  proof -
    from inv Node that have "lvl l = 0" "invar l" by auto
    then show ?thesis using invar_lvl_0 by blast
  qed
  with Node show ?thesis by auto
qed

lemma eraseT_invar: "invar t \<Longrightarrow> invar (eraseT c x t)"
  using delT_post[of t c x] by (simp add: eraseT_delT post_del_def)

lemma invar_pos: "invar t \<Longrightarrow> pos t"
proof (induction t)
  case Leaf
  show ?case by simp
next
  case (Node l a lv y r)
  from Node.prems have "1 \<le> lv" by (rule invar_lvl_pos)
  with Node show ?case by simp
qed

subsection \<open>The elements and addresses of the trees computed\<close>

lemma length_elems: "length (elems t) = length (addrs t)"
  by (induction t) auto

lemma elems_insT [simp]: "elems (insT c x n s t) = elems (linkT c x n s t)"
  by (induction t) auto

lemma length_addrs_linkT: "length (addrs (linkT c x n s t)) = Suc (length (addrs t))"
  by (induction t) auto

lemma mset_elems_linkT: "mset (elems (linkT c x n s t)) = add_mset s (mset (elems t))"
  by (induction t) auto

lemma elems_cut_min: "t \<noteq> Leaf \<Longrightarrow> elems t = first_elem d t # elems (cut_min t)"
  by (induction t arbitrary: d) auto

lemma mset_addrs_cut_min:
  "t \<noteq> Leaf \<Longrightarrow> mset (addrs t) = add_mset (first_addr d t) (mset (addrs (cut_min t)))"
  by (induction t arbitrary: d) auto

lemma elems_del_min [simp]: "elems (del_min t) = elems (cut_min t)"
  by (induction t) (auto simp del: fixT.simps)

lemma elems_delT [simp]: "elems (delT c x t) = elems (cutT c x t)"
  by (induction t) (auto simp del: fixT.simps)

text \<open>Unlinking takes one element out of the in-order sequence, at the node found.\<close>

lemma elems_cutT:
  "has c x t \<Longrightarrow>
   \<exists>ys zs. elems t = ys @ the (felem (fsub c x t)) # zs \<and> elems (cutT c x t) = ys @ zs"
proof (induction t)
  case Leaf
  then show ?case by simp
next
  case (Node l a lv y r)
  show ?case
  proof (cases "c y x = 0")
    case True
    show ?thesis
    proof (cases "l = Leaf \<or> r = Leaf")
      case True
      with \<open>c y x = 0\<close> show ?thesis
        by (intro exI[of _ "elems l"] exI[of _ "elems r"]) auto
    next
      case False
      then have "elems r = first_elem y r # elems (cut_min r)" by (simp add: elems_cut_min)
      with False \<open>c y x = 0\<close> show ?thesis
        by (intro exI[of _ "elems l"] exI[of _ "elems r"]) auto
    qed
  next
    case False
    show ?thesis
    proof (cases "c y x < 0")
      case True
      with False Node.prems have "has c x r" by simp
      from Node.IH(2)[OF this] obtain ys zs where
        "elems r = ys @ the (felem (fsub c x r)) # zs" "elems (cutT c x r) = ys @ zs" by blast
      with False True show ?thesis
        by (intro exI[of _ "elems l @ y # ys"] exI[of _ zs]) auto
    next
      case g: False
      with False Node.prems have "has c x l" by simp
      from Node.IH(1)[OF this] obtain ys zs where
        "elems l = ys @ the (felem (fsub c x l)) # zs" "elems (cutT c x l) = ys @ zs" by blast
      with False g show ?thesis
        by (intro exI[of _ ys] exI[of _ "zs @ y # elems r"]) auto
    qed
  qed
qed

lemma mset_addrs_cutT:
  "has c x t \<Longrightarrow> mset (addrs t) = add_mset (ffreed (fsub c x t)) (mset (addrs (cutT c x t)))"
proof (induction t)
  case Leaf
  then show ?case by simp
next
  case (Node l a lv y r)
  show ?case
  proof (cases "c y x = 0")
    case True
    show ?thesis
    proof (cases "l = Leaf \<or> r = Leaf")
      case True
      with \<open>c y x = 0\<close> show ?thesis by auto
    next
      case False
      then have "mset (addrs r) = add_mset (first_addr a r) (mset (addrs (cut_min r)))"
        by (simp add: mset_addrs_cut_min)
      with False \<open>c y x = 0\<close> show ?thesis by auto
    qed
  next
    case False
    with Node show ?thesis by (cases "c y x < 0") auto
  qed
qed

lemma ffreed_in: "has c x t \<Longrightarrow> ffreed (fsub c x t) \<in> set (addrs t)"
  using mset_addrs_cutT[of c x t] by (metis mset_add set_mset_mset union_single_eq_member)

lemma set_addrs_cutT_eq:
  assumes "has c x t" "distinct (addrs t)"
  shows "set (addrs (cutT c x t)) = set (addrs t) - {ffreed (fsub c x t)}"
    and "distinct (addrs (cutT c x t))"
proof -
  let ?f = "ffreed (fsub c x t)" and ?u = "addrs (cutT c x t)"
  from mset_addrs_cutT[OF assms(1)]
  have m: "mset (addrs t) = add_mset ?f (mset ?u)" .
  have c1: "count (mset (addrs t)) a \<le> 1" for a
    using assms(2) by (simp add: distinct_count_atmost_1)
  have cu: "count (mset ?u) a \<le> count (mset (addrs t)) a" for a
    unfolding m by simp
  have "count (mset ?u) a = (if a \<in> set ?u then 1 else 0)" for a
  proof (cases "a \<in> set ?u")
    case True
    then have "0 < count (mset ?u) a" by (simp add: count_greater_zero_iff)
    with c1[of a] cu[of a] have "count (mset ?u) a = 1" by linarith
    with True show ?thesis by simp
  next
    case False
    then show ?thesis by (simp add: count_eq_zero_iff)
  qed
  then show "distinct ?u" by (simp add: distinct_count_atmost_1)
  have "Suc (count (mset ?u) ?f) \<le> 1" using c1[of ?f] unfolding m by simp
  then have "count (mset ?u) ?f = 0" by simp
  then have nf: "?f \<notin> set ?u" by (simp add: count_eq_zero_iff)
  have "set (addrs t) = insert ?f (set ?u)"
    using m by (metis set_mset_add_mset_insert set_mset_mset)
  with nf show "set ?u = set (addrs t) - {?f}" by auto
qed

lemma length_addrs_cutT: "has c x t \<Longrightarrow> Suc (length (addrs (cutT c x t))) = length (addrs t)"
  using mset_addrs_cutT[of c x t] by (metis size_add_mset size_mset)

lemma has_elem: "has c x t \<Longrightarrow> \<exists>y\<in>set (elems t). c y x = 0"
  by (induction t) (auto split: if_splits)

section \<open>Well-formed trees\<close>

text \<open>
  \<open>represents tree t\<close>: the memory of \<open>tree\<close> holds the tree \<open>t\<close> under its root,
  the sentinel is intact, and the allocated nodes are the sentinel and the nodes of \<open>t\<close>.
\<close>

definition represents :: "'a jsw_atree \<Rightarrow> 'a atree \<Rightarrow> bool" where
  "represents tree t =
     (rep (heap tree) (nil tree) (root tree) t \<and> nil_ok (heap tree) (nil tree) \<and>
      live tree = insert (nil tree) (set (addrs t)))"

text \<open>Concrete policy and memory for the examples: integers compared by subtraction.\<close>

definition icmp :: "int \<Rightarrow> int \<Rightarrow> int" where
  "icmp a b = a - b"

definition mem0 :: "int memory" where
  "mem0 = (\<lambda>_. \<lparr>level = 0, data = None, link = (\<lambda>_. 0)\<rparr>)"

definition tree0 :: "int jsw_atree" where
  "tree0 = \<lparr>root = 0, nil = 0, cmp = icmp, dup = id, tsize = 0,
            heap = mem0(0 := \<lparr>level = 0, data = None, link = (\<lambda>_. 0)\<rparr>),
            live = {0}, released = []\<rparr>"

lemma jsw_anew_tree0: "jsw_anew icmp id mem0 True (Some 0) = Some tree0"
  by (simp add: jsw_anew_def tree0_def)

lemma represents_tree0: "represents tree0 Leaf"
  by (simp add: represents_def tree0_def rep_def nil_ok_def)

section \<open>Sequences of calls\<close>

text \<open>
  \<open>tree_inv tree t\<close> is what every tree built by the library satisfies: its memory
  holds \<open>t\<close>, the levels of \<open>t\<close> obey the rules of an Andersson tree, and the size
  field counts the nodes.
\<close>

definition tree_inv :: "'a jsw_atree \<Rightarrow> 'a atree \<Rightarrow> bool" where
  "tree_inv tree t =
     (represents tree t \<and> invar t \<and> tsize tree = of_nat (length (elems t)))"

text \<open>
  A client is a list of calls. An insertion carries the result of the \<open>malloc\<close> it will
  make. \<open>run\<close> performs the calls in order and collects the values returned;
  \<open>allocs_ok\<close> says that no \<open>malloc\<close> returns an address that is still allocated.
\<close>

datatype 'a call = Insert 'a "addr option" | Erase 'a

fun apply_call :: "'a jsw_atree \<Rightarrow> 'a call \<Rightarrow> (int \<times> 'a jsw_atree) option" where
  "apply_call tree (Insert x m) = jsw_ainsert tree x m"
| "apply_call tree (Erase x) = jsw_aerase tree x"

fun run :: "'a jsw_atree \<Rightarrow> 'a call list \<Rightarrow> (int list \<times> 'a jsw_atree) option" where
  "run tree [] = Some ([], tree)"
| "run tree (p # ps) =
     (case apply_call tree p of
        None \<Rightarrow> None
      | Some (r, tree1) \<Rightarrow>
          (case run tree1 ps of
             None \<Rightarrow> None
           | Some (rs, tree2) \<Rightarrow> Some (r # rs, tree2)))"

fun malloc_ok :: "'a jsw_atree \<Rightarrow> 'a call \<Rightarrow> bool" where
  "malloc_ok tree (Insert x (Some a)) = (a \<notin> live tree)"
| "malloc_ok tree (Insert x None) = True"
| "malloc_ok tree (Erase x) = True"

fun allocs_ok :: "'a jsw_atree \<Rightarrow> 'a call list \<Rightarrow> bool" where
  "allocs_ok tree [] = True"
| "allocs_ok tree (p # ps) =
     (malloc_ok tree p \<and>
      (case apply_call tree p of None \<Rightarrow> True | Some (r, tree1) \<Rightarrow> allocs_ok tree1 ps))"

text \<open>The number of insertions, and of erasures, that returned success.\<close>

fun ins_ok :: "'a call list \<Rightarrow> int list \<Rightarrow> nat" where
  "ins_ok (Insert x m # ps) (r # rs) = (if r \<noteq> 0 then 1 else 0) + ins_ok ps rs"
| "ins_ok (Erase x # ps) (r # rs) = ins_ok ps rs"
| "ins_ok ps rs = 0"

fun era_ok :: "'a call list \<Rightarrow> int list \<Rightarrow> nat" where
  "era_ok (Erase x # ps) (r # rs) = (if r \<noteq> 0 then 1 else 0) + era_ok ps rs"
| "era_ok (Insert x m # ps) (r # rs) = era_ok ps rs"
| "era_ok ps rs = 0"

text \<open>The same calls on trees.\<close>

fun stepT :: "('a \<Rightarrow> 'a \<Rightarrow> int) \<Rightarrow> ('a \<Rightarrow> 'a) \<Rightarrow> 'a atree \<Rightarrow> 'a call \<Rightarrow> 'a atree" where
  "stepT c d t (Insert x None) = t"
| "stepT c d t (Insert x (Some a)) = insT c x a (d x) t"
| "stepT c d t (Erase x) = (if has c x t then eraseT c x t else t)"

fun retT :: "('a \<Rightarrow> 'a \<Rightarrow> int) \<Rightarrow> 'a atree \<Rightarrow> 'a call \<Rightarrow> int" where
  "retT c t (Insert x None) = 0"
| "retT c t (Insert x (Some a)) = 1"
| "retT c t (Erase x) = (if has c x t then 1 else 0)"

fun retsT :: "('a \<Rightarrow> 'a \<Rightarrow> int) \<Rightarrow> ('a \<Rightarrow> 'a) \<Rightarrow> 'a atree \<Rightarrow> 'a call list \<Rightarrow> int list" where
  "retsT c d t [] = []"
| "retsT c d t (p # ps) = retT c t p # retsT c d (stepT c d t p) ps"

fun runT :: "('a \<Rightarrow> 'a \<Rightarrow> int) \<Rightarrow> ('a \<Rightarrow> 'a) \<Rightarrow> 'a atree \<Rightarrow> 'a call list \<Rightarrow> 'a atree" where
  "runT c d t [] = t"
| "runT c d t (p # ps) = runT c d (stepT c d t p) ps"

lemma tree_inv_insert:
  assumes "tree_inv tree t" "a \<notin> live tree"
  shows "\<exists>tree'. jsw_ainsert tree x (Some a) = Some (1, tree') \<and>
           tree_inv tree' (insT (cmp tree) x a (dup tree x) t) \<and>
           nil tree' = nil tree \<and> cmp tree' = cmp tree \<and> dup tree' = dup tree \<and>
           released tree' = released tree \<and> live tree' = insert a (live tree)"
proof -
  from assms have r: "rep (heap tree) (nil tree) (root tree) t"
    and nk: "nil_ok (heap tree) (nil tree)"
    and lv: "live tree = insert (nil tree) (set (addrs t))"
    and iv: "invar t" and sz: "tsize tree = of_nat (length (elems t))"
    by (auto simp: tree_inv_def represents_def)
  from assms(2) lv have n1: "a \<notin> set (addrs t)" and n2: "a \<noteq> nil tree" by auto
  from jsw_ainsert_refines[OF r nk n1 n2, of x] obtain tree' where
    j: "jsw_ainsert tree x (Some a) = Some (1, tree')"
    and r': "rep (heap tree') (nil tree) (root tree') (insT (cmp tree) x a (dup tree x) t)"
    and nk': "nil_ok (heap tree') (nil tree)"
    and same: "nil tree' = nil tree" "cmp tree' = cmp tree" "dup tree' = dup tree"
    and sz': "tsize tree' = tsize tree + 1" and lv': "live tree' = insert a (live tree)"
    and rl: "released tree' = released tree"
    by blast
  have "length (elems (insT (cmp tree) x a (dup tree x) t)) = Suc (length (elems t))"
    by (simp add: length_elems length_addrs_linkT)
  with sz sz' have "tsize tree' = of_nat (length (elems (insT (cmp tree) x a (dup tree x) t)))"
    by simp
  moreover have "live tree' = insert (nil tree') (set (addrs (insT (cmp tree) x a (dup tree x) t)))"
    using lv lv' same by auto
  moreover have "invar (insT (cmp tree) x a (dup tree x) t)"
    using insT_invar_grows[OF iv] by blast
  ultimately have "tree_inv tree' (insT (cmp tree) x a (dup tree x) t)"
    using r' nk' same by (simp add: tree_inv_def represents_def)
  with j same rl lv' show ?thesis by blast
qed

lemma tree_inv_erase:
  assumes "tree_inv tree t" "has (cmp tree) x t"
  shows "\<exists>tree'. jsw_aerase tree x = Some (1, tree') \<and>
           tree_inv tree' (eraseT (cmp tree) x t) \<and>
           nil tree' = nil tree \<and> cmp tree' = cmp tree \<and> dup tree' = dup tree \<and>
           released tree' = released tree @ [felem (fsub (cmp tree) x t)] \<and>
           live tree' = live tree - {ffreed (fsub (cmp tree) x t)}"
proof -
  let ?c = "cmp tree"
  from assms have r: "rep (heap tree) (nil tree) (root tree) t"
    and nk: "nil_ok (heap tree) (nil tree)"
    and lv: "live tree = insert (nil tree) (set (addrs t))"
    and iv: "invar t" and sz: "tsize tree = of_nat (length (elems t))"
    by (auto simp: tree_inv_def represents_def)
  from jsw_aerase_refines[OF r nk invar_pos[OF iv] assms(2)] obtain tree' where
    j: "jsw_aerase tree x = Some (1, tree')"
    and r': "rep (heap tree') (nil tree) (root tree') (eraseT ?c x t)"
    and nk': "nil_ok (heap tree') (nil tree)"
    and same: "nil tree' = nil tree" "cmp tree' = cmp tree" "dup tree' = dup tree"
    and sz': "tsize tree' = tsize tree - 1"
    and lv': "live tree' = live tree - {ffreed (fsub ?c x t)}"
    and rl: "released tree' = released tree @ [felem (fsub ?c x t)]"
    by blast
  have e: "eraseT ?c x t = delT ?c x t" using iv by (rule eraseT_delT)
  from r have d: "distinct (addrs t)" by (simp add: rep_def)
  have nn: "nil tree \<notin> set (addrs t)" using r by (rule rep_nil_notin)
  have fi: "ffreed (fsub ?c x t) \<in> set (addrs t)" using assms(2) by (rule ffreed_in)
  have "set (addrs (eraseT ?c x t)) = set (addrs t) - {ffreed (fsub ?c x t)}"
    using set_addrs_cutT_eq(1)[OF assms(2) d] e by simp
  with lv lv' nn fi same
  have l2: "live tree' = insert (nil tree') (set (addrs (eraseT ?c x t)))" by auto
  have "Suc (length (elems (eraseT ?c x t))) = length (elems t)"
    using length_addrs_cutT[OF assms(2)] e by (simp add: length_elems)
  then have "length (elems t) = Suc (length (elems (eraseT ?c x t)))" by simp
  then have "of_nat (length (elems t)) = (of_nat (length (elems (eraseT ?c x t))) + 1 :: 64 word)"
    by simp
  with sz sz' have s2: "tsize tree' = of_nat (length (elems (eraseT ?c x t)))" by simp
  have "invar (eraseT ?c x t)" using iv by (rule eraseT_invar)
  with r' nk' same l2 s2 have "tree_inv tree' (eraseT ?c x t)"
    by (simp add: tree_inv_def represents_def)
  with j same rl lv' show ?thesis by blast
qed

lemma no_elem_not_has:
  assumes "\<forall>y\<in>set (elems t). c y x \<noteq> 0"
  shows "\<not> has c x t"
proof
  assume "has c x t"
  from has_elem[OF this] obtain y where "y \<in> set (elems t)" "c y x = 0" by blast
  with assms show False by blast
qed

lemma apply_call_refines:
  assumes "tree_inv tree t" "malloc_ok tree p"
  shows "\<exists>tree'. apply_call tree p = Some (retT (cmp tree) t p, tree') \<and>
           tree_inv tree' (stepT (cmp tree) (dup tree) t p) \<and>
           nil tree' = nil tree \<and> cmp tree' = cmp tree \<and> dup tree' = dup tree"
proof (cases p)
  case (Insert x m)
  show ?thesis
  proof (cases m)
    case None
    from assms(1) have "rep (heap tree) (nil tree) (root tree) t"
      by (simp add: tree_inv_def represents_def)
    from jsw_ainsert_fails[OF this, of x] assms(1) Insert None show ?thesis by simp
  next
    case (Some a)
    with assms(2) Insert have "a \<notin> live tree" by simp
    from tree_inv_insert[OF assms(1) this, of x] Insert Some show ?thesis by auto
  qed
next
  case (Erase x)
  show ?thesis
  proof (cases "has (cmp tree) x t")
    case True
    from tree_inv_erase[OF assms(1) True] Erase True show ?thesis by auto
  next
    case False
    from assms(1) have "rep (heap tree) (nil tree) (root tree) t"
      by (simp add: tree_inv_def represents_def)
    from jsw_aerase_absent[OF this False] assms(1) Erase False show ?thesis by simp
  qed
qed

lemma run_refines:
  "tree_inv tree t \<Longrightarrow> allocs_ok tree ps \<Longrightarrow>
   \<exists>tree'. run tree ps = Some (retsT (cmp tree) (dup tree) t ps, tree') \<and>
     tree_inv tree' (runT (cmp tree) (dup tree) t ps) \<and>
     nil tree' = nil tree \<and> cmp tree' = cmp tree \<and> dup tree' = dup tree"
proof (induction ps arbitrary: tree t)
  case Nil
  then show ?case by simp
next
  case (Cons p ps)
  from Cons.prems have m: "malloc_ok tree p" by simp
  from apply_call_refines[OF Cons.prems(1) m] obtain tree1 where
    a: "apply_call tree p = Some (retT (cmp tree) t p, tree1)"
    and i: "tree_inv tree1 (stepT (cmp tree) (dup tree) t p)"
    and s: "nil tree1 = nil tree" "cmp tree1 = cmp tree" "dup tree1 = dup tree"
    by blast
  from Cons.prems(2) a have "allocs_ok tree1 ps" by simp
  from Cons.IH[OF i this] obtain tree' where
    "run tree1 ps = Some (retsT (cmp tree1) (dup tree1) (stepT (cmp tree) (dup tree) t p) ps, tree')"
    "tree_inv tree' (runT (cmp tree1) (dup tree1) (stepT (cmp tree) (dup tree) t p) ps)"
    "nil tree' = nil tree1" "cmp tree' = cmp tree1" "dup tree' = dup tree1"
    by blast
  with a s show ?case by simp
qed

lemma tree_inv_new:
  "jsw_anew cmpf dupf mem True (Some n) = Some tree \<Longrightarrow> tree_inv tree Leaf"
  by (auto simp: jsw_anew_def tree_inv_def represents_def rep_def nil_ok_def)

lemma invar_stepT: "invar t \<Longrightarrow> invar (stepT c d t p)"
proof (cases p)
  case (Insert x m)
  assume "invar t"
  with Insert insT_invar_grows[of t c x _ "d x"] show ?thesis by (cases m) auto
next
  case (Erase x)
  assume "invar t"
  with Erase eraseT_invar[of t c x] show ?thesis by simp
qed

lemma invar_runT: "invar t \<Longrightarrow> invar (runT c d t ps)"
  by (induction ps arbitrary: t) (auto simp: invar_stepT)

subsection \<open>Trees built from \<open>jsw_anew\<close>\<close>

lemma run_from_new:
  assumes "jsw_anew cmpf dupf mem True (Some n) = Some tree" "allocs_ok tree ps"
  shows "\<exists>tree'. run tree ps = Some (retsT cmpf dupf Leaf ps, tree') \<and>
           tree_inv tree' (runT cmpf dupf Leaf ps) \<and>
           nil tree' = n \<and> cmp tree' = cmpf \<and> dup tree' = dupf"
proof -
  from assms(1) have s: "cmp tree = cmpf" "dup tree = dupf" "nil tree = n"
    by (auto simp: jsw_anew_def)
  from run_refines[OF tree_inv_new[OF assms(1)] assms(2)] s show ?thesis by simp
qed

lemma count_stepT:
  "invar t \<Longrightarrow>
   length (elems (stepT c d t p)) + (if retT c t p \<noteq> 0 \<and> (\<exists>x. p = Erase x) then 1 else 0) =
   length (elems t) + (if retT c t p \<noteq> 0 \<and> (\<exists>x m. p = Insert x m) then 1 else 0)"
proof (cases p)
  case (Insert x m)
  then show ?thesis
    by (cases m) (simp_all add: length_elems length_addrs_linkT)
next
  case (Erase x)
  assume iv: "invar t"
  show ?thesis
  proof (cases "has c x t")
    case True
    from length_addrs_cutT[OF True] eraseT_delT[OF iv, of c x] Erase True show ?thesis
      by (simp add: length_elems)
  next
    case False
    with Erase show ?thesis by simp
  qed
qed

lemma count_runT:
  "invar t \<Longrightarrow>
   length (elems (runT c d t ps)) + era_ok ps (retsT c d t ps) =
   length (elems t) + ins_ok ps (retsT c d t ps)"
proof (induction ps arbitrary: t)
  case Nil
  show ?case by simp
next
  case (Cons p ps)
  from Cons.IH[OF invar_stepT[OF Cons.prems], of c d p] count_stepT[OF Cons.prems, of c d p]
  show ?case by (cases p) (auto split: if_splits)
qed

text \<open>What the level rules say about the nodes in memory.\<close>

lemma node_levels:
  assumes "is_tree h nl p t" "nil_ok h nl" "invar t" "a \<in> set (addrs t)"
  shows "level (h (link (h a) False)) = level (h a) - 1 \<and>
         level (h (link (h (link (h a) True)) True)) \<noteq> level (h a) \<and>
         (link (h a) True = nl \<longrightarrow> level (h a) = 1 \<and> link (h a) False = nl)"
  using assms
proof (induction t arbitrary: p)
  case Leaf
  then show ?case by simp
next
  case (Node l b lv y r)
  from Node.prems(2) have n0: "level (h nl) = 0" and nr: "link (h nl) True = nl"
    by (auto simp: nil_ok_def)
  from Node.prems(1) have il: "is_tree h nl (link (h b) False) l"
    and ir: "is_tree h nl (link (h b) True) r" and lb: "level (h b) = lv"
    by auto
  from Node.prems(3) have vl: "invar l" and vr: "invar r" by auto
  show ?case
  proof (cases "a = b")
    case True
    have ll: "level (h (link (h b) False)) = lvl l" using il n0 by (rule is_tree_level)
    have lr: "level (h (link (h b) True)) = lvl r" using ir n0 by (rule is_tree_level)
    have lrr: "level (h (link (h (link (h b) True)) True)) = lvl (rightT r)"
    proof (cases r)
      case Leaf
      with ir nr n0 show ?thesis by simp
    next
      case (Node rl c rlv z rr)
      with ir have "is_tree h nl (link (h c) True) rr" "link (h b) True = c" by auto
      with n0 Node show ?thesis using is_tree_level by fastforce
    qed
    have le: "lvl (rightT r) \<le> lvl r" using vr by (rule invar_rightT_le)
    have c1: "lvl l = lv - 1" using Node.prems(3) by simp
    have c2: "lvl r = lv - 1 \<or> (lvl r = lv \<and> lvl (rightT r) = lv - 1)"
      using Node.prems(3) by simp
    have c3: "lvl (rightT r) \<noteq> lv" using c2 le by (elim disjE conjE; linarith)
    have c4: "level (h b) = 1 \<and> link (h b) False = nl" if "link (h b) True = nl"
    proof -
      from ir that have "r = Leaf" using is_tree_Leaf_iff by fastforce
      with c2 have "lv = 1" by auto
      with c1 vl have "l = Leaf" using invar_lvl_0 by fastforce
      with il lb \<open>lv = 1\<close> show ?thesis by simp
    qed
    from True ll lb c1 lrr c3 c4 show ?thesis by simp
  next
    case False
    with Node.prems(4) have "a \<in> set (addrs l) \<or> a \<in> set (addrs r)" by auto
    then show ?thesis
    proof
      assume "a \<in> set (addrs l)"
      from Node.IH(1)[OF il Node.prems(2) vl this] show ?thesis .
    next
      assume "a \<in> set (addrs r)"
      from Node.IH(2)[OF ir Node.prems(2) vr this] show ?thesis .
    qed
  qed
qed

lemma data_addrs: "is_tree h nl p t \<Longrightarrow> map (\<lambda>a. data (h a)) (addrs t) = map Some (elems t)"
  by (induction t arbitrary: p) auto

lemma live_nodes: "represents tree t \<Longrightarrow> live tree - {nil tree} = set (addrs t)"
  using rep_nil_notin[of "heap tree" "nil tree" "root tree" t] by (auto simp: represents_def)

lemma elem_at_node:
  "is_tree h nl p t \<Longrightarrow> y \<in> set (elems t) \<Longrightarrow> \<exists>a\<in>set (addrs t). data (h a) = Some y"
  by (induction t arbitrary: p) auto

text \<open>A client for the examples, and what it leaves.\<close>

definition calls1 :: "int call list" where
  "calls1 = [Insert 2 (Some 1), Insert 1 (Some 2), Insert 2 (Some 3), Insert 7 None,
             Erase 9, Insert 3 (Some 4), Erase 1]"

lemmas eval_defs = jsw_ainsert_def jsw_aerase_def new_node_def ainsert_descend.simps
  aerase_descend.simps aerase_heir.simps skew_def split_def skew_at_def split_at_def
  aerase_fix_def aerase_rebalance.simps set_link_def Let_def tree0_def mem0_def icmp_def

lemma allocs_ok_calls1: "allocs_ok tree0 calls1"
  by (simp add: calls1_def eval_defs)

lemma run_calls1:
  "\<exists>tr. run tree0 calls1 = Some ([1, 1, 1, 0, 0, 1, 1], tr) \<and>
     nil tr = 0 \<and> root tr = 1 \<and> cmp tr = icmp \<and> live tr = {0, 1, 3, 4} \<and>
     tsize tr = 3 \<and> released tr = [Some 1] \<and>
     level (heap tr 0) = 0 \<and> data (heap tr 0) = None \<and>
     link (heap tr 0) False = 0 \<and> link (heap tr 0) True = 0 \<and>
     level (heap tr 1) = 2 \<and> data (heap tr 1) = Some 2 \<and>
     link (heap tr 1) False = 3 \<and> link (heap tr 1) True = 4 \<and>
     level (heap tr 3) = 1 \<and> data (heap tr 3) = Some 2 \<and>
     link (heap tr 3) False = 0 \<and> link (heap tr 3) True = 0 \<and>
     level (heap tr 4) = 1 \<and> data (heap tr 4) = Some 3 \<and>
     link (heap tr 4) False = 0 \<and> link (heap tr 4) True = 0"
  by (simp add: calls1_def eval_defs) auto

text \<open>
  The elements that can be reached from the root by following links, in order. The walk
  goes at most as deep as there are allocated nodes, which is deep enough for every tree
  whose nodes are allocated.
\<close>

fun walk :: "nat \<Rightarrow> 'a memory \<Rightarrow> addr \<Rightarrow> addr \<Rightarrow> 'a option list" where
  "walk 0 h nl p = []"
| "walk (Suc k) h nl p =
     (if p = nl then []
      else walk k h nl (link (h p) False) @ data (h p) # walk k h nl (link (h p) True))"

definition reachable :: "'a jsw_atree \<Rightarrow> 'a option list" where
  "reachable tree = walk (card (live tree)) (heap tree) (nil tree) (root tree)"

fun depth :: "'a atree \<Rightarrow> nat" where
  "depth Leaf = 0"
| "depth (Node l a lv x r) = Suc (max (depth l) (depth r))"

lemma depth_le: "depth t \<le> length (addrs t)"
  by (induction t) auto

lemma walk_is_tree: "is_tree h nl p t \<Longrightarrow> depth t < k \<Longrightarrow> walk k h nl p = map Some (elems t)"
proof (induction k arbitrary: p t)
  case 0
  then show ?case by simp
next
  case (Suc k)
  show ?case
  proof (cases t)
    case Leaf
    with Suc.prems show ?thesis by simp
  next
    case (Node l a lv x r)
    with Suc.prems have il: "is_tree h nl (link (h p) False) l"
      and ir: "is_tree h nl (link (h p) True) r" and d: "data (h p) = Some x" and pn: "p \<noteq> nl"
      and dl: "depth l < k" and dr: "depth r < k"
      by auto
    from Suc.IH[OF il dl] Suc.IH[OF ir dr] d pn Node show ?thesis by simp
  qed
qed

lemma reachable_rep:
  assumes "represents tree t"
  shows "reachable tree = map Some (elems t)"
proof -
  from assms have i: "is_tree (heap tree) (nil tree) (root tree) t" and d: "distinct (addrs t)"
    and l: "live tree = insert (nil tree) (set (addrs t))"
    by (auto simp: represents_def rep_def)
  have "nil tree \<notin> set (addrs t)" using i by (rule is_tree_nil_notin)
  with l d have "card (live tree) = Suc (length (addrs t))"
    by (simp add: distinct_card)
  with depth_le[of t] have "depth t < card (live tree)" by simp
  from walk_is_tree[OF i this] show ?thesis by (simp add: reachable_def)
qed

text \<open>
  The same insertion with \<open>malloc\<close> as an oracle: it is handed the tree as it is at
  the moment \<open>new_node\<close> calls it, and answers with an address or with nothing.
\<close>

definition new_node_asking ::
  "('a jsw_atree \<Rightarrow> addr option) \<Rightarrow> 'a jsw_atree \<Rightarrow> 'a \<Rightarrow> 'a jsw_atree \<times> addr" where
  "new_node_asking malloc tree dat = new_node tree dat (malloc tree)"

definition jsw_ainsert_asking ::
  "('a jsw_atree \<Rightarrow> addr option) \<Rightarrow> 'a jsw_atree \<Rightarrow> 'a \<Rightarrow> (int \<times> 'a jsw_atree) option" where
  "jsw_ainsert_asking malloc tree dat =
     (if root tree = nil tree then
        let (tree1, rn) = new_node_asking malloc tree dat;
            tree2 = tree1\<lparr>root := rn\<rparr>
        in if root tree2 = nil tree2 then Some (0, tree2)
           else Some (1, tree2\<lparr>tsize := tsize tree2 + 1\<rparr>)
      else
        case ainsert_descend tree dat (root tree) [] of
          None \<Rightarrow> None
        | Some (path, it, dir) \<Rightarrow>
            let (tree1, rn) = new_node_asking malloc tree dat;
                tree2 = tree1\<lparr>heap := (heap tree1)(it := set_link (heap tree1 it) dir rn)\<rparr>
            in if link (heap tree2 it) dir = nil tree2 then Some (0, tree2)
               else
                 let tree3 = ainsert_rebalance tree2 path (length path)
                 in Some (1, tree3\<lparr>tsize := tsize tree3 + 1\<rparr>))"

lemma jsw_ainsert_asking_eq: "jsw_ainsert_asking malloc tree dat = jsw_ainsert tree dat (malloc tree)"
  unfolding jsw_ainsert_asking_def jsw_ainsert_def new_node_asking_def by (rule refl)

lemma ins_spot_live:
  "t \<noteq> Leaf \<Longrightarrow> fst (ins_spot c x t) \<in> set (addrs t)"
  by (induction t) auto

lemma ainsert_descend_spot:
  assumes "represents tree t" "root tree \<noteq> nil tree"
  shows "\<exists>path it dir. ainsert_descend tree dat (root tree) [] = Some (path, it, dir) \<and>
           it \<in> live tree \<and> it \<noteq> nil tree \<and> link (heap tree it) dir = nil tree"
proof -
  from assms(1) have r: "rep (heap tree) (nil tree) (root tree) t"
    and l: "live tree = insert (nil tree) (set (addrs t))"
    by (auto simp: represents_def)
  from r assms(2) have tn: "t \<noteq> Leaf" by (auto simp: rep_def)
  obtain it dir where sp: "ins_spot (cmp tree) dat t = (it, dir)"
    by (cases "ins_spot (cmp tree) dat t")
  have "ainsert_descend tree dat (root tree) [] = Some (ins_path (cmp tree) dat t, it, dir)"
    using ainsert_descend_rep[of tree "root tree" t dat "[]"] r tn sp by (simp add: rep_def)
  moreover have "link (heap tree it) dir = nil tree"
    using r tn sp ins_spot_link[of "heap tree" "nil tree" "root tree" t "cmp tree" dat]
    by (auto simp: rep_def)
  moreover have "it \<in> set (addrs t)" using ins_spot_live[OF tn, of "cmp tree" dat] sp by simp
  moreover have "nil tree \<notin> set (addrs t)" using r by (rule rep_nil_notin)
  ultimately show ?thesis using l by auto
qed

lemma run_calls1_inv:
  "\<exists>tr. run tree0 calls1 = Some ([1, 1, 1, 0, 0, 1, 1], tr) \<and> cmp tr = icmp \<and> nil tr = 0 \<and>
     tree_inv tr (Node (Node Leaf 3 1 2 Leaf) 1 2 2 (Node Leaf 4 1 3 Leaf))"
proof -
  from run_from_new[OF jsw_anew_tree0 allocs_ok_calls1] obtain tr where
    "run tree0 calls1 = Some (retsT icmp id Leaf calls1, tr)"
    "tree_inv tr (runT icmp id Leaf calls1)" "cmp tr = icmp" "nil tr = 0"
    by blast
  moreover have "retsT icmp id Leaf calls1 = [1, 1, 1, 0, 0, 1, 1]"
    by (simp add: calls1_def icmp_def)
  moreover have "runT icmp id Leaf calls1 =
      Node (Node Leaf 3 1 2 Leaf) 1 2 2 (Node Leaf 4 1 3 Leaf)"
    by (simp add: calls1_def icmp_def)
  ultimately show ?thesis by auto
qed

subsection \<open>The rebalancing of an erasure, as the specification words it\<close>

text \<open>
  The specification describes the walk back up after a node has been unlinked: at each
  ancestor one of whose children has fallen more than one level below it, the level of
  the ancestor is lowered, the level of its high child is capped, and three skews and
  two splits follow. \<open>spec_fix\<close> is that step on trees, with the rule that gives the
  new level left open; \<open>spec_erase\<close> is the whole erasure. The rule takes the level of
  the ancestor and the levels of its low and high child.
\<close>

fun spec_fix :: "(int \<Rightarrow> int \<Rightarrow> int \<Rightarrow> int) \<Rightarrow> 'a atree \<Rightarrow> 'a atree" where
  "spec_fix rule Leaf = Leaf"
| "spec_fix rule (Node l a lv x r) =
     (if lvl l < lv - 1 \<or> lvl r < lv - 1 then
        let k = rule lv (lvl l) (lvl r);
            demoted = Node l a k x (if lvl r > k then set_lvl k r else r);
            skewed = map_right (map_right skewT) (map_right skewT (skewT demoted))
        in map_right splitT (splitT skewed)
      else Node l a lv x r)"

fun spec_erase_min :: "(int \<Rightarrow> int \<Rightarrow> int \<Rightarrow> int) \<Rightarrow> 'a atree \<Rightarrow> 'a atree" where
  "spec_erase_min rule Leaf = Leaf"
| "spec_erase_min rule (Node l a lv y r) =
     (if l = Leaf then r else spec_fix rule (Node (spec_erase_min rule l) a lv y r))"

fun spec_erase ::
  "(int \<Rightarrow> int \<Rightarrow> int \<Rightarrow> int) \<Rightarrow> ('a \<Rightarrow> 'a \<Rightarrow> int) \<Rightarrow> 'a \<Rightarrow> 'a atree \<Rightarrow> 'a atree" where
  "spec_erase rule c x Leaf = Leaf"
| "spec_erase rule c x (Node l a lv y r) =
     (if c y x = 0 then
        (if l = Leaf then r else if r = Leaf then l
         else spec_fix rule (Node l a lv (first_elem y r) (spec_erase_min rule r)))
      else if c y x < 0 then spec_fix rule (Node l a lv y (spec_erase rule c x r))
      else spec_fix rule (Node (spec_erase rule c x l) a lv y r))"

text \<open>
  The rule of the specification, ``one more than the larger child's level'', and the rule
  of the code, \<open>--up->level\<close>.
\<close>

definition larger_child_plus_one :: "int \<Rightarrow> int \<Rightarrow> int \<Rightarrow> int" where
  "larger_child_plus_one lv lo hi = 1 + max lo hi"

definition one_less :: "int \<Rightarrow> int \<Rightarrow> int \<Rightarrow> int" where
  "one_less lv lo hi = lv - 1"

lemma spec_fix_one_less: "spec_fix one_less t = fixT t"
  by (cases t) (simp_all add: one_less_def Let_def del: skewT.simps splitT.simps)

lemma spec_erase_min_one_less: "spec_erase_min one_less t = del_min t"
  by (induction t) (simp_all add: spec_fix_one_less del: spec_fix.simps fixT.simps)

lemma spec_erase_one_less: "spec_erase one_less c x t = delT c x t"
  by (induction t)
     (simp_all add: spec_fix_one_less spec_erase_min_one_less del: spec_fix.simps fixT.simps)

lemma represents_unique: "represents tree t \<Longrightarrow> represents tree t' \<Longrightarrow> t = t'"
  by (auto simp: represents_def rep_def intro: is_tree_unique)

lemma erase_spec_refines:
  assumes "tree_inv tree t" "jsw_aerase tree x = Some (1, tree')"
  shows "represents tree' (spec_erase one_less (cmp tree) x t)"
proof -
  from assms(1) have r: "rep (heap tree) (nil tree) (root tree) t" and iv: "invar t"
    by (auto simp: tree_inv_def represents_def)
  have hs: "has (cmp tree) x t"
  proof (rule ccontr)
    assume "\<not> has (cmp tree) x t"
    from jsw_aerase_absent[OF r this] assms(2) show False by simp
  qed
  from tree_inv_erase[OF assms(1) hs] assms(2)
  have "tree_inv tree' (eraseT (cmp tree) x t)" by auto
  then show ?thesis
    by (simp add: tree_inv_def eraseT_delT[OF iv] spec_erase_one_less)
qed

definition calls3 :: "int call list" where
  "calls3 = [Insert 1 (Some 1), Insert 2 (Some 2), Insert 3 (Some 3)]"

lemma allocs_ok_calls3: "allocs_ok tree0 calls3"
  by (simp add: calls3_def eval_defs)

lemma run_calls3:
  "\<exists>tr. run tree0 calls3 = Some ([1, 1, 1], tr) \<and> cmp tr = icmp \<and>
     tree_inv tr (Node (Node Leaf 1 1 1 Leaf) 2 2 2 (Node Leaf 3 1 3 Leaf))"
proof -
  from run_from_new[OF jsw_anew_tree0 allocs_ok_calls3] obtain tr where
    "run tree0 calls3 = Some (retsT icmp id Leaf calls3, tr)"
    "tree_inv tr (runT icmp id Leaf calls3)" "cmp tr = icmp"
    by blast
  moreover have "retsT icmp id Leaf calls3 = [1, 1, 1]" by (simp add: calls3_def)
  moreover have "runT icmp id Leaf calls3 =
      Node (Node Leaf 1 1 1 Leaf) 2 2 2 (Node Leaf 3 1 3 Leaf)"
    by (simp add: calls3_def icmp_def)
  ultimately show ?thesis by auto
qed

subsection \<open>Destruction by rotation\<close>

text \<open>
  A rotation to the right moves a node from the low side to the high side, so this
  weight goes down with every step of the loop of \<open>jsw_adelete\<close>.
\<close>

fun weight :: "'a atree \<Rightarrow> nat" where
  "weight Leaf = 0"
| "weight (Node l a lv x r) = 2 * weight l + 1 + weight r"

lemma adelete_loop_rep:
  "is_tree (heap tree) (nil tree) p t \<Longrightarrow> distinct (addrs t) \<Longrightarrow>
   \<exists>tree'. adelete_loop tree p = Some tree' \<and>
     released tree' = released tree @ map Some (elems t) \<and>
     live tree' = live tree - set (addrs t) \<and> nil tree' = nil tree"
proof (induction "weight t" arbitrary: t tree p rule: less_induct)
  case less
  show ?case
  proof (cases t)
    case Leaf
    with less.prems show ?thesis by (simp add: adelete_loop.simps)
  next
    case (Node l a lv x r)
    let ?h = "heap tree" and ?nl = "nil tree"
    from less.prems Node have pa: "p = a" and anl: "a \<noteq> ?nl" and da: "data (?h a) = Some x"
      and il: "is_tree ?h ?nl (link (?h a) False) l" and ir: "is_tree ?h ?nl (link (?h a) True) r"
      and d: "distinct (addrs l @ a # addrs r)"
      by auto
    show ?thesis
    proof (cases l)
      case Leaf
      with il have l0: "link (?h a) False = ?nl" by simp
      let ?tree1 = "tree\<lparr>released := released tree @ [data (?h a)], live := live tree - {a}\<rparr>"
      have st: "adelete_loop tree p = adelete_loop ?tree1 (link (?h a) True)"
        using pa anl l0 by (subst adelete_loop.simps) simp
      have i1: "is_tree (heap ?tree1) (nil ?tree1) (link (?h a) True) r" using ir by simp
      have w: "weight r < weight t" using Node by simp
      from d have dr: "distinct (addrs r)" by simp
      from less.hyps[OF w i1 dr] obtain tree' where
        "adelete_loop ?tree1 (link (?h a) True) = Some tree'"
        "released tree' = released ?tree1 @ map Some (elems r)"
        "live tree' = live ?tree1 - set (addrs r)" "nil tree' = nil ?tree1"
        by blast
      with st da Node Leaf show ?thesis by auto
    next
      case (Node ll b lvb y lr)
      note L = this
      from il L have lb: "link (?h a) False = b" and bnl: "b \<noteq> ?nl"
        and db: "data (?h b) = Some y" and lvb: "level (?h b) = lvb"
        and ill: "is_tree ?h ?nl (link (?h b) False) ll"
        and ilr: "is_tree ?h ?nl (link (?h b) True) lr"
        by auto
      from d L have ab: "a \<noteq> b" and an: "a \<notin> set (addrs ll)" "a \<notin> set (addrs lr)"
        "a \<notin> set (addrs r)" and bn: "b \<notin> set (addrs ll)" "b \<notin> set (addrs lr)"
        "b \<notin> set (addrs r)"
        by auto
      let ?h1 = "?h(a := set_link (?h a) False (link (?h b) True))"
      let ?h2 = "?h1(b := set_link (?h1 b) True a)"
      let ?tree1 = "tree\<lparr>heap := ?h2\<rparr>"
      let ?t1 = "Node ll b lvb y (Node lr a lv x r)"
      have st: "adelete_loop tree p = adelete_loop ?tree1 b"
        using pa anl lb bnl by (subst adelete_loop.simps) (simp add: Let_def)
      have f: "?h2 c = ?h c" if "c \<noteq> a" "c \<noteq> b" for c using that by simp
      have ill2: "is_tree ?h2 ?nl (link (?h b) False) ll"
        using ill by (rule is_tree_frame) (use an bn f in auto)
      have ilr2: "is_tree ?h2 ?nl (link (?h b) True) lr"
        using ilr by (rule is_tree_frame) (use an bn f in auto)
      have ir2: "is_tree ?h2 ?nl (link (?h a) True) r"
        using ir by (rule is_tree_frame) (use an bn f in auto)
      have i1: "is_tree (heap ?tree1) (nil ?tree1) b ?t1"
        using ill2 ilr2 ir2 ab anl bnl da db lvb less.prems(1) \<open>t = Node l a lv x r\<close> pa
        by (simp add: set_link_def)
      have w: "weight ?t1 < weight t" using \<open>t = Node l a lv x r\<close> L by simp
      have d1: "distinct (addrs ?t1)" using d L by auto
      from less.hyps[OF w i1 d1] obtain tree' where
        "adelete_loop ?tree1 b = Some tree'"
        "released tree' = released ?tree1 @ map Some (elems ?t1)"
        "live tree' = live ?tree1 - set (addrs ?t1)" "nil tree' = nil ?tree1"
        by blast
      with st \<open>t = Node l a lv x r\<close> L show ?thesis by auto
    qed
  qed
qed

lemma jsw_adelete_rep:
  assumes "represents tree t"
  shows "\<exists>gone. jsw_adelete tree = Some gone \<and>
           released gone = released tree @ reachable tree \<and> live gone = {}"
proof -
  from assms have i: "is_tree (heap tree) (nil tree) (root tree) t" and d: "distinct (addrs t)"
    and l: "live tree = insert (nil tree) (set (addrs t))"
    by (auto simp: represents_def rep_def)
  from adelete_loop_rep[OF i d] obtain tree' where
    a: "adelete_loop tree (root tree) = Some tree'"
    and r: "released tree' = released tree @ map Some (elems t)"
    and lv: "live tree' = live tree - set (addrs t)" and n: "nil tree' = nil tree"
    by blast
  from lv l n have "live tree' - {nil tree'} = {}" by auto
  with a r show ?thesis by (simp add: jsw_adelete_def reachable_rep[OF assms])
qed

text \<open>The release log grows by one entry with every erasure that succeeds.\<close>

lemma apply_call_released:
  assumes "tree_inv tree t" "malloc_ok tree p" "apply_call tree p = Some (r, tree')"
  shows "length (released tree') =
         length (released tree) + (if r \<noteq> 0 \<and> (\<exists>x. p = Erase x) then 1 else 0)"
proof (cases p)
  case (Insert x m)
  show ?thesis
  proof (cases m)
    case None
    from assms(1) have "rep (heap tree) (nil tree) (root tree) t"
      by (simp add: tree_inv_def represents_def)
    from jsw_ainsert_fails[OF this, of x] assms(3) Insert None show ?thesis by simp
  next
    case (Some a)
    with assms(2) Insert have "a \<notin> live tree" by simp
    from tree_inv_insert[OF assms(1) this, of x] assms(3) Insert Some show ?thesis by auto
  qed
next
  case (Erase x)
  show ?thesis
  proof (cases "has (cmp tree) x t")
    case True
    from tree_inv_erase[OF assms(1) True] assms(3) Erase show ?thesis by auto
  next
    case False
    from assms(1) have "rep (heap tree) (nil tree) (root tree) t"
      by (simp add: tree_inv_def represents_def)
    from jsw_aerase_absent[OF this False] assms(3) Erase show ?thesis by simp
  qed
qed

lemma run_released:
  "tree_inv tree t \<Longrightarrow> allocs_ok tree ps \<Longrightarrow> run tree ps = Some (rs, tree') \<Longrightarrow>
   length (released tree') = length (released tree) + era_ok ps rs"
proof (induction ps arbitrary: tree t rs)
  case Nil
  then show ?case by simp
next
  case (Cons p ps)
  from Cons.prems have m: "malloc_ok tree p" by simp
  from apply_call_refines[OF Cons.prems(1) m] obtain tree1 where
    a: "apply_call tree p = Some (retT (cmp tree) t p, tree1)"
    and i: "tree_inv tree1 (stepT (cmp tree) (dup tree) t p)"
    by blast
  from Cons.prems(2) a have ok: "allocs_ok tree1 ps" by simp
  from Cons.prems(3) a obtain rs1 where r1: "run tree1 ps = Some (rs1, tree')"
    and rs: "rs = retT (cmp tree) t p # rs1"
    by (auto split: option.splits)
  from Cons.IH[OF i ok r1] apply_call_released[OF Cons.prems(1) m a] rs
  show ?case by (cases p) auto
qed

section \<open>Order\<close>

text \<open>
  What the library expects of the functions it is given. The comparison is a total
  preorder told by the sign of its result: swapping the arguments swaps the sign, and
  ``not greater'' is transitive. The duplicate of an element compares like the element.
\<close>

definition cmp_ok :: "('a \<Rightarrow> 'a \<Rightarrow> int) \<Rightarrow> bool" where
  "cmp_ok c = ((\<forall>a b. (c a b < 0) = (0 < c b a)) \<and>
               (\<forall>a b d. c a b \<le> 0 \<and> c b d \<le> 0 \<longrightarrow> c a d \<le> 0))"

definition dup_ok :: "('a \<Rightarrow> 'a \<Rightarrow> int) \<Rightarrow> ('a \<Rightarrow> 'a) \<Rightarrow> bool" where
  "dup_ok c d = (\<forall>x y. (c (d x) y < 0) = (c x y < 0) \<and> (0 < c (d x) y) = (0 < c x y))"

definition sortedT :: "('a \<Rightarrow> 'a \<Rightarrow> int) \<Rightarrow> 'a atree \<Rightarrow> bool" where
  "sortedT c t = sorted_wrt (\<lambda>a b. c a b \<le> 0) (elems t)"

lemma cmp_swap: "cmp_ok c \<Longrightarrow> (c a b < 0) = (0 < c b a)"
  by (simp add: cmp_ok_def)

lemma cmp_swap_le: "cmp_ok c \<Longrightarrow> (c a b \<le> 0) = (0 \<le> c b a)"
  using cmp_swap[of c b a] by auto

lemma cmp_swap_0: "cmp_ok c \<Longrightarrow> (c a b = 0) = (c b a = 0)"
  using cmp_swap[of c a b] cmp_swap[of c b a] by auto

lemma cmp_trans: "cmp_ok c \<Longrightarrow> c a b \<le> 0 \<Longrightarrow> c b d \<le> 0 \<Longrightarrow> c a d \<le> 0"
  unfolding cmp_ok_def by blast

lemma cmp_le_less_trans:
  assumes "cmp_ok c" "c a b \<le> 0" "c b d < 0"
  shows "c a d < 0"
proof (rule ccontr)
  assume "\<not> c a d < 0"
  then have "c d a \<le> 0" using cmp_swap_le[OF assms(1), of d a] by simp
  from cmp_trans[OF assms(1) this assms(2)] have "c d b \<le> 0" .
  then have "0 \<le> c b d" using cmp_swap_le[OF assms(1), of d b] by simp
  with assms(3) show False by simp
qed

lemma cmp_less_le_trans:
  assumes "cmp_ok c" "c a b < 0" "c b d \<le> 0"
  shows "c a d < 0"
proof (rule ccontr)
  assume "\<not> c a d < 0"
  then have "c d a \<le> 0" using cmp_swap_le[OF assms(1), of d a] by simp
  from cmp_trans[OF assms(1) assms(3) this] have "c b a \<le> 0" .
  then have "0 \<le> c a b" using cmp_swap_le[OF assms(1), of b a] by simp
  with assms(2) show False by simp
qed

lemma cmp_eq_class:
  assumes "cmp_ok c" "c y x = 0"
  shows "(c y e = 0) = (c x e = 0)"
proof
  have xy: "c x y \<le> 0" "c y x \<le> 0" using assms cmp_swap_0[OF assms(1), of y x] by auto
  {
    assume a: "c y e = 0"
    then have "c e y = 0" using cmp_swap_0[OF assms(1), of y e] by simp
    then have "c e x \<le> 0" using cmp_trans[OF assms(1), of e y x] xy by simp
    moreover have "c x e \<le> 0" using cmp_trans[OF assms(1), of x y e] xy a by simp
    ultimately show "c x e = 0" using cmp_swap_le[OF assms(1), of e x] by simp
  }
  {
    assume a: "c x e = 0"
    then have "c e x = 0" using cmp_swap_0[OF assms(1), of x e] by simp
    then have "c e y \<le> 0" using cmp_trans[OF assms(1), of e x y] xy by simp
    moreover have "c y e \<le> 0" using cmp_trans[OF assms(1), of y x e] xy a by simp
    ultimately show "c y e = 0" using cmp_swap_le[OF assms(1), of e y] by simp
  }
qed

lemma dup_eq_0: "dup_ok c d \<Longrightarrow> (c (d x) y = 0) = (c x y = 0)"
  unfolding dup_ok_def by (metis linorder_neqE_linordered_idom less_irrefl)

lemma dup_less: "dup_ok c d \<Longrightarrow> (c (d x) y < 0) = (c x y < 0)"
  by (simp add: dup_ok_def)

lemma dup_less_right: "cmp_ok c \<Longrightarrow> dup_ok c d \<Longrightarrow> (c y (d x) < 0) = (c y x < 0)"
  using cmp_swap[of c y "d x"] cmp_swap[of c y x] by (simp add: dup_ok_def)

subsection \<open>Where an insertion puts the new element\<close>

lemma elems_linkT_sorted:
  assumes c: "cmp_ok c"
  shows "sortedT c t \<Longrightarrow>
         elems (linkT c x n s t) =
         filter (\<lambda>y. c y x < 0) (elems t) @ s # filter (\<lambda>y. \<not> c y x < 0) (elems t)"
proof (induction t)
  case Leaf
  show ?case by simp
next
  case (Node l a lv y r)
  from Node.prems have sl: "sortedT c l" and sr: "sortedT c r"
    and ly: "\<forall>z\<in>set (elems l). c z y \<le> 0" and yr: "\<forall>z\<in>set (elems r). c y z \<le> 0"
    by (auto simp: sortedT_def sorted_wrt_append)
  show ?case
  proof (cases "c y x < 0")
    case True
    have "\<forall>z\<in>set (elems l). c z x < 0"
      using ly True cmp_le_less_trans[OF c] by blast
    then have "filter (\<lambda>y. c y x < 0) (elems l) = elems l"
      "filter (\<lambda>y. \<not> c y x < 0) (elems l) = []"
      by (simp_all add: filter_empty_conv)
    with True Node.IH(2)[OF sr] show ?thesis by simp
  next
    case False
    have "\<forall>z\<in>set (elems r). \<not> c z x < 0"
    proof
      fix z assume "z \<in> set (elems r)"
      with yr have "c y z \<le> 0" by blast
      show "\<not> c z x < 0"
      proof
        assume "c z x < 0"
        from cmp_le_less_trans[OF c \<open>c y z \<le> 0\<close> this] False show False by simp
      qed
    qed
    then have "filter (\<lambda>y. c y x < 0) (elems r) = []"
      "filter (\<lambda>y. \<not> c y x < 0) (elems r) = elems r"
      by (simp_all add: filter_empty_conv)
    with False Node.IH(1)[OF sl] show ?thesis by simp
  qed
qed

lemma sortedT_linkT:
  assumes c: "cmp_ok c" and d: "dup_ok c d" and s: "sortedT c t"
  shows "sortedT c (linkT c x n (d x) t)"
proof -
  let ?P = "\<lambda>a b. c a b \<le> 0"
  let ?lo = "filter (\<lambda>y. c y x < 0) (elems t)" and ?hi = "filter (\<lambda>y. \<not> c y x < 0) (elems t)"
  from s have sl: "sorted_wrt ?P ?lo" and sh: "sorted_wrt ?P ?hi"
    by (simp_all add: sortedT_def sorted_wrt_filter)
  have lo: "c z (d x) \<le> 0" if "z \<in> set ?lo" for z
    using that dup_less_right[OF c d, of z x] by auto
  have hi: "c (d x) z \<le> 0" if "z \<in> set ?hi" for z
  proof -
    from that have "\<not> c z x < 0" by simp
    then have "\<not> c z (d x) < 0" using dup_less_right[OF c d, of z x] by simp
    then show ?thesis using cmp_swap[OF c, of z "d x"] by simp
  qed
  have cross: "c z w \<le> 0" if "z \<in> set ?lo" "w \<in> set ?hi" for z w
    using cmp_trans[OF c lo[OF that(1)] hi[OF that(2)]] .
  have "sorted_wrt ?P (?lo @ d x # ?hi)"
    using sl sh lo hi cross by (auto simp: sorted_wrt_append)
  then show ?thesis
    unfolding sortedT_def elems_linkT_sorted[OF c s] .
qed

lemma sortedT_cutT:
  assumes "sortedT c t" "has c x t"
  shows "sortedT c (cutT c x t)"
proof -
  from elems_cutT[OF assms(2)] obtain ys zs where
    "elems t = ys @ the (felem (fsub c x t)) # zs" "elems (cutT c x t) = ys @ zs" by blast
  with assms(1) show ?thesis by (auto simp: sortedT_def sorted_wrt_append)
qed

lemma sortedT_stepT:
  assumes "cmp_ok c" "dup_ok c d" "invar t" "sortedT c t"
  shows "sortedT c (stepT c d t p)"
proof (cases p)
  case (Insert x m)
  show ?thesis
  proof (cases m)
    case None
    with Insert assms(4) show ?thesis by simp
  next
    case (Some a)
    from sortedT_linkT[OF assms(1,2,4), of x a] Insert Some show ?thesis
      by (simp add: sortedT_def)
  qed
next
  case (Erase x)
  show ?thesis
  proof (cases "has c x t")
    case True
    from sortedT_cutT[OF assms(4) True] eraseT_delT[OF assms(3), of c x] Erase True
    show ?thesis by (simp add: sortedT_def)
  next
    case False
    with Erase assms(4) show ?thesis by simp
  qed
qed

lemma sortedT_runT:
  "cmp_ok c \<Longrightarrow> dup_ok c d \<Longrightarrow> invar t \<Longrightarrow> sortedT c t \<Longrightarrow> sortedT c (runT c d t ps)"
proof (induction ps arbitrary: t)
  case Nil
  then show ?case by simp
next
  case (Cons p ps)
  have "invar (stepT c d t p)" using Cons.prems(3) by (rule invar_stepT)
  moreover have "sortedT c (stepT c d t p)" using Cons.prems by (rule sortedT_stepT)
  ultimately have "sortedT c (runT c d (stepT c d t p) ps)"
    using Cons.IH Cons.prems(1,2) by blast
  then show ?case by simp
qed

subsection \<open>Lookup\<close>

lemma has_iff_elem:
  assumes c: "cmp_ok c"
  shows "sortedT c t \<Longrightarrow> has c x t = (\<exists>y\<in>set (elems t). c y x = 0)"
proof (induction t)
  case Leaf
  show ?case by simp
next
  case (Node l a lv y r)
  from Node.prems have sl: "sortedT c l" and sr: "sortedT c r"
    and ly: "\<forall>z\<in>set (elems l). c z y \<le> 0" and yr: "\<forall>z\<in>set (elems r). c y z \<le> 0"
    by (auto simp: sortedT_def sorted_wrt_append)
  show ?case
  proof (cases "c y x = 0")
    case True
    then show ?thesis by auto
  next
    case False
    show ?thesis
    proof (cases "c y x < 0")
      case True
      have "\<forall>z\<in>set (elems l). c z x \<noteq> 0"
        using ly True cmp_le_less_trans[OF c] by fastforce
      with True False Node.IH(2)[OF sr] show ?thesis by auto
    next
      case g: False
      have "\<forall>z\<in>set (elems r). c z x \<noteq> 0"
      proof
        fix z assume "z \<in> set (elems r)"
        with yr have yz: "c y z \<le> 0" by blast
        show "c z x \<noteq> 0"
        proof
          assume "c z x = 0"
          with cmp_trans[OF c yz, of x] have "c y x \<le> 0" by simp
          with g False show False by simp
        qed
      qed
      with g False Node.IH(1)[OF sl] show ?thesis by auto
    qed
  qed
qed

lemma afind_loop_rep:
  "is_tree (heap tree) (nil tree) p t \<Longrightarrow>
   afind_loop tree x p = Some (top_addr (nil tree) (fsub (cmp tree) x t))"
proof (induction t arbitrary: p)
  case Leaf
  then show ?case by (simp add: afind_loop.simps)
next
  case (Node l a lv y r)
  then have pa: "p = a" "a \<noteq> nil tree" "data (heap tree a) = Some y"
    and il: "is_tree (heap tree) (nil tree) (link (heap tree a) False) l"
    and ir: "is_tree (heap tree) (nil tree) (link (heap tree a) True) r"
    by auto
  show ?case
  proof (cases "cmp tree y x = 0")
    case True
    with pa show ?thesis by (subst afind_loop.simps) simp
  next
    case False
    show ?thesis
    proof (cases "cmp tree y x < 0")
      case True
      with pa False Node.IH(2)[OF ir] show ?thesis by (subst afind_loop.simps) simp
    next
      case g: False
      with pa False Node.IH(1)[OF il] show ?thesis by (subst afind_loop.simps) simp
    qed
  qed
qed

lemma fsub_elem: "fsub c x t = Node fl f flv fy fr \<Longrightarrow> fy \<in> set (elems t)"
  by (induction t) (auto split: if_splits)

lemma jsw_afind_rep:
  assumes "represents tree t"
  shows "jsw_afind tree x = Some (felem (fsub (cmp tree) x t))"
proof -
  from assms have i: "is_tree (heap tree) (nil tree) (root tree) t"
    and nk: "nil_ok (heap tree) (nil tree)"
    by (auto simp: represents_def rep_def)
  have "data (heap tree (top_addr (nil tree) (fsub (cmp tree) x t))) = felem (fsub (cmp tree) x t)"
  proof (cases "fsub (cmp tree) x t")
    case Leaf
    with nk show ?thesis by (simp add: nil_ok_def)
  next
    case (Node fl f flv fy fr)
    with is_tree_fsub[OF i, of "cmp tree" x] show ?thesis by simp
  qed
  with afind_loop_rep[OF i, of x] show ?thesis by (simp add: jsw_afind_def)
qed

subsection \<open>Counting the elements that compare equal to a given one\<close>

fun ins_eq :: "('a \<Rightarrow> 'a \<Rightarrow> int) \<Rightarrow> 'a \<Rightarrow> 'a call list \<Rightarrow> int list \<Rightarrow> nat" where
  "ins_eq c e (Insert x m # ps) (r # rs) =
     (if r \<noteq> 0 \<and> c x e = 0 then 1 else 0) + ins_eq c e ps rs"
| "ins_eq c e (Erase x # ps) (r # rs) = ins_eq c e ps rs"
| "ins_eq c e ps rs = 0"

fun era_eq :: "('a \<Rightarrow> 'a \<Rightarrow> int) \<Rightarrow> 'a \<Rightarrow> 'a call list \<Rightarrow> int list \<Rightarrow> nat" where
  "era_eq c e (Erase x # ps) (r # rs) =
     (if r \<noteq> 0 \<and> c x e = 0 then 1 else 0) + era_eq c e ps rs"
| "era_eq c e (Insert x m # ps) (r # rs) = era_eq c e ps rs"
| "era_eq c e ps rs = 0"

definition eqs :: "('a \<Rightarrow> 'a \<Rightarrow> int) \<Rightarrow> 'a \<Rightarrow> 'a atree \<Rightarrow> nat" where
  "eqs c e t = length (filter (\<lambda>y. c y e = 0) (elems t))"

lemma eqs_linkT: "eqs c e (linkT c x n s t) = (if c s e = 0 then 1 else 0) + eqs c e t"
  by (induction t) (auto simp: eqs_def)

lemma eqs_cutT:
  assumes "has c x t"
  shows "eqs c e t = (if c (the (felem (fsub c x t))) e = 0 then 1 else 0) + eqs c e (cutT c x t)"
proof -
  from elems_cutT[OF assms] obtain ys zs where
    "elems t = ys @ the (felem (fsub c x t)) # zs" "elems (cutT c x t) = ys @ zs" by blast
  then show ?thesis by (simp add: eqs_def)
qed

lemma felem_found: "has c x t \<Longrightarrow> c (the (felem (fsub c x t))) x = 0"
  by (induction t) auto

lemma eqs_stepT:
  assumes c: "cmp_ok c" and d: "dup_ok c d" and iv: "invar t"
  shows "eqs c e (stepT c d t p) +
           (if retT c t p \<noteq> 0 \<and> (\<exists>x. p = Erase x \<and> c x e = 0) then 1 else 0) =
         eqs c e t +
           (if retT c t p \<noteq> 0 \<and> (\<exists>x m. p = Insert x m \<and> c x e = 0) then 1 else 0)"
proof (cases p)
  case (Insert x m)
  show ?thesis
  proof (cases m)
    case None
    with Insert show ?thesis by simp
  next
    case (Some a)
    have "eqs c e (insT c x a (d x) t) = eqs c e (linkT c x a (d x) t)"
      by (simp add: eqs_def)
    with Insert Some show ?thesis by (simp add: eqs_linkT dup_eq_0[OF d])
  qed
next
  case (Erase x)
  show ?thesis
  proof (cases "has c x t")
    case True
    have "eqs c e (eraseT c x t) = eqs c e (cutT c x t)"
      by (simp add: eqs_def eraseT_delT[OF iv])
    with Erase True eqs_cutT[OF True, of e] cmp_eq_class[OF c felem_found[OF True], of e]
    show ?thesis by simp
  next
    case False
    with Erase show ?thesis by simp
  qed
qed

lemma eqs_runT:
  "cmp_ok c \<Longrightarrow> dup_ok c d \<Longrightarrow> invar t \<Longrightarrow>
   eqs c e (runT c d t ps) + era_eq c e ps (retsT c d t ps) =
   eqs c e t + ins_eq c e ps (retsT c d t ps)"
proof (induction ps arbitrary: t)
  case Nil
  show ?case by simp
next
  case (Cons p ps)
  have "invar (stepT c d t p)" using Cons.prems(3) by (rule invar_stepT)
  from Cons.IH[OF Cons.prems(1,2) this] eqs_stepT[OF Cons.prems, of e p]
  show ?case by (cases p) (auto split: if_splits)
qed

subsection \<open>The path of an insertion\<close>

text \<open>
  \<open>follows tree x path\<close>: each node of the path is followed by its child on the side
  \<open>cmp (element of the node, x) < 0\<close>: the high child when the comparison is
  negative, the low child when it is zero or positive.
\<close>

fun follows :: "'a jsw_atree \<Rightarrow> 'a \<Rightarrow> addr list \<Rightarrow> bool" where
  "follows tree x (p # q # ps) =
     ((case data (heap tree p) of
         None \<Rightarrow> False
       | Some d \<Rightarrow> q = link (heap tree p) (cmp tree d x < 0)) \<and>
      follows tree x (q # ps))"
| "follows tree x ps = True"

lemma ins_path_hd: "t \<noteq> Leaf \<Longrightarrow> hd (ins_path c x t) = top_addr nl t"
  by (cases t) auto

lemma ins_path_Nil: "(ins_path c x t = []) = (t = Leaf)"
  by (cases t) auto

lemma follows_ins_path:
  "is_tree (heap tree) (nil tree) p t \<Longrightarrow> follows tree x (ins_path (cmp tree) x t)"
proof (induction t arbitrary: p)
  case Leaf
  show ?case by simp
next
  case (Node l a lv y r)
  then have da: "data (heap tree a) = Some y"
    and il: "is_tree (heap tree) (nil tree) (link (heap tree a) False) l"
    and ir: "is_tree (heap tree) (nil tree) (link (heap tree a) True) r"
    by auto
  let ?d = "cmp tree y x < 0"
  let ?ch = "if ?d then r else l"
  have ic: "is_tree (heap tree) (nil tree) (link (heap tree a) ?d) ?ch" using il ir by simp
  have fc: "follows tree x (ins_path (cmp tree) x ?ch)"
    using Node.IH(1)[OF il] Node.IH(2)[OF ir] by simp
  have p: "ins_path (cmp tree) x (Node l a lv y r) = a # ins_path (cmp tree) x ?ch" by simp
  show ?case
  proof (cases "ins_path (cmp tree) x ?ch")
    case Nil
    with p show ?thesis by simp
  next
    case (Cons b bs)
    then have "?ch \<noteq> Leaf" using ins_path_Nil[of "cmp tree" x ?ch] by auto
    from ins_path_hd[OF this, of "cmp tree" x "nil tree"] Cons is_tree_top[OF ic]
    have "b = link (heap tree a) ?d" by simp
    with fc Cons da show ?thesis unfolding p by simp
  qed
qed

lemma ins_spot_last:
  "is_tree h nl p t \<Longrightarrow> t \<noteq> Leaf \<Longrightarrow>
   last (ins_path c x t) = fst (ins_spot c x t) \<and>
   (\<exists>d. data (h (fst (ins_spot c x t))) = Some d \<and> snd (ins_spot c x t) = (c d x < 0))"
proof (induction t arbitrary: p)
  case Leaf
  then show ?case by simp
next
  case (Node l a lv y r)
  then have da: "data (h a) = Some y"
    and il: "is_tree h nl (link (h a) False) l" and ir: "is_tree h nl (link (h a) True) r"
    by auto
  show ?case
  proof (cases "c y x < 0")
    case True
    show ?thesis
    proof (cases "r = Leaf")
      case t: True
      with True da show ?thesis by simp
    next
      case False
      with Node.IH(2)[OF ir False] True show ?thesis by (simp add: ins_path_Nil)
    qed
  next
    case g: False
    show ?thesis
    proof (cases "l = Leaf")
      case True
      with g da show ?thesis by simp
    next
      case False
      with Node.IH(1)[OF il False] g show ?thesis by (simp add: ins_path_Nil)
    qed
  qed
qed

lemma ainsert_descend_follows:
  assumes "represents tree t" "root tree \<noteq> nil tree"
  shows "\<exists>path it dir. ainsert_descend tree x (root tree) [] = Some (path, it, dir) \<and>
           follows tree x path \<and> hd path = root tree \<and> last path = it \<and>
           (case data (heap tree it) of None \<Rightarrow> False | Some d \<Rightarrow> dir = (cmp tree d x < 0)) \<and>
           link (heap tree it) dir = nil tree"
proof -
  from assms(1) have i: "is_tree (heap tree) (nil tree) (root tree) t"
    by (auto simp: represents_def rep_def)
  with assms(2) have tn: "t \<noteq> Leaf" by auto
  let ?c = "cmp tree"
  obtain it dir where sp: "ins_spot ?c x t = (it, dir)" by (cases "ins_spot ?c x t")
  have d: "ainsert_descend tree x (root tree) [] = Some (ins_path ?c x t, it, dir)"
    using ainsert_descend_rep[OF i tn, of x "[]"] sp by simp
  have f: "follows tree x (ins_path ?c x t)" using i by (rule follows_ins_path)
  have h: "hd (ins_path ?c x t) = root tree"
    using ins_path_hd[OF tn, of ?c x "nil tree"] is_tree_top[OF i] by simp
  from ins_spot_last[OF i tn, of ?c x] sp obtain dd where
    l: "last (ins_path ?c x t) = it" and dt: "data (heap tree it) = Some dd" "dir = (?c dd x < 0)"
    by auto
  have k: "link (heap tree it) dir = nil tree"
    using ins_spot_link[of "heap tree" "nil tree" "root tree" t ?c x] i tn sp by auto
  from d f h l dt k show ?thesis by simp
qed

lemma linkT_zip: "(n, s) \<in> set (zip (addrs (linkT c x n s t)) (elems (linkT c x n s t)))"
proof (induction t)
  case Leaf
  show ?case by simp
next
  case (Node l a lv y r)
  have len: "length (addrs u) = length (elems u)" for u :: "'a atree"
    by (simp add: length_elems)
  show ?case
  proof (cases "c y x < 0")
    case True
    with Node.IH(2) show ?thesis by (simp add: zip_append len)
  next
    case False
    with Node.IH(1) show ?thesis by (simp add: zip_append len)
  qed
qed

lemma zip_map_eq: "map f xs = map g ys \<Longrightarrow> (a, y) \<in> set (zip xs ys) \<Longrightarrow> f a = g y"
proof (induction xs arbitrary: ys)
  case Nil
  then show ?case by simp
next
  case (Cons b xs)
  then show ?case by (cases ys) auto
qed

lemma inserted_data:
  assumes "is_tree h nl p (insT c x n s t)"
  shows "data (h n) = Some s"
proof -
  from data_addrs[OF assms]
  have "map (\<lambda>a. data (h a)) (addrs (linkT c x n s t)) = map Some (elems (linkT c x n s t))"
    by simp
  from zip_map_eq[OF this linkT_zip] show ?thesis .
qed

definition below :: "('a \<Rightarrow> 'a \<Rightarrow> int) \<Rightarrow> 'a \<Rightarrow> 'a option \<Rightarrow> bool" where
  "below c x s = (case s of None \<Rightarrow> False | Some y \<Rightarrow> c y x < 0)"

definition equal_to :: "('a \<Rightarrow> 'a \<Rightarrow> int) \<Rightarrow> 'a \<Rightarrow> 'a option \<Rightarrow> bool" where
  "equal_to c e s = (case s of None \<Rightarrow> False | Some y \<Rightarrow> c y e = 0)"

lemma filter_below: "filter (below c x) (map Some xs) = map Some (filter (\<lambda>y. c y x < 0) xs)"
  by (induction xs) (auto simp: below_def)

lemma filter_not_below:
  "filter (\<lambda>s. \<not> below c x s) (map Some xs) = map Some (filter (\<lambda>y. \<not> c y x < 0) xs)"
  by (induction xs) (auto simp: below_def)

lemma filter_equal_to: "length (filter (equal_to c e) (map Some xs)) = length (filter (\<lambda>y. c y e = 0) xs)"
  by (induction xs) (auto simp: equal_to_def)

lemma cmp_ok_icmp: "cmp_ok icmp"
  by (auto simp: cmp_ok_def icmp_def)

lemma dup_ok_id: "dup_ok icmp id"
  by (simp add: dup_ok_def)

section \<open>Traversal\<close>

text \<open>
  A client walks a tree by calling \<open>jsw_atfirst\<close> and then \<open>jsw_atnext\<close> until
  \<open>NULL\<close> comes back (or \<open>jsw_atlast\<close> and \<open>jsw_atprev\<close>). \<open>collect\<close> is that
  loop: \<open>nxt\<close> is the function called for the next element, \<open>cur\<close> the element just
  returned, \<open>acc\<close> the elements seen so far.
\<close>

partial_function (option) collect ::
  "('a jsw_atrav \<Rightarrow> ('a option \<times> 'a jsw_atrav) option) \<Rightarrow> 'a jsw_atrav \<Rightarrow> 'a option \<Rightarrow>
   'a list \<Rightarrow> 'a list option" where
  "collect nxt trav cur acc =
     (case cur of
        None \<Rightarrow> Some acc
      | Some y \<Rightarrow>
          (case nxt trav of
             None \<Rightarrow> None
           | Some (cur', trav') \<Rightarrow> collect nxt trav' cur' (acc @ [y])))"

definition forward :: "'a jsw_atrav \<Rightarrow> 'a jsw_atree \<Rightarrow> 'a list option" where
  "forward trav tree =
     (case jsw_atfirst trav tree of
        None \<Rightarrow> None
      | Some (cur, trav') \<Rightarrow> collect jsw_atnext trav' cur [])"

definition backward :: "'a jsw_atrav \<Rightarrow> 'a jsw_atree \<Rightarrow> 'a list option" where
  "backward trav tree =
     (case jsw_atlast trav tree of
        None \<Rightarrow> None
      | Some (cur, trav') \<Rightarrow> collect jsw_atprev trav' cur [])"

text \<open>
  On trees: \<open>seqd d t\<close> lists the elements of \<open>t\<close> in the order of a walk in direction
  \<open>d\<close>, and \<open>tail d t\<close> is the part of it from the root of \<open>t\<close> on. A position of the
  walk is a subtree \<open>s\<close> together with the way down to it: its ancestors, nearest first,
  each with the side taken. \<open>pending\<close> lists what is left to visit above \<open>s\<close>.
\<close>

fun child :: "bool \<Rightarrow> 'a atree \<Rightarrow> 'a atree" where
  "child d Leaf = Leaf"
| "child d (Node l a lv x r) = (if d then r else l)"

fun seqd :: "bool \<Rightarrow> 'a atree \<Rightarrow> 'a list" where
  "seqd d Leaf = []"
| "seqd d (Node l a lv x r) =
     (if d then seqd d l @ x # seqd d r else seqd d r @ x # seqd d l)"

fun tail :: "bool \<Rightarrow> 'a atree \<Rightarrow> 'a list" where
  "tail d Leaf = []"
| "tail d (Node l a lv x r) = x # seqd d (if d then r else l)"

fun pending :: "bool \<Rightarrow> ('a atree \<times> bool) list \<Rightarrow> 'a list" where
  "pending d [] = []"
| "pending d ((u, e) # fs) = (if e = d then [] else tail d u) @ pending d fs"

fun chain :: "'a atree \<Rightarrow> ('a atree \<times> bool) list \<Rightarrow> 'a atree \<Rightarrow> bool" where
  "chain t [] s = (s = t)"
| "chain t ((u, e) # fs) s = (u \<noteq> Leaf \<and> s = child e u \<and> chain t fs u)"

definition stack :: "addr \<Rightarrow> ('a atree \<times> bool) list \<Rightarrow> addr list" where
  "stack nl fs = rev (map (\<lambda>f. top_addr nl (fst f)) fs)"

lemma seqd_True: "seqd True t = elems t"
  by (induction t) auto

lemma seqd_False: "seqd False t = rev (elems t)"
  by (induction t) auto

lemma seqd_tail: "seqd d t = seqd d (child (\<not> d) t) @ tail d t"
  by (cases t) auto

lemma tail_child: "tail d t = (case felem t of None \<Rightarrow> [] | Some x \<Rightarrow> x # seqd d (child d t))"
  by (cases t) auto

lemma child_is_tree:
  "is_tree h nl p u \<Longrightarrow> u \<noteq> Leaf \<Longrightarrow>
   is_tree h nl (link (h p) e) (child e u) \<and> link (h p) e = top_addr nl (child e u)"
  by (cases u) (auto dest: is_tree_top)

lemma chain_is_tree:
  "is_tree h nl p t \<Longrightarrow> chain t fs s \<Longrightarrow> is_tree h nl (top_addr nl s) s"
proof (induction fs arbitrary: s)
  case Nil
  then show ?case using is_tree_top by fastforce
next
  case (Cons f fs)
  obtain u e where f: "f = (u, e)" by (cases f)
  with Cons.prems have u: "u \<noteq> Leaf" and s: "s = child e u" and c: "chain t fs u" by auto
  from Cons.IH[OF Cons.prems(1) c] have "is_tree h nl (top_addr nl u) u" .
  from child_is_tree[OF this u, of e]
  have "is_tree h nl (link (h (top_addr nl u)) e) (child e u)"
    and "link (h (top_addr nl u)) e = top_addr nl (child e u)" by blast+
  then have "is_tree h nl (top_addr nl (child e u)) (child e u)" by (simp only:)
  with s show ?case by (simp only:)
qed

lemma chain_distinct: "distinct (addrs t) \<Longrightarrow> chain t fs s \<Longrightarrow> distinct (addrs s)"
proof (induction fs arbitrary: s)
  case Nil
  then show ?case by simp
next
  case (Cons f fs)
  obtain u e where f: "f = (u, e)" by (cases f)
  with Cons.prems have s: "s = child e u" and c: "chain t fs u" by auto
  from Cons.IH[OF Cons.prems(1) c] have "distinct (addrs u)" .
  with s show ?case by (cases u) auto
qed

lemma stack_Cons: "stack nl ((u, e) # fs) = stack nl fs @ [top_addr nl u]"
  by (simp add: stack_def)

lemma length_stack [simp]: "length (stack nl fs) = length fs"
  by (simp add: stack_def)

lemma push_stack:
  "take (length fs) path = stack nl fs \<Longrightarrow>
   take (length ((u, e) # fs)) (push path (length fs) (top_addr nl u)) = stack nl ((u, e) # fs)"
  by (simp add: push_def stack_Cons)

text \<open>Going down on one side as far as possible, as \<open>start\<close> and \<open>move\<close> do.\<close>

lemma start_loop_chain:
  "is_tree (heap tree) (nil tree) p u \<Longrightarrow> u \<noteq> Leaf \<Longrightarrow> chain t fs u \<Longrightarrow>
   take (length fs) path = stack (nil tree) fs \<Longrightarrow>
   \<exists>fs' s' path'. start_loop tree e p path (length fs) =
       Some (top_addr (nil tree) s', path', length fs') \<and>
     chain t fs' s' \<and> s' \<noteq> Leaf \<and> take (length fs') path' = stack (nil tree) fs' \<and>
     tail (\<not> e) s' @ pending (\<not> e) fs' = seqd (\<not> e) u @ pending (\<not> e) fs"
proof (induction u arbitrary: p fs path)
  case Leaf
  then show ?case by simp
next
  case (Node l a lv x r)
  let ?u = "Node l a lv x r"
  from Node.prems(1) have pa: "p = a" by simp
  from child_is_tree[OF Node.prems(1), of e]
  have ic: "is_tree (heap tree) (nil tree) (link (heap tree p) e) (child e ?u)"
    and lk: "link (heap tree p) e = top_addr (nil tree) (child e ?u)" by auto
  show ?case
  proof (cases "child e ?u = Leaf")
    case True
    with lk have "link (heap tree p) e = nil tree" by simp
    then have "start_loop tree e p path (length fs) = Some (p, path, length fs)"
      by (subst start_loop.simps) simp
    moreover have "tail (\<not> e) ?u @ pending (\<not> e) fs = seqd (\<not> e) ?u @ pending (\<not> e) fs"
      using True seqd_tail[of "\<not> e" ?u] by simp
    ultimately show ?thesis using Node.prems pa
      by (intro exI[of _ fs] exI[of _ ?u] exI[of _ path]) simp
  next
    case False
    with ic have ln: "link (heap tree p) e \<noteq> nil tree" by (cases "child e ?u") auto
    let ?fs1 = "(?u, e) # fs"
    let ?path1 = "push path (length fs) p"
    have st: "start_loop tree e p path (length fs) =
        start_loop tree e (link (heap tree p) e) ?path1 (length ?fs1)"
      using ln by (subst start_loop.simps) simp
    have c1: "chain t ?fs1 (child e ?u)" using Node.prems(3) by simp
    have p1: "take (length ?fs1) ?path1 = stack (nil tree) ?fs1"
      using push_stack[OF Node.prems(4), of ?u e] pa by simp
    have IH: "\<exists>fs' s' path'. start_loop tree e (link (heap tree p) e) ?path1 (length ?fs1) =
         Some (top_addr (nil tree) s', path', length fs') \<and>
       chain t fs' s' \<and> s' \<noteq> Leaf \<and> take (length fs') path' = stack (nil tree) fs' \<and>
       tail (\<not> e) s' @ pending (\<not> e) fs' =
         seqd (\<not> e) (child e ?u) @ pending (\<not> e) ?fs1"
    proof (cases e)
      case True
      with ic False c1 p1 Node.IH(2)[of "link (heap tree p) e" ?fs1 ?path1]
      show ?thesis by simp
    next
      case e: False
      with ic False c1 p1 Node.IH(1)[of "link (heap tree p) e" ?fs1 ?path1]
      show ?thesis by simp
    qed
    then obtain fs' s' path' where
      A: "start_loop tree e (link (heap tree p) e) ?path1 (length ?fs1) =
            Some (top_addr (nil tree) s', path', length fs')"
        "chain t fs' s'" "s' \<noteq> Leaf" "take (length fs') path' = stack (nil tree) fs'"
      and B: "tail (\<not> e) s' @ pending (\<not> e) fs' =
            seqd (\<not> e) (child e ?u) @ pending (\<not> e) ?fs1"
      by (elim exE conjE)
    have eq: "seqd (\<not> e) (child e ?u) @ pending (\<not> e) ?fs1 =
        seqd (\<not> e) ?u @ pending (\<not> e) fs"
      using seqd_tail[of "\<not> e" ?u] by simp
    from A(1) st have C: "start_loop tree e p path (length fs) =
        Some (top_addr (nil tree) s', path', length fs')" by (simp only:)
    from B eq have D: "tail (\<not> e) s' @ pending (\<not> e) fs' =
        seqd (\<not> e) ?u @ pending (\<not> e) fs" by (simp only:)
    from C A(2,3,4) D show ?thesis by blast
  qed
qed

lemma move_down_chain:
  "is_tree (heap tree) (nil tree) p u \<Longrightarrow> u \<noteq> Leaf \<Longrightarrow> chain t fs u \<Longrightarrow>
   take (length fs) path = stack (nil tree) fs \<Longrightarrow>
   \<exists>fs' s' path'. move_down tree e p path (length fs) =
       Some (top_addr (nil tree) s', path', length fs') \<and>
     chain t fs' s' \<and> s' \<noteq> Leaf \<and> take (length fs') path' = stack (nil tree) fs' \<and>
     tail (\<not> e) s' @ pending (\<not> e) fs' = seqd (\<not> e) u @ pending (\<not> e) fs"
proof (induction u arbitrary: p fs path)
  case Leaf
  then show ?case by simp
next
  case (Node l a lv x r)
  let ?u = "Node l a lv x r"
  from Node.prems(1) have pa: "p = a" by simp
  from child_is_tree[OF Node.prems(1), of e]
  have ic: "is_tree (heap tree) (nil tree) (link (heap tree p) e) (child e ?u)"
    and lk: "link (heap tree p) e = top_addr (nil tree) (child e ?u)" by auto
  show ?case
  proof (cases "child e ?u = Leaf")
    case True
    with lk have "link (heap tree p) e = nil tree" by simp
    then have "move_down tree e p path (length fs) = Some (p, path, length fs)"
      by (subst move_down.simps) simp
    moreover have "tail (\<not> e) ?u @ pending (\<not> e) fs = seqd (\<not> e) ?u @ pending (\<not> e) fs"
      using True seqd_tail[of "\<not> e" ?u] by simp
    ultimately show ?thesis using Node.prems pa
      by (intro exI[of _ fs] exI[of _ ?u] exI[of _ path]) simp
  next
    case False
    with ic have ln: "link (heap tree p) e \<noteq> nil tree" by (cases "child e ?u") auto
    let ?fs1 = "(?u, e) # fs"
    let ?path1 = "push path (length fs) p"
    have st: "move_down tree e p path (length fs) =
        move_down tree e (link (heap tree p) e) ?path1 (length ?fs1)"
      using ln by (subst move_down.simps) simp
    have c1: "chain t ?fs1 (child e ?u)" using Node.prems(3) by simp
    have p1: "take (length ?fs1) ?path1 = stack (nil tree) ?fs1"
      using push_stack[OF Node.prems(4), of ?u e] pa by simp
    have IH: "\<exists>fs' s' path'. move_down tree e (link (heap tree p) e) ?path1 (length ?fs1) =
         Some (top_addr (nil tree) s', path', length fs') \<and>
       chain t fs' s' \<and> s' \<noteq> Leaf \<and> take (length fs') path' = stack (nil tree) fs' \<and>
       tail (\<not> e) s' @ pending (\<not> e) fs' =
         seqd (\<not> e) (child e ?u) @ pending (\<not> e) ?fs1"
    proof (cases e)
      case True
      with ic False c1 p1 Node.IH(2)[of "link (heap tree p) e" ?fs1 ?path1]
      show ?thesis by simp
    next
      case e: False
      with ic False c1 p1 Node.IH(1)[of "link (heap tree p) e" ?fs1 ?path1]
      show ?thesis by simp
    qed
    then obtain fs' s' path' where
      A: "move_down tree e (link (heap tree p) e) ?path1 (length ?fs1) =
            Some (top_addr (nil tree) s', path', length fs')"
        "chain t fs' s'" "s' \<noteq> Leaf" "take (length fs') path' = stack (nil tree) fs'"
      and B: "tail (\<not> e) s' @ pending (\<not> e) fs' =
            seqd (\<not> e) (child e ?u) @ pending (\<not> e) ?fs1"
      by (elim exE conjE)
    have eq: "seqd (\<not> e) (child e ?u) @ pending (\<not> e) ?fs1 =
        seqd (\<not> e) ?u @ pending (\<not> e) fs"
      using seqd_tail[of "\<not> e" ?u] by simp
    from A(1) st have C: "move_down tree e p path (length fs) =
        Some (top_addr (nil tree) s', path', length fs')" by (simp only:)
    from B eq have D: "tail (\<not> e) s' @ pending (\<not> e) fs' =
        seqd (\<not> e) ?u @ pending (\<not> e) fs" by (simp only:)
    from C A(2,3,4) D show ?thesis by blast
  qed
qed

lemma children_apart:
  assumes "is_tree h nl p u" "distinct (addrs u)" "child e u \<noteq> Leaf" "e \<noteq> d"
  shows "top_addr nl (child e u) \<noteq> top_addr nl (child d u)"
proof (cases u)
  case Leaf
  with assms(3) show ?thesis by simp
next
  case (Node l a lv x r)
  from assms(1) have nn: "nl \<notin> set (addrs u)" by (rule is_tree_nil_notin)
  from top_addr_in[OF assms(3), of nl] have i: "top_addr nl (child e u) \<in> set (addrs (child e u))" .
  show ?thesis
  proof (cases "child d u = Leaf")
    case True
    with i nn Node show ?thesis by (auto split: if_splits)
  next
    case False
    from top_addr_in[OF False, of nl] i assms(2,4) Node show ?thesis
      by (auto split: if_splits)
  qed
qed

text \<open>Going up until an ancestor is met from its other side.\<close>

lemma move_up_chain:
  assumes t: "is_tree (heap tree) (nil tree) p t" and dt: "distinct (addrs t)"
  shows "chain t fs s \<Longrightarrow> s \<noteq> Leaf \<Longrightarrow> take (length fs) path = stack (nil tree) fs \<Longrightarrow>
     (move_up tree d (top_addr (nil tree) s) path (length fs) = (nil tree, 0) \<and>
      pending d fs = []) \<or>
     (\<exists>fs' s'. move_up tree d (top_addr (nil tree) s) path (length fs) =
          (top_addr (nil tree) s', length fs') \<and>
        chain t fs' s' \<and> s' \<noteq> Leaf \<and> take (length fs') path = stack (nil tree) fs' \<and>
        pending d fs = tail d s' @ pending d fs')"
proof (induction fs arbitrary: s)
  case Nil
  then show ?case by simp
next
  case (Cons f fs)
  let ?nl = "nil tree" and ?h = "heap tree"
  obtain u e where f: "f = (u, e)" by (cases f)
  with Cons.prems have u: "u \<noteq> Leaf" and s: "s = child e u" and c: "chain t fs u" by auto
  from Cons.prems(3) f have tk: "take (Suc (length fs)) path = stack ?nl fs @ [top_addr ?nl u]"
    by (simp add: stack_Cons)
  have "path ! length fs = take (Suc (length fs)) path ! length fs" by simp
  also have "\<dots> = top_addr ?nl u" unfolding tk by (simp add: nth_append)
  finally have pn: "path ! length fs = top_addr ?nl u" .
  have "take (length fs) (take (Suc (length fs)) path) = take (length fs) path" by simp
  then have tk1: "take (length fs) path = stack ?nl fs" unfolding tk by simp
  have iu: "is_tree ?h ?nl (top_addr ?nl u) u" using t c by (rule chain_is_tree)
  have du: "distinct (addrs u)" using dt c by (rule chain_distinct)
  from child_is_tree[OF iu u, of d]
  have ld: "link (?h (top_addr ?nl u)) d = top_addr ?nl (child d u)" by simp
  show ?case
  proof (cases "e = d")
    case True
    with s ld pn have st: "move_up tree d (top_addr ?nl s) path (length (f # fs)) =
        move_up tree d (top_addr ?nl u) path (length fs)" by simp
    have pe: "pending d (f # fs) = pending d fs" using f True by simp
    from Cons.IH[OF c u tk1] show ?thesis unfolding st pe .
  next
    case False
    from children_apart[OF iu du _ False] Cons.prems(2) s
    have "top_addr ?nl s \<noteq> top_addr ?nl (child d u)" by simp
    with ld pn have st: "move_up tree d (top_addr ?nl s) path (length (f # fs)) =
        (top_addr ?nl u, length fs)" by simp
    have pe: "pending d (f # fs) = tail d u @ pending d fs" using f False by simp
    from st c u tk1 pe show ?thesis by blast
  qed
qed

text \<open>The state of a traversal that stands at the root of \<open>s\<close>.\<close>

definition at ::
  "'a jsw_atree \<Rightarrow> 'a atree \<Rightarrow> 'a jsw_atrav \<Rightarrow> ('a atree \<times> bool) list \<Rightarrow> 'a atree \<Rightarrow> bool" where
  "at tree t trav fs s =
     (t_tree trav = tree \<and> chain t fs s \<and> s \<noteq> Leaf \<and> t_it trav = top_addr (nil tree) s \<and>
      t_top trav = length fs \<and> take (length fs) (t_path trav) = stack (nil tree) fs)"

definition rest :: "bool \<Rightarrow> ('a atree \<times> bool) list \<Rightarrow> 'a atree \<Rightarrow> 'a list" where
  "rest d fs s = seqd d (child d s) @ pending d fs"

lemma tail_rest: "s \<noteq> Leaf \<Longrightarrow> tail d s @ pending d fs = the (felem s) # rest d fs s"
  by (cases s) (auto simp: rest_def)

lemma data_felem: "is_tree h nl p s \<Longrightarrow> s \<noteq> Leaf \<Longrightarrow> data (h p) = felem s"
  by (cases s) auto

lemma move_at:
  assumes rp: "represents tree t" and a: "at tree t trav fs s"
  shows "\<exists>cur trav'. move trav d = Some (cur, trav') \<and>
           ((cur = None \<and> rest d fs s = []) \<or>
            (\<exists>fs' s'. at tree t trav' fs' s' \<and> cur = felem s' \<and>
               rest d fs s = the (felem s') # rest d fs' s'))"
proof -
  let ?nl = "nil tree" and ?h = "heap tree"
  from rp have t: "is_tree ?h ?nl (root tree) t" and dt: "distinct (addrs t)"
    and nk: "nil_ok ?h ?nl" by (auto simp: represents_def rep_def)
  from a have tt: "t_tree trav = tree" and c: "chain t fs s" and sn: "s \<noteq> Leaf"
    and it: "t_it trav = top_addr ?nl s" and tp: "t_top trav = length fs"
    and pt: "take (length fs) (t_path trav) = stack ?nl fs"
    by (auto simp: at_def)
  have ist: "is_tree ?h ?nl (top_addr ?nl s) s" using t c by (rule chain_is_tree)
  from child_is_tree[OF ist sn, of d]
  have ic: "is_tree ?h ?nl (link (?h (top_addr ?nl s)) d) (child d s)"
    and lk: "link (?h (top_addr ?nl s)) d = top_addr ?nl (child d s)" by auto
  show ?thesis
  proof (cases "child d s = Leaf")
    case False
    with ic have ln: "link (?h (t_it trav)) d \<noteq> ?nl" unfolding it by (cases "child d s") auto
    let ?fs1 = "(s, d) # fs"
    let ?path1 = "push (t_path trav) (length fs) (top_addr ?nl s)"
    have c1: "chain t ?fs1 (child d s)" using c sn by simp
    have p1: "take (length ?fs1) ?path1 = stack ?nl ?fs1" using push_stack[OF pt, of s d] .
    from move_down_chain[OF ic False c1 p1, of "\<not> d"] obtain fs' s' path' where
      md: "move_down tree (\<not> d) (link (?h (top_addr ?nl s)) d) ?path1 (length ?fs1) =
             Some (top_addr ?nl s', path', length fs')"
      and c': "chain t fs' s'" and sn': "s' \<noteq> Leaf"
      and pt': "take (length fs') path' = stack ?nl fs'"
      and sq: "tail d s' @ pending d fs' = seqd d (child d s) @ pending d ?fs1"
      by auto
    let ?trav' = "trav\<lparr>t_it := top_addr ?nl s', t_path := path', t_top := length fs'\<rparr>"
    have ist': "is_tree ?h ?nl (top_addr ?nl s') s'" using t c' by (rule chain_is_tree)
    have mv: "move trav d = Some (felem s', ?trav')"
      using ln md tt it tp data_felem[OF ist' sn'] by (simp add: move_def Let_def)
    have at': "at tree t ?trav' fs' s'" using tt c' sn' pt' by (simp add: at_def)
    have "rest d fs s = the (felem s') # rest d fs' s'"
      using sq tail_rest[OF sn', of d fs'] by (simp add: rest_def)
    with mv at' show ?thesis by blast
  next
    case True
    with lk it have ln: "link (?h (t_it trav)) d = ?nl" by simp
    have r: "rest d fs s = pending d fs" using True by (simp add: rest_def)
    from move_up_chain[OF t dt c sn pt, of d]
    show ?thesis
    proof
      assume "move_up tree d (top_addr ?nl s) (t_path trav) (length fs) = (?nl, 0) \<and>
              pending d fs = []"
      then have mu: "move_up tree d (top_addr ?nl s) (t_path trav) (length fs) = (?nl, 0)"
        and pe: "pending d fs = []" by auto
      have "move trav d = Some (None, trav\<lparr>t_it := ?nl, t_top := 0\<rparr>)"
        using ln mu tt it tp nk by (simp add: move_def Let_def nil_ok_def)
      with r pe show ?thesis by simp
    next
      assume "\<exists>fs' s'. move_up tree d (top_addr ?nl s) (t_path trav) (length fs) =
          (top_addr ?nl s', length fs') \<and>
        chain t fs' s' \<and> s' \<noteq> Leaf \<and> take (length fs') (t_path trav) = stack ?nl fs' \<and>
        pending d fs = tail d s' @ pending d fs'"
      then obtain fs' s' where
        mu: "move_up tree d (top_addr ?nl s) (t_path trav) (length fs) =
               (top_addr ?nl s', length fs')"
        and c': "chain t fs' s'" and sn': "s' \<noteq> Leaf"
        and pt': "take (length fs') (t_path trav) = stack ?nl fs'"
        and pe: "pending d fs = tail d s' @ pending d fs'"
        by blast
      let ?trav' = "trav\<lparr>t_it := top_addr ?nl s', t_top := length fs'\<rparr>"
      have ist': "is_tree ?h ?nl (top_addr ?nl s') s'" using t c' by (rule chain_is_tree)
      have mv: "move trav d = Some (felem s', ?trav')"
        using ln mu tt it tp data_felem[OF ist' sn'] by (simp add: move_def Let_def)
      have at': "at tree t ?trav' fs' s'" using tt c' sn' pt' by (simp add: at_def)
      have "rest d fs s = the (felem s') # rest d fs' s'"
        using r pe tail_rest[OF sn', of d fs'] by simp
      with mv at' show ?thesis by blast
    qed
  qed
qed

lemma start_at:
  assumes rp: "represents tree t"
  shows "\<exists>cur trav'. start trav tree e = Some (cur, trav') \<and>
           ((cur = None \<and> seqd (\<not> e) t = []) \<or>
            (\<exists>fs' s'. at tree t trav' fs' s' \<and> cur = felem s' \<and>
               seqd (\<not> e) t = the (felem s') # rest (\<not> e) fs' s'))"
proof -
  let ?nl = "nil tree" and ?h = "heap tree"
  from rp have t: "is_tree ?h ?nl (root tree) t" and nk: "nil_ok ?h ?nl"
    by (auto simp: represents_def rep_def)
  show ?thesis
  proof (cases "t = Leaf")
    case True
    with t have "root tree = ?nl" by simp
    with nk True show ?thesis by (simp add: start_def nil_ok_def)
  next
    case False
    with t have rn: "root tree \<noteq> ?nl" by (cases t) auto
    have c0: "chain t [] t" by simp
    have p0: "take (length ([] :: ('a atree \<times> bool) list)) (t_path trav) = stack ?nl []"
      by (simp add: stack_def)
    from start_loop_chain[OF t False c0 p0, of e] obtain fs' s' path' where
      sl: "start_loop tree e (root tree) (t_path trav) 0 =
             Some (top_addr ?nl s', path', length fs')"
      and c': "chain t fs' s'" and sn': "s' \<noteq> Leaf"
      and pt': "take (length fs') path' = stack ?nl fs'"
      and sq: "tail (\<not> e) s' @ pending (\<not> e) fs' = seqd (\<not> e) t @ pending (\<not> e) []"
      by auto
    let ?trav' = "\<lparr>t_tree = tree, t_it = top_addr ?nl s', t_path = path', t_top = length fs'\<rparr>"
    have ist': "is_tree ?h ?nl (top_addr ?nl s') s'" using t c' by (rule chain_is_tree)
    have st: "start trav tree e = Some (felem s', ?trav')"
      using rn sl data_felem[OF ist' sn'] by (simp add: start_def)
    have at': "at tree t ?trav' fs' s'" using c' sn' pt' by (simp add: at_def)
    have "seqd (\<not> e) t = the (felem s') # rest (\<not> e) fs' s'"
      using sq tail_rest[OF sn', of "\<not> e" fs'] by simp
    with st at' show ?thesis by blast
  qed
qed

lemma collect_at:
  assumes rp: "represents tree t"
  shows "at tree t trav fs s \<Longrightarrow>
         collect (\<lambda>tv. move tv d) trav (felem s) acc = Some (acc @ the (felem s) # rest d fs s)"
proof (induction "length (rest d fs s)" arbitrary: trav fs s acc)
  case 0
  then have r: "rest d fs s = []" by simp
  from 0(2) have sn: "s \<noteq> Leaf" by (simp add: at_def)
  then obtain y where y: "felem s = Some y" by (cases s) auto
  from move_at[OF rp 0(2), of d] r obtain trav' where "move trav d = Some (None, trav')"
    by auto
  then have "collect (\<lambda>tv. move tv d) trav (Some y) acc = Some (acc @ [y])"
    by (subst collect.simps) (simp add: collect.simps)
  with y r show ?case by simp
next
  case (Suc k)
  from Suc(3) have sn: "s \<noteq> Leaf" by (simp add: at_def)
  then obtain y where y: "felem s = Some y" by (cases s) auto
  from Suc(2) have "rest d fs s \<noteq> []" by auto
  with move_at[OF rp Suc(3), of d] obtain trav' fs' s' where
    mv: "move trav d = Some (felem s', trav')" and at': "at tree t trav' fs' s'"
    and r: "rest d fs s = the (felem s') # rest d fs' s'"
    by auto
  from r Suc(2) have "k = length (rest d fs' s')" by simp
  from Suc(1)[OF this at', of "acc @ [y]"]
  have "collect (\<lambda>tv. move tv d) trav' (felem s') (acc @ [y]) =
      Some ((acc @ [y]) @ the (felem s') # rest d fs' s')" .
  with mv have "collect (\<lambda>tv. move tv d) trav (Some y) acc =
      Some ((acc @ [y]) @ the (felem s') # rest d fs' s')"
    by (subst collect.simps) simp
  with y r show ?case by simp
qed

lemma traverse_rep:
  assumes rp: "represents tree t"
  shows "forward trav tree = Some (elems t)" and "backward trav tree = Some (rev (elems t))"
proof -
  have n: "jsw_atnext = (\<lambda>tv. move tv True)" "jsw_atprev = (\<lambda>tv. move tv False)"
    by (auto simp: jsw_atnext_def jsw_atprev_def fun_eq_iff)
  have g: "(case start trav tree (\<not> d) of None \<Rightarrow> None
            | Some (cur, trav') \<Rightarrow> collect (\<lambda>tv. move tv d) trav' cur []) =
           Some (seqd d t)" for d
  proof -
    from start_at[OF rp, of trav "\<not> d"] obtain cur trav' where
      st: "start trav tree (\<not> d) = Some (cur, trav')"
      and o: "(cur = None \<and> seqd d t = []) \<or>
              (\<exists>fs' s'. at tree t trav' fs' s' \<and> cur = felem s' \<and>
                 seqd d t = the (felem s') # rest d fs' s')"
      by auto
    from o show ?thesis
    proof
      assume "cur = None \<and> seqd d t = []"
      with st show ?thesis by (simp add: collect.simps)
    next
      assume "\<exists>fs' s'. at tree t trav' fs' s' \<and> cur = felem s' \<and>
                 seqd d t = the (felem s') # rest d fs' s'"
      then obtain fs' s' where a: "at tree t trav' fs' s'" and c: "cur = felem s'"
        and s: "seqd d t = the (felem s') # rest d fs' s'" by blast
      from collect_at[OF rp a, of d "[]"] st c s show ?thesis by simp
    qed
  qed
  show "forward trav tree = Some (elems t)"
    using g[of True] unfolding forward_def jsw_atfirst_def n by (simp add: seqd_True)
  show "backward trav tree = Some (rev (elems t))"
    using g[of False] unfolding backward_def jsw_atlast_def n by (simp add: seqd_False)
qed

section \<open>The claims\<close>

text \<open>
  C9. Size consistency. Start from \<open>jsw_anew\<close> and make any calls of \<open>jsw_ainsert\<close>
  and \<open>jsw_aerase\<close>, every \<open>malloc\<close> returning nothing or an address not in use.
  All calls return, no more erasures succeed than insertions, and \<open>jsw_asize\<close> is the
  number of insertions that returned success minus the number of erasures that returned
  success. The field is a 64-bit word, so the equation is one between words.
\<close>

theorem size_consistency:
  assumes "jsw_anew cmpf dupf mem True (Some n) = Some tree" and "allocs_ok tree ps"
  shows "\<exists>rs tree'. run tree ps = Some (rs, tree') \<and> era_ok ps rs \<le> ins_ok ps rs \<and>
           jsw_asize tree' = of_nat (ins_ok ps rs) - of_nat (era_ok ps rs)"
proof -
  let ?rs = "retsT cmpf dupf Leaf ps" and ?t = "runT cmpf dupf Leaf ps"
  from run_from_new[OF assms] obtain tree' where
    r: "run tree ps = Some (?rs, tree')" and i: "tree_inv tree' ?t" by blast
  have c: "length (elems ?t) + era_ok ps ?rs = ins_ok ps ?rs"
    using count_runT[of Leaf cmpf dupf ps] by simp
  then have le: "era_ok ps ?rs \<le> ins_ok ps ?rs" by linarith
  from c have "(of_nat (ins_ok ps ?rs) :: 64 word) =
      of_nat (length (elems ?t)) + of_nat (era_ok ps ?rs)"
    by (metis of_nat_add)
  then have "(of_nat (length (elems ?t)) :: 64 word) =
      of_nat (ins_ok ps ?rs) - of_nat (era_ok ps ?rs)"
    by simp
  moreover from i have "tsize tree' = of_nat (length (elems ?t))" by (simp add: tree_inv_def)
  ultimately have "jsw_asize tree' = of_nat (ins_ok ps ?rs) - of_nat (era_ok ps ?rs)"
    by (simp add: jsw_asize_def)
  with r le show ?thesis by blast
qed

theorem size_consistency_witness:
  "\<exists>tree'. run tree0 calls1 = Some ([1, 1, 1, 0, 0, 1, 1], tree') \<and> jsw_asize tree' = 3"
proof -
  from size_consistency[OF jsw_anew_tree0 allocs_ok_calls1] obtain rs tree' where
    r: "run tree0 calls1 = Some (rs, tree')"
    and s: "jsw_asize tree' = of_nat (ins_ok calls1 rs) - of_nat (era_ok calls1 rs)"
    by blast
  from run_calls1 r have rs: "rs = [1, 1, 1, 0, 0, 1, 1]" by auto
  with s have "jsw_asize tree' = 3" by (simp add: calls1_def)
  with r rs show ?thesis by simp
qed

text \<open>
  C2. The level rules are preserved. In every tree reached from \<open>jsw_anew\<close> by calls of
  \<open>jsw_ainsert\<close> and \<open>jsw_aerase\<close>, every allocated node other than the sentinel has
  a low child exactly one level below it, and the high child of its high child is not
  on its own level.
\<close>

theorem level_rules_preserved:
  assumes "jsw_anew cmpf dupf mem True (Some n) = Some tree" and "allocs_ok tree ps"
  shows "\<exists>rs tree'. run tree ps = Some (rs, tree') \<and>
           (\<forall>a\<in>live tree' - {nil tree'}.
              level (heap tree' (link (heap tree' a) False)) = level (heap tree' a) - 1 \<and>
              level (heap tree' (link (heap tree' (link (heap tree' a) True)) True))
                \<noteq> level (heap tree' a))"
proof -
  let ?rs = "retsT cmpf dupf Leaf ps" and ?t = "runT cmpf dupf Leaf ps"
  from run_from_new[OF assms] obtain tree' where
    r: "run tree ps = Some (?rs, tree')" and i: "tree_inv tree' ?t" by blast
  from i have rp: "represents tree' ?t" and iv: "invar ?t" by (auto simp: tree_inv_def)
  from rp have it: "is_tree (heap tree') (nil tree') (root tree') ?t"
    and nk: "nil_ok (heap tree') (nil tree')" by (auto simp: represents_def rep_def)
  have "level (heap tree' (link (heap tree' a) False)) = level (heap tree' a) - 1 \<and>
        level (heap tree' (link (heap tree' (link (heap tree' a) True)) True))
          \<noteq> level (heap tree' a)"
    if "a \<in> live tree' - {nil tree'}" for a
  proof -
    from that live_nodes[OF rp] have "a \<in> set (addrs ?t)" by simp
    from node_levels[OF it nk iv this] show ?thesis by blast
  qed
  with r show ?thesis by blast
qed

theorem level_rules_preserved_witness:
  "\<exists>tree'. run tree0 calls1 = Some ([1, 1, 1, 0, 0, 1, 1], tree') \<and>
     level (heap tree' (link (heap tree' 1) False)) = level (heap tree' 1) - 1 \<and>
     level (heap tree' (link (heap tree' (link (heap tree' 1) True)) True))
       \<noteq> level (heap tree' 1)"
proof -
  from level_rules_preserved[OF jsw_anew_tree0 allocs_ok_calls1] obtain rs tree' where
    r: "run tree0 calls1 = Some (rs, tree')"
    and b: "\<forall>a\<in>live tree' - {nil tree'}.
              level (heap tree' (link (heap tree' a) False)) = level (heap tree' a) - 1 \<and>
              level (heap tree' (link (heap tree' (link (heap tree' a) True)) True))
                \<noteq> level (heap tree' a)"
    by blast
  from run_calls1 r have rs: "rs = [1, 1, 1, 0, 0, 1, 1]"
    and "1 \<in> live tree' - {nil tree'}" by auto
  with b r show ?thesis by blast
qed

text \<open>
  C7. An erasure that finds nothing changes nothing. In a tree reached from
  \<open>jsw_anew\<close> (the empty tree included), if no allocated node holds an element that
  compares equal to the probe, \<open>jsw_aerase\<close> returns 0 and the tree it leaves is the
  tree it was given: same root, memory, size, allocated nodes and release log.
\<close>

theorem erase_absent_atomic:
  assumes "jsw_anew cmpf dupf mem True (Some n) = Some tree" and "allocs_ok tree ps"
    and "run tree ps = Some (rs, tree')"
    and "\<forall>a\<in>live tree' - {nil tree'}. \<forall>y. data (heap tree' a) = Some y \<longrightarrow> cmpf y x \<noteq> 0"
  shows "jsw_aerase tree' x = Some (0, tree')"
proof -
  let ?t = "runT cmpf dupf Leaf ps"
  from run_from_new[OF assms(1,2)] assms(3) have i: "tree_inv tree' ?t"
    and c: "cmp tree' = cmpf" by auto
  from i have rp: "represents tree' ?t" by (simp add: tree_inv_def)
  then have r: "rep (heap tree') (nil tree') (root tree') ?t" by (simp add: represents_def)
  have "\<forall>y\<in>set (elems ?t). cmpf y x \<noteq> 0"
  proof
    fix y assume "y \<in> set (elems ?t)"
    with r obtain a where "a \<in> set (addrs ?t)" "data (heap tree' a) = Some y"
      using elem_at_node by (fastforce simp: rep_def)
    with assms(4) live_nodes[OF rp] show "cmpf y x \<noteq> 0" by blast
  qed
  then have "\<not> has (cmp tree') x ?t" unfolding c by (rule no_elem_not_has)
  with r show ?thesis by (rule jsw_aerase_absent)
qed

theorem erase_absent_atomic_witness:
  "\<exists>tree'. run tree0 calls1 = Some ([1, 1, 1, 0, 0, 1, 1], tree') \<and>
     jsw_aerase tree' 7 = Some (0, tree')"
proof -
  from run_calls1 obtain tr where r: "run tree0 calls1 = Some ([1, 1, 1, 0, 0, 1, 1], tr)"
    and f: "nil tr = 0" "live tr = {0, 1, 3, 4}" "data (heap tr 1) = Some 2"
      "data (heap tr 3) = Some 2" "data (heap tr 4) = Some 3"
    by blast
  have "\<forall>a\<in>live tr - {nil tr}. \<forall>y. data (heap tr a) = Some y \<longrightarrow> icmp y 7 \<noteq> 0"
    using f by (auto simp: icmp_def)
  from erase_absent_atomic[OF jsw_anew_tree0 allocs_ok_calls1 r this] r show ?thesis by blast
qed

text \<open>
  C3. Insert is atomic on allocation failure. Take a well-formed tree and a \<open>malloc\<close>
  that, asked in the state of that tree, answers with nothing or with an address that is
  not allocated. Then \<open>jsw_ainsert\<close> returns, and it makes no difference whether
  \<open>malloc\<close> is asked at the point where \<open>new_node\<close> calls it or beforehand, on the
  tree as given: when the allocation is made the tree has not been touched. The call
  returns 0 exactly when the allocation failed, and then the tree it leaves is the tree
  it was given: root, memory (every link, level and element), size, allocated set and
  release log. On a tree that is not empty the descent ends at an allocated node and a
  link of it that holds the sentinel; this is the one link the code assigns before it
  tests the result of \<open>new_node\<close>, and assigning the sentinel to it changes nothing.
\<close>

theorem ainsert_failure_atomic:
  assumes "represents tree t" and "\<forall>a. malloc tree = Some a \<longrightarrow> a \<notin> live tree"
  shows "\<exists>r tree'. jsw_ainsert_asking malloc tree dat = Some (r, tree') \<and>
           jsw_ainsert tree dat (malloc tree) = Some (r, tree') \<and>
           (r = 0 \<longleftrightarrow> malloc tree = None) \<and> (r = 0 \<longrightarrow> tree' = tree) \<and>
           (root tree \<noteq> nil tree \<longrightarrow>
              (\<exists>path it dir. ainsert_descend tree dat (root tree) [] = Some (path, it, dir) \<and>
                 it \<in> live tree \<and> it \<noteq> nil tree \<and> link (heap tree it) dir = nil tree \<and>
                 (heap tree)(it := set_link (heap tree it) dir (nil tree)) = heap tree))"
proof -
  have A: "\<exists>r tree'. jsw_ainsert tree dat (malloc tree) = Some (r, tree') \<and>
             (r = 0 \<longleftrightarrow> malloc tree = None) \<and> (r = 0 \<longrightarrow> tree' = tree)"
  proof (cases "malloc tree")
    case None
    with assms show ?thesis by (auto simp: represents_def intro: jsw_ainsert_fails)
  next
    case (Some a)
    with assms have "a \<notin> set (addrs t)" "a \<noteq> nil tree" by (auto simp: represents_def)
    from jsw_ainsert_refines[OF _ _ this, of dat] assms(1) Some show ?thesis
      by (auto simp: represents_def)
  qed
  have B: "\<exists>path it dir. ainsert_descend tree dat (root tree) [] = Some (path, it, dir) \<and>
             it \<in> live tree \<and> it \<noteq> nil tree \<and> link (heap tree it) dir = nil tree \<and>
             (heap tree)(it := set_link (heap tree it) dir (nil tree)) = heap tree"
    if "root tree \<noteq> nil tree"
  proof -
    from ainsert_descend_spot[OF assms(1) that, of dat] obtain path it dir where
      d: "ainsert_descend tree dat (root tree) [] = Some (path, it, dir)" "it \<in> live tree"
        "it \<noteq> nil tree"
      and l: "link (heap tree it) dir = nil tree"
      by blast
    from l have "(heap tree)(it := set_link (heap tree it) dir (nil tree)) = heap tree"
      by (rule set_link_id)
    with d l show ?thesis by blast
  qed
  from A obtain r tree' where a: "jsw_ainsert tree dat (malloc tree) = Some (r, tree')"
    "r = 0 \<longleftrightarrow> malloc tree = None" "r = 0 \<longrightarrow> tree' = tree"
    by (elim exE conjE)
  from a(1) have "jsw_ainsert_asking malloc tree dat = Some (r, tree')"
    by (simp add: jsw_ainsert_asking_eq)
  with a B show ?thesis by (intro exI[of _ r] exI[of _ tree']) simp
qed

theorem ainsert_failure_atomic_witness:
  "\<exists>tree'. run tree0 calls1 = Some ([1, 1, 1, 0, 0, 1, 1], tree') \<and>
     root tree' = 1 \<and> nil tree' = 0 \<and>
     ainsert_descend tree' 5 (root tree') [] = Some ([1, 4], 4, True) \<and>
     link (heap tree' 4) True = 0 \<and>
     jsw_ainsert_asking (\<lambda>tr. if tr = tree' then None else Some 9) tree' 5 = Some (0, tree') \<and>
     jsw_ainsert tree' 5 None = Some (0, tree')"
proof -
  from run_calls1 obtain tr where r: "run tree0 calls1 = Some ([1, 1, 1, 0, 0, 1, 1], tr)"
    and f: "nil tr = 0" "root tr = 1" "cmp tr = icmp"
      "data (heap tr 1) = Some 2" "link (heap tr 1) True = 4"
      "data (heap tr 4) = Some 3" "link (heap tr 4) True = 0"
    by blast
  from run_calls1_inv r have "tree_inv tr (Node (Node Leaf 3 1 2 Leaf) 1 2 2 (Node Leaf 4 1 3 Leaf))"
    by auto
  then have rp: "represents tr (Node (Node Leaf 3 1 2 Leaf) 1 2 2 (Node Leaf 4 1 3 Leaf))"
    by (simp add: tree_inv_def)
  let ?malloc = "\<lambda>x. if x = tr then None else Some (9 :: addr)"
  have m: "\<forall>a. ?malloc tr = Some a \<longrightarrow> a \<notin> live tr" by simp
  from ainsert_failure_atomic[where malloc = ?malloc and tree = tr and dat = 5, OF rp m]
  obtain rr tree' where
    "jsw_ainsert_asking ?malloc tr 5 = Some (rr, tree')"
    "jsw_ainsert tr 5 (?malloc tr) = Some (rr, tree')"
    "rr = 0 \<longleftrightarrow> ?malloc tr = None" "rr = 0 \<longrightarrow> tree' = tr"
    by (elim exE conjE)
  then have j: "jsw_ainsert_asking ?malloc tr 5 = Some (0, tr)"
    "jsw_ainsert tr 5 None = Some (0, tr)" by auto
  have d: "ainsert_descend tr 5 (root tr) [] = Some ([1, 4], 4, True)"
    using f by (simp add: ainsert_descend.simps icmp_def)
  from r f j d show ?thesis by auto
qed

text \<open>
  C10. Splicing out the root loses nothing. In every tree reached from \<open>jsw_anew\<close>, a
  node other than the sentinel whose high child is the sentinel has level 1 and its low
  child is the sentinel too. So when \<open>jsw_aerase\<close> removes a root that has at most one
  child, the new root is the high child of the old one, and every element that could be
  reached from the old root, other than the element of the old root itself, can be
  reached from the new one: the elements reachable before are the element removed
  followed by the elements reachable afterwards.
\<close>

theorem root_splice_loses_nothing:
  assumes "jsw_anew cmpf dupf mem True (Some n) = Some tree" and "allocs_ok tree ps"
    and "run tree ps = Some (rs, tree')"
  shows "(\<forall>a\<in>live tree' - {nil tree'}. link (heap tree' a) True = nil tree' \<longrightarrow>
            level (heap tree' a) = 1 \<and> link (heap tree' a) False = nil tree') \<and>
         (root tree' \<noteq> nil tree' \<and> data (heap tree' (root tree')) = Some y \<and> cmpf y x = 0 \<and>
          (link (heap tree' (root tree')) False = nil tree' \<or>
           link (heap tree' (root tree')) True = nil tree') \<longrightarrow>
          (\<exists>tree''. jsw_aerase tree' x = Some (1, tree'') \<and>
             root tree'' = link (heap tree' (root tree')) True \<and>
             reachable tree' = Some y # reachable tree''))"
proof -
  let ?t = "runT cmpf dupf Leaf ps"
  let ?h = "heap tree'" and ?nl = "nil tree'"
  from run_from_new[OF assms(1,2)] assms(3) have i: "tree_inv tree' ?t"
    and c: "cmp tree' = cmpf" by auto
  from i have rp: "represents tree' ?t" and iv: "invar ?t" by (auto simp: tree_inv_def)
  from rp have it: "is_tree ?h ?nl (root tree') ?t"
    and nk: "nil_ok ?h ?nl" by (auto simp: represents_def rep_def)
  have A: "\<forall>a\<in>live tree' - {?nl}. link (?h a) True = ?nl \<longrightarrow>
             level (?h a) = 1 \<and> link (?h a) False = ?nl"
  proof
    fix a assume "a \<in> live tree' - {?nl}"
    with live_nodes[OF rp] have "a \<in> set (addrs ?t)" by simp
    from node_levels[OF it nk iv this]
    show "link (?h a) True = ?nl \<longrightarrow> level (?h a) = 1 \<and> link (?h a) False = ?nl" by blast
  qed
  have B: "\<exists>tree''. jsw_aerase tree' x = Some (1, tree'') \<and>
             root tree'' = link (?h (root tree')) True \<and>
             reachable tree' = Some y # reachable tree''"
    if rn: "root tree' \<noteq> ?nl" and dy: "data (?h (root tree')) = Some y" and cy: "cmpf y x = 0"
      and ch: "link (?h (root tree')) False = ?nl \<or> link (?h (root tree')) True = ?nl"
  proof -
    from it rn obtain l a lv z r where t: "?t = Node l a lv z r"
      by (cases ?t) auto
    with it dy have a: "root tree' = a" and z: "z = y"
      and il: "is_tree ?h ?nl (link (?h a) False) l" and ir: "is_tree ?h ?nl (link (?h a) True) r"
      by auto
    from a rn live_nodes[OF rp] t have al: "a \<in> live tree' - {?nl}" by auto
    have lf: "l = Leaf"
    proof -
      from ch a A al have "link (?h a) False = ?nl" by blast
      with il show ?thesis using is_tree_Leaf_iff by fastforce
    qed
    from t z cy have hs: "has (cmp tree') x ?t" by (simp add: c)
    from t z cy lf have e: "eraseT (cmp tree') x ?t = r" by (simp add: c)
    from tree_inv_erase[OF i hs] e obtain tree'' where
      j: "jsw_aerase tree' x = Some (1, tree'')" and i2: "tree_inv tree'' r"
      and nn: "nil tree'' = ?nl"
      by auto
    from i2 have rp2: "represents tree'' r" by (simp add: tree_inv_def)
    then have "is_tree (heap tree'') ?nl (root tree'') r"
      by (simp add: represents_def rep_def nn)
    then have "root tree'' = top_addr ?nl r" by (rule is_tree_top)
    also have "\<dots> = link (?h a) True" using is_tree_top[OF ir] by simp
    finally have rt: "root tree'' = link (?h (root tree')) True" by (simp add: a)
    have "reachable tree' = Some y # reachable tree''"
      unfolding reachable_rep[OF rp2] reachable_rep[OF rp] t using lf z by simp
    with j rt show ?thesis by blast
  qed
  from A B show ?thesis by blast
qed

theorem root_splice_loses_nothing_witness:
  "\<exists>tree' tree''. run tree0 [Insert 4 (Some 1), Insert 6 (Some 2)] = Some ([1, 1], tree') \<and>
     root tree' = 1 \<and> link (heap tree' 1) False = nil tree' \<and> link (heap tree' 1) True = 2 \<and>
     jsw_aerase tree' 4 = Some (1, tree'') \<and> root tree'' = 2 \<and>
     reachable tree' = [Some 4, Some 6] \<and> reachable tree'' = [Some 6]"
proof -
  let ?ps = "[Insert 4 (Some 1), Insert 6 (Some 2)] :: int call list"
  have ok: "allocs_ok tree0 ?ps" by (simp add: eval_defs)
  have "\<exists>tr. run tree0 ?ps = Some ([1, 1], tr) \<and> nil tr = 0 \<and> root tr = 1 \<and>
          data (heap tr 1) = Some 4 \<and> link (heap tr 1) False = 0 \<and> link (heap tr 1) True = 2"
    by (simp add: eval_defs)
  then obtain tr where r: "run tree0 ?ps = Some ([1, 1], tr)"
    and f: "nil tr = 0" "root tr = 1" "data (heap tr 1) = Some 4"
      "link (heap tr 1) False = 0" "link (heap tr 1) True = 2"
    by blast
  from run_from_new[OF jsw_anew_tree0 ok] r have "tree_inv tr (runT icmp id Leaf ?ps)" by auto
  then have "represents tr (Node Leaf 1 1 4 (Node Leaf 2 1 6 Leaf))"
    by (simp add: tree_inv_def icmp_def)
  then have before: "reachable tr = [Some 4, Some 6]" by (simp add: reachable_rep)
  have "root tr \<noteq> nil tr \<and> data (heap tr (root tr)) = Some 4 \<and> icmp 4 4 = 0 \<and>
        (link (heap tr (root tr)) False = nil tr \<or> link (heap tr (root tr)) True = nil tr)"
    using f by (simp add: icmp_def)
  with root_splice_loses_nothing[OF jsw_anew_tree0 ok r, of 4 4] obtain tree'' where
    "jsw_aerase tr 4 = Some (1, tree'')" "root tree'' = link (heap tr (root tr)) True"
    "reachable tr = Some 4 # reachable tree''"
    by blast
  with r f before show ?thesis by auto
qed

text \<open>
  C5. The rebalancing steps of an erasure, with the level rule that the code has. Take
  a tree reached from \<open>jsw_anew\<close> whose memory holds \<open>t\<close>, and a call of
  \<open>jsw_aerase\<close> that returns 1. The memory it leaves holds the tree that the walk
  described by the specification computes from \<open>t\<close>: at each ancestor with a child more
  than one level below it, lower the level of the ancestor by one, cap the level of its
  high child, skew the ancestor, its high child and the high child of that, split the
  ancestor and its high child, and link the result into the parent or the root.
  Lowering the level to one more than the larger child's level, as the specification
  has it, is not what the code does.
\<close>

theorem erase_rebalancing_steps:
  assumes "jsw_anew cmpf dupf mem True (Some n) = Some tree" and "allocs_ok tree ps"
    and "run tree ps = Some (rs, tree')" and "represents tree' t"
    and "jsw_aerase tree' x = Some (1, tree'')"
  shows "represents tree'' (spec_erase one_less cmpf x t)"
proof -
  from run_from_new[OF assms(1,2)] assms(3)
  have i: "tree_inv tree' (runT cmpf dupf Leaf ps)" and c: "cmp tree' = cmpf" by auto
  from i have "represents tree' (runT cmpf dupf Leaf ps)" by (simp add: tree_inv_def)
  with assms(4) have "runT cmpf dupf Leaf ps = t" using represents_unique by blast
  with i have "tree_inv tree' t" by simp
  from erase_spec_refines[OF this assms(5)] c show ?thesis by simp
qed

theorem erase_rebalancing_steps_witness:
  "\<exists>tree' tree''. run tree0 calls3 = Some ([1, 1, 1], tree') \<and>
     jsw_aerase tree' 1 = Some (1, tree'') \<and>
     represents tree'' (Node Leaf 2 1 2 (Node Leaf 3 1 3 Leaf))"
proof -
  let ?t = "Node (Node Leaf 1 1 1 Leaf) 2 2 2 (Node Leaf 3 1 3 Leaf) :: int atree"
  from run_calls3 obtain tr where r: "run tree0 calls3 = Some ([1, 1, 1], tr)"
    and c: "cmp tr = icmp" and i: "tree_inv tr ?t" by blast
  have "has (cmp tr) 1 ?t" by (simp add: c icmp_def)
  from tree_inv_erase[OF i this] obtain tr' where e: "jsw_aerase tr 1 = Some (1, tr')"
    by blast
  from i have "represents tr ?t" by (simp add: tree_inv_def)
  from erase_rebalancing_steps[OF jsw_anew_tree0 allocs_ok_calls3 r this e]
  have "represents tr' (Node Leaf 2 1 2 (Node Leaf 3 1 3 Leaf))"
    by (simp add: icmp_def one_less_def)
  with r e show ?thesis by blast
qed

theorem erase_rebalancing_counterexample:
  "\<exists>tree' tree'' t. run tree0 calls3 = Some ([1, 1, 1], tree') \<and> represents tree' t \<and>
     jsw_aerase tree' 1 = Some (1, tree'') \<and>
     level (heap tree' 2) = 2 \<and> link (heap tree' 2) False = 1 \<and>
     level (heap tree'' 2) = 1 \<and>
     link (heap tree'' 2) False = nil tree'' \<and> level (heap tree'' (nil tree'')) = 0 \<and>
     link (heap tree'' 2) True = 3 \<and> level (heap tree'' 3) = 1 \<and>
     larger_child_plus_one 2 0 1 = 2 \<and>
     spec_erase larger_child_plus_one icmp 1 t = Node Leaf 2 2 2 (Node Leaf 3 1 3 Leaf) \<and>
     \<not> represents tree'' (spec_erase larger_child_plus_one icmp 1 t)"
proof -
  let ?t = "Node (Node Leaf 1 1 1 Leaf) 2 2 2 (Node Leaf 3 1 3 Leaf) :: int atree"
  let ?u = "Node Leaf 2 1 2 (Node Leaf 3 1 3 Leaf) :: int atree"
  from run_calls3 obtain tr where r: "run tree0 calls3 = Some ([1, 1, 1], tr)"
    and c: "cmp tr = icmp" and i: "tree_inv tr ?t" by blast
  have "has (cmp tr) 1 ?t" by (simp add: c icmp_def)
  from tree_inv_erase[OF i this] obtain tr' where e: "jsw_aerase tr 1 = Some (1, tr')"
    by blast
  from i have rp: "represents tr ?t" by (simp add: tree_inv_def)
  from erase_spec_refines[OF i e] have ru: "represents tr' ?u"
    by (simp add: c icmp_def one_less_def)
  then have l: "level (heap tr' 2) = 1" by (simp add: represents_def rep_def)
  from tree_inv_erase[OF i \<open>has (cmp tr) 1 ?t\<close>] e have nn: "nil tr' = nil tr" by auto
  from rp have b: "level (heap tr 2) = 2" "link (heap tr 2) False = 1"
    by (auto simp: represents_def rep_def)
  from ru have a: "link (heap tr' 2) False = nil tr'" "level (heap tr' (nil tr')) = 0"
    "link (heap tr' 2) True = 3" "level (heap tr' 3) = 1"
    by (auto simp: represents_def rep_def nil_ok_def)
  have k: "larger_child_plus_one 2 0 1 = 2" by (simp add: larger_child_plus_one_def)
  have s: "spec_erase larger_child_plus_one icmp 1 ?t = Node Leaf 2 2 2 (Node Leaf 3 1 3 Leaf)"
    by (simp add: icmp_def larger_child_plus_one_def)
  have n: "\<not> represents tr' (spec_erase larger_child_plus_one icmp 1 ?t)"
    unfolding s using l by (simp add: represents_def rep_def)
  from r rp e l s a b k n show ?thesis
    by (intro exI[of _ tr] exI[of _ tr'] exI[of _ ?t] conjI) assumption+
qed

text \<open>
  C8. Destruction releases every stored element once and frees every node. Take a tree
  reached from \<open>jsw_anew\<close> by calls of \<open>jsw_ainsert\<close> and \<open>jsw_aerase\<close>. Then
  \<open>jsw_adelete\<close> returns. The calls of the release function that it makes are, in
  order, the elements reachable from the root, one call for each; there are as many as
  insertions that succeeded minus erasures that succeeded, the erasures having made one
  call each before. Afterwards no node is allocated, the sentinel included. The loop
  of the model keeps the tree and one pointer, as the loop of the code does.
\<close>

theorem destroy_releases_all:
  assumes "jsw_anew cmpf dupf mem True (Some n) = Some tree" and "allocs_ok tree ps"
  shows "\<exists>rs tree' gone. run tree ps = Some (rs, tree') \<and> jsw_adelete tree' = Some gone \<and>
           released gone = released tree' @ reachable tree' \<and>
           None \<notin> set (reachable tree') \<and>
           length (reachable tree') = ins_ok ps rs - era_ok ps rs \<and>
           length (released tree') = era_ok ps rs \<and>
           live gone = {}"
proof -
  let ?rs = "retsT cmpf dupf Leaf ps" and ?t = "runT cmpf dupf Leaf ps"
  from run_from_new[OF assms] obtain tree' where
    r: "run tree ps = Some (?rs, tree')" and i: "tree_inv tree' ?t" by blast
  from i have rp: "represents tree' ?t" by (simp add: tree_inv_def)
  from jsw_adelete_rep[OF rp] obtain gone where
    g: "jsw_adelete tree' = Some gone" "released gone = released tree' @ reachable tree'"
      "live gone = {}"
    by blast
  have re: "reachable tree' = map Some (elems ?t)" using rp by (rule reachable_rep)
  then have nn: "None \<notin> set (reachable tree')" by auto
  have "length (elems ?t) + era_ok ps ?rs = ins_ok ps ?rs"
    using count_runT[of Leaf cmpf dupf ps] by simp
  with re have c: "length (reachable tree') = ins_ok ps ?rs - era_ok ps ?rs" by simp
  from assms(1) have "released tree = []" by (auto simp: jsw_anew_def)
  with run_released[OF tree_inv_new[OF assms(1)] assms(2) r]
  have e: "length (released tree') = era_ok ps ?rs" by simp
  from r g nn c e show ?thesis by blast
qed

theorem destroy_releases_all_witness:
  "\<exists>tree' gone. run tree0 calls1 = Some ([1, 1, 1, 0, 0, 1, 1], tree') \<and>
     released tree' = [Some 1] \<and> reachable tree' = [Some 2, Some 2, Some 3] \<and>
     jsw_adelete tree' = Some gone \<and>
     released gone = [Some 1, Some 2, Some 2, Some 3] \<and> live gone = {}"
proof -
  from destroy_releases_all[OF jsw_anew_tree0 allocs_ok_calls1] obtain rs tree' gone where
    r: "run tree0 calls1 = Some (rs, tree')" and g: "jsw_adelete tree' = Some gone"
    and l: "released gone = released tree' @ reachable tree'" "live gone = {}"
    by blast
  from run_calls1 r have rs: "rs = [1, 1, 1, 0, 0, 1, 1]" and rl: "released tree' = [Some 1]"
    by auto
  from run_calls1_inv r
  have "tree_inv tree' (Node (Node Leaf 3 1 2 Leaf) 1 2 2 (Node Leaf 4 1 3 Leaf))" by auto
  then have "represents tree' (Node (Node Leaf 3 1 2 Leaf) 1 2 2 (Node Leaf 4 1 3 Leaf))"
    by (simp add: tree_inv_def)
  then have re: "reachable tree' = [Some 2, Some 2, Some 3]" by (simp add: reachable_rep)
  from r rs rl re g l show ?thesis by auto
qed

text \<open>
  C1. Membership. Start from \<open>jsw_anew\<close> with a comparison that is a total preorder
  and a duplicate function that returns an element comparing like its argument, and
  make any calls of \<open>jsw_ainsert\<close> and \<open>jsw_aerase\<close>. Then \<open>jsw_afind\<close> returns.
  It returns an element, not \<open>NULL\<close>, exactly when more insertions than erasures of
  elements comparing equal to the probe have succeeded; the element it returns compares
  equal to the probe and can be reached from the root. Equal elements are kept apart:
  the number of reachable elements comparing equal to the probe is the number of those
  insertions minus the number of those erasures.
\<close>

theorem membership_correct:
  assumes "jsw_anew cmpf dupf mem True (Some n) = Some tree" and "allocs_ok tree ps"
    and "cmp_ok cmpf" and "dup_ok cmpf dupf"
  shows "\<exists>rs tree' r. run tree ps = Some (rs, tree') \<and> jsw_afind tree' e = Some r \<and>
           (r \<noteq> None) = (era_eq cmpf e ps rs < ins_eq cmpf e ps rs) \<and>
           (\<forall>y. r = Some y \<longrightarrow> cmpf y e = 0 \<and> Some y \<in> set (reachable tree')) \<and>
           length (filter (equal_to cmpf e) (reachable tree')) =
             ins_eq cmpf e ps rs - era_eq cmpf e ps rs"
proof -
  let ?rs = "retsT cmpf dupf Leaf ps" and ?t = "runT cmpf dupf Leaf ps"
  from run_from_new[OF assms(1,2)] obtain tree' where
    r: "run tree ps = Some (?rs, tree')" and i: "tree_inv tree' ?t" and c: "cmp tree' = cmpf"
    by blast
  from i have rp: "represents tree' ?t" by (simp add: tree_inv_def)
  have st: "sortedT cmpf ?t"
    using sortedT_runT[OF assms(3,4), of Leaf ps] by (simp add: sortedT_def)
  have cnt: "eqs cmpf e ?t + era_eq cmpf e ps ?rs = ins_eq cmpf e ps ?rs"
    using eqs_runT[OF assms(3,4), of Leaf e ps] by (simp add: eqs_def)
  have re: "reachable tree' = map Some (elems ?t)" using rp by (rule reachable_rep)
  let ?r = "felem (fsub cmpf e ?t)"
  have f: "jsw_afind tree' e = Some ?r" using jsw_afind_rep[OF rp, of e] c by simp
  have "(?r \<noteq> None) = has cmpf e ?t"
    by (cases "fsub cmpf e ?t") (simp_all add: has_fsub)
  also have "\<dots> = (\<exists>y\<in>set (elems ?t). cmpf y e = 0)"
    using st by (rule has_iff_elem[OF assms(3)])
  also have "\<dots> = (0 < eqs cmpf e ?t)"
    by (auto simp: eqs_def filter_empty_conv)
  also have "\<dots> = (era_eq cmpf e ps ?rs < ins_eq cmpf e ps ?rs)" using cnt by linarith
  finally have a: "(?r \<noteq> None) = (era_eq cmpf e ps ?rs < ins_eq cmpf e ps ?rs)" .
  have b: "\<forall>y. ?r = Some y \<longrightarrow> cmpf y e = 0 \<and> Some y \<in> set (reachable tree')"
  proof (intro allI impI)
    fix y assume "?r = Some y"
    then obtain fl fa flv fr where fs: "fsub cmpf e ?t = Node fl fa flv y fr"
      by (cases "fsub cmpf e ?t") auto
    from fsub_found[OF fs] fsub_elem[OF fs] re
    show "cmpf y e = 0 \<and> Some y \<in> set (reachable tree')" by simp
  qed
  have "length (filter (equal_to cmpf e) (reachable tree')) = eqs cmpf e ?t"
    unfolding re by (simp only: filter_equal_to eqs_def)
  with cnt have d: "length (filter (equal_to cmpf e) (reachable tree')) =
      ins_eq cmpf e ps ?rs - era_eq cmpf e ps ?rs"
    by linarith
  from r f a b d show ?thesis by blast
qed

theorem membership_correct_witness:
  "\<exists>tree'. run tree0 calls1 = Some ([1, 1, 1, 0, 0, 1, 1], tree') \<and>
     jsw_afind tree' 2 = Some (Some 2) \<and> jsw_afind tree' 1 = Some None \<and>
     length (filter (equal_to icmp 2) (reachable tree')) = 2"
proof -
  from run_calls1 obtain tr where r0: "run tree0 calls1 = Some ([1, 1, 1, 0, 0, 1, 1], tr)"
    by blast
  from membership_correct[OF jsw_anew_tree0 allocs_ok_calls1 cmp_ok_icmp dup_ok_id, of 2] r0
  obtain r2 where a: "jsw_afind tr 2 = Some r2"
    "(r2 \<noteq> None) = (era_eq icmp 2 calls1 [1, 1, 1, 0, 0, 1, 1]
                       < ins_eq icmp 2 calls1 [1, 1, 1, 0, 0, 1, 1])"
    "\<forall>y. r2 = Some y \<longrightarrow> icmp y 2 = 0 \<and> Some y \<in> set (reachable tr)"
    "length (filter (equal_to icmp 2) (reachable tr)) =
       ins_eq icmp 2 calls1 [1, 1, 1, 0, 0, 1, 1] - era_eq icmp 2 calls1 [1, 1, 1, 0, 0, 1, 1]"
    by auto
  from a(2) have "r2 \<noteq> None" by (simp add: calls1_def icmp_def)
  then obtain y where y: "r2 = Some y" by auto
  with a(3) have "y = 2" by (simp add: icmp_def)
  with a(1) y have f2: "jsw_afind tr 2 = Some (Some 2)" by simp
  from a(4) have n2: "length (filter (equal_to icmp 2) (reachable tr)) = 2"
    by (simp add: calls1_def icmp_def)
  from membership_correct[OF jsw_anew_tree0 allocs_ok_calls1 cmp_ok_icmp dup_ok_id, of 1] r0
  obtain r1 where b: "jsw_afind tr 1 = Some r1"
    "(r1 \<noteq> None) = (era_eq icmp 1 calls1 [1, 1, 1, 0, 0, 1, 1]
                       < ins_eq icmp 1 calls1 [1, 1, 1, 0, 0, 1, 1])"
    by auto
  from b(2) have "r1 = None" by (simp add: calls1_def icmp_def)
  with b(1) have f1: "jsw_afind tr 1 = Some None" by simp
  from r0 f2 f1 n2 show ?thesis by blast
qed

text \<open>
  C4. Ties go low, and equal elements are kept. Take a tree reached from \<open>jsw_anew\<close>
  and an insertion whose \<open>malloc\<close> returns a fresh address. The insertion succeeds
  whatever the tree holds: the size grows by one, the new node is allocated and holds
  the duplicate of the element, and the elements reachable from the root are those of
  before and the new one. On a tree that is not empty the descent starts at the root
  and takes, at every node, the high child when the comparison of the node's element
  with the new one is negative and the low child otherwise, so also when they compare
  equal. When the comparison is a total preorder, the new element therefore comes, in
  order, after the elements that are smaller and before all others, the equal ones
  included.
\<close>

theorem insert_ties_go_low:
  assumes "jsw_anew cmpf dupf mem True (Some n) = Some tree" and "allocs_ok tree ps"
    and "run tree ps = Some (rs, tree')" and "a \<notin> live tree'"
  shows "\<exists>tree''. jsw_ainsert tree' x (Some a) = Some (1, tree'') \<and>
           jsw_asize tree'' = jsw_asize tree' + 1 \<and> live tree'' = insert a (live tree') \<and>
           data (heap tree'' a) = Some (dupf x) \<and>
           mset (reachable tree'') = add_mset (Some (dupf x)) (mset (reachable tree')) \<and>
           (root tree' \<noteq> nil tree' \<longrightarrow>
              (\<exists>path it dir. ainsert_descend tree' x (root tree') [] = Some (path, it, dir) \<and>
                 follows tree' x path \<and> hd path = root tree' \<and> last path = it \<and>
                 (case data (heap tree' it) of None \<Rightarrow> False
                  | Some d \<Rightarrow> dir = (cmpf d x < 0)) \<and>
                 link (heap tree' it) dir = nil tree')) \<and>
           (cmp_ok cmpf \<and> dup_ok cmpf dupf \<longrightarrow>
              reachable tree'' =
                filter (below cmpf x) (reachable tree') @ Some (dupf x) #
                filter (\<lambda>s. \<not> below cmpf x s) (reachable tree'))"
proof -
  let ?t = "runT cmpf dupf Leaf ps"
  from run_from_new[OF assms(1,2)] assms(3) have i: "tree_inv tree' ?t"
    and c: "cmp tree' = cmpf" and d: "dup tree' = dupf" by auto
  from i have rp: "represents tree' ?t" and iv: "invar ?t" by (auto simp: tree_inv_def)
  let ?u = "insT cmpf x a (dupf x) ?t"
  from tree_inv_insert[OF i assms(4), of x] c d obtain tree'' where
    j: "jsw_ainsert tree' x (Some a) = Some (1, tree'')" and i2: "tree_inv tree'' ?u"
    and lv: "live tree'' = insert a (live tree')" and nn: "nil tree'' = nil tree'"
    by auto
  from i2 have rp2: "represents tree'' ?u"
    and sz2: "tsize tree'' = of_nat (length (elems ?u))" by (auto simp: tree_inv_def)
  from i have sz: "tsize tree' = of_nat (length (elems ?t))" by (simp add: tree_inv_def)
  have "length (elems ?u) = Suc (length (elems ?t))"
    by (simp add: length_elems length_addrs_linkT)
  with sz sz2 have s: "jsw_asize tree'' = jsw_asize tree' + 1" by (simp add: jsw_asize_def)
  from rp2 have "is_tree (heap tree'') (nil tree'') (root tree'') ?u"
    by (simp add: represents_def rep_def)
  then have da: "data (heap tree'' a) = Some (dupf x)" by (rule inserted_data)
  have re: "reachable tree' = map Some (elems ?t)" using rp by (rule reachable_rep)
  have re2: "reachable tree'' = map Some (elems (linkT cmpf x a (dupf x) ?t))"
    using reachable_rep[OF rp2] by simp
  have m: "mset (reachable tree'') = add_mset (Some (dupf x)) (mset (reachable tree'))"
    unfolding re re2 by (simp add: mset_elems_linkT)
  have p: "\<exists>path it dir. ainsert_descend tree' x (root tree') [] = Some (path, it, dir) \<and>
             follows tree' x path \<and> hd path = root tree' \<and> last path = it \<and>
             (case data (heap tree' it) of None \<Rightarrow> False | Some d \<Rightarrow> dir = (cmpf d x < 0)) \<and>
             link (heap tree' it) dir = nil tree'"
    if "root tree' \<noteq> nil tree'"
    using ainsert_descend_follows[OF rp that, of x] unfolding c .
  have o: "reachable tree'' =
      filter (below cmpf x) (reachable tree') @ Some (dupf x) #
      filter (\<lambda>s. \<not> below cmpf x s) (reachable tree')"
    if "cmp_ok cmpf \<and> dup_ok cmpf dupf"
  proof -
    from that have ck: "cmp_ok cmpf" and dk: "dup_ok cmpf dupf" by auto
    have st: "sortedT cmpf ?t"
      using sortedT_runT[OF ck dk, of Leaf ps] by (simp add: sortedT_def)
    show ?thesis
      unfolding re re2 elems_linkT_sorted[OF ck st] filter_below filter_not_below by simp
  qed
  from j s lv da m p o show ?thesis by blast
qed

theorem insert_ties_go_low_witness:
  "\<exists>tree' tree''. run tree0 calls1 = Some ([1, 1, 1, 0, 0, 1, 1], tree') \<and>
     reachable tree' = [Some 2, Some 2, Some 3] \<and>
     jsw_ainsert tree' 2 (Some 9) = Some (1, tree'') \<and>
     ainsert_descend tree' 2 (root tree') [] = Some ([1, 3], 3, False) \<and>
     jsw_asize tree'' = 4 \<and> data (heap tree'' 9) = Some 2 \<and>
     reachable tree'' = [Some 2, Some 2, Some 2, Some 3]"
proof -
  from run_calls1 obtain tr where r: "run tree0 calls1 = Some ([1, 1, 1, 0, 0, 1, 1], tr)"
    and f: "nil tr = 0" "root tr = 1" "cmp tr = icmp" "live tr = {0, 1, 3, 4}" "tsize tr = 3"
      "data (heap tr 1) = Some 2" "link (heap tr 1) False = 3"
      "data (heap tr 3) = Some 2" "link (heap tr 3) False = 0"
    by blast
  from run_calls1_inv r
  have "tree_inv tr (Node (Node Leaf 3 1 2 Leaf) 1 2 2 (Node Leaf 4 1 3 Leaf))" by auto
  then have "represents tr (Node (Node Leaf 3 1 2 Leaf) 1 2 2 (Node Leaf 4 1 3 Leaf))"
    by (simp add: tree_inv_def)
  then have re: "reachable tr = [Some 2, Some 2, Some 3]" by (simp add: reachable_rep)
  have fr: "9 \<notin> live tr" using f by simp
  from insert_ties_go_low[OF jsw_anew_tree0 allocs_ok_calls1 r fr, of 2] obtain tree'' where
    j: "jsw_ainsert tr 2 (Some 9) = Some (1, tree'')"
    and s: "jsw_asize tree'' = jsw_asize tr + 1"
    and da: "data (heap tree'' 9) = Some (id 2)"
    and o: "cmp_ok icmp \<and> dup_ok icmp id \<longrightarrow>
              reachable tree'' =
                filter (below icmp 2) (reachable tr) @ Some (id 2) #
                filter (\<lambda>s. \<not> below icmp 2 s) (reachable tr)"
    by (elim exE conjE)
  from o cmp_ok_icmp dup_ok_id re have re2: "reachable tree'' = [Some 2, Some 2, Some 2, Some 3]"
    by (simp add: below_def icmp_def)
  have d: "ainsert_descend tr 2 (root tr) [] = Some ([1, 3], 3, False)"
    using f by (simp add: ainsert_descend.simps icmp_def)
  from s f have s4: "jsw_asize tree'' = 4" by (simp add: jsw_asize_def)
  from r re j d s4 da re2 show ?thesis by auto
qed

text \<open>
  C6. Traversal order. Take a tree reached from \<open>jsw_anew\<close> and any traversal object.
  Calling \<open>jsw_atfirst\<close> and then \<open>jsw_atnext\<close> until \<open>NULL\<close> comes back ends, and
  yields the elements reachable from the root, each node once, as many as insertions
  minus erasures have succeeded. Calling \<open>jsw_atlast\<close> and then \<open>jsw_atprev\<close> ends
  too and yields the same elements in the opposite order. When the comparison is a total
  preorder and duplicates compare like their originals, the first sequence never goes
  down and the second never goes up.
\<close>

theorem traversal_order:
  assumes "jsw_anew cmpf dupf mem True (Some n) = Some tree" and "allocs_ok tree ps"
    and "run tree ps = Some (rs, tree')"
  shows "\<exists>xs. forward trav tree' = Some xs \<and> backward trav tree' = Some (rev xs) \<and>
           map Some xs = reachable tree' \<and> length xs = ins_ok ps rs - era_ok ps rs \<and>
           (cmp_ok cmpf \<and> dup_ok cmpf dupf \<longrightarrow>
              sorted_wrt (\<lambda>a b. cmpf a b \<le> 0) xs \<and>
              sorted_wrt (\<lambda>a b. cmpf b a \<le> 0) (rev xs))"
proof -
  let ?t = "runT cmpf dupf Leaf ps"
  from run_from_new[OF assms(1,2)] assms(3) have i: "tree_inv tree' ?t"
    and rs: "rs = retsT cmpf dupf Leaf ps" by auto
  from i have rp: "represents tree' ?t" by (simp add: tree_inv_def)
  have f: "forward trav tree' = Some (elems ?t)" using rp by (rule traverse_rep(1))
  have b: "backward trav tree' = Some (rev (elems ?t))" using rp by (rule traverse_rep(2))
  have re: "map Some (elems ?t) = reachable tree'" using reachable_rep[OF rp] by simp
  have "length (elems ?t) + era_ok ps rs = ins_ok ps rs"
    using count_runT[of Leaf cmpf dupf ps] rs by simp
  then have l: "length (elems ?t) = ins_ok ps rs - era_ok ps rs" by simp
  have o: "sorted_wrt (\<lambda>a b. cmpf a b \<le> 0) (elems ?t) \<and>
           sorted_wrt (\<lambda>a b. cmpf b a \<le> 0) (rev (elems ?t))"
    if "cmp_ok cmpf \<and> dup_ok cmpf dupf"
  proof -
    from that have ck: "cmp_ok cmpf" and dk: "dup_ok cmpf dupf" by auto
    have "sortedT cmpf ?t"
      using sortedT_runT[OF ck dk, of Leaf ps] by (simp add: sortedT_def)
    then show ?thesis by (simp add: sortedT_def sorted_wrt_rev)
  qed
  from f b re l o show ?thesis by blast
qed

theorem traversal_order_witness:
  "\<exists>tree'. run tree0 calls1 = Some ([1, 1, 1, 0, 0, 1, 1], tree') \<and>
     forward \<lparr>t_tree = tree0, t_it = 0, t_path = [], t_top = 0\<rparr> tree' = Some [2, 2, 3] \<and>
     backward \<lparr>t_tree = tree0, t_it = 0, t_path = [], t_top = 0\<rparr> tree' = Some [3, 2, 2] \<and>
     sorted_wrt (\<lambda>a b. icmp a b \<le> 0) [2, 2, 3]"
proof -
  let ?trav = "\<lparr>t_tree = tree0, t_it = 0, t_path = [], t_top = 0\<rparr>"
  from run_calls1 obtain tr where r: "run tree0 calls1 = Some ([1, 1, 1, 0, 0, 1, 1], tr)"
    by blast
  from run_calls1_inv r
  have "tree_inv tr (Node (Node Leaf 3 1 2 Leaf) 1 2 2 (Node Leaf 4 1 3 Leaf))" by auto
  then have "represents tr (Node (Node Leaf 3 1 2 Leaf) 1 2 2 (Node Leaf 4 1 3 Leaf))"
    by (simp add: tree_inv_def)
  then have re: "reachable tr = [Some 2, Some 2, Some 3]" by (simp add: reachable_rep)
  from traversal_order[OF jsw_anew_tree0 allocs_ok_calls1 r, of ?trav] obtain xs where
    f: "forward ?trav tr = Some xs" and b: "backward ?trav tr = Some (rev xs)"
    and m: "map Some xs = reachable tr"
    and o: "cmp_ok icmp \<and> dup_ok icmp id \<longrightarrow>
              sorted_wrt (\<lambda>a b. icmp a b \<le> 0) xs \<and> sorted_wrt (\<lambda>a b. icmp b a \<le> 0) (rev xs)"
    by (elim exE conjE)
  from m re have xs: "xs = [2, 2, 3]" by (auto simp: map_eq_Cons_conv)
  from o cmp_ok_icmp dup_ok_id xs have "sorted_wrt (\<lambda>a b. icmp a b \<le> 0) [2, 2, 3]" by simp
  with r f b xs show ?thesis by auto
qed

end
